(* ===== verification/Ucc_Prelude.thy ===== *)
theory Ucc_Prelude
  imports Main "HOL-Library.Word"
begin

text \<open>
  Shared vocabulary of the development: C's fixed-width unsigned arithmetic on natural
  numbers with the wrap-around written out, the status codes every routine of UCC returns,
  the rank constants, and the generic lemmas on lists that the components share.

  A value of type \<open>uintN_t\<close> is a natural number below \<open>2 ^ N\<close>. Every addition,
  multiplication or subtraction of the source that is not followed by a comparison in a wider
  type goes through \<open>u32\<close>, \<open>u64\<close>, \<open>sub32\<close> or \<open>sub64\<close>, so an overflow of the
  source is an overflow of the model.
\<close>

section \<open>Fixed-width unsigned arithmetic\<close>

named_theorems wrap_simps \<open>wrap-around operations that stay in range\<close>

definition u8 :: "nat \<Rightarrow> nat" where
  "u8 n = n mod 2 ^ 8"

definition u16 :: "nat \<Rightarrow> nat" where
  "u16 n = n mod 2 ^ 16"

definition u32 :: "nat \<Rightarrow> nat" where
  "u32 n = n mod 2 ^ 32"

definition u64 :: "nat \<Rightarrow> nat" where
  "u64 n = n mod 2 ^ 64"

text \<open>Unsigned subtraction: \<open>a - b\<close> modulo \<open>2 ^ N\<close>.\<close>

definition sub32 :: "nat \<Rightarrow> nat \<Rightarrow> nat" where
  "sub32 a b = u32 (a + (2 ^ 32 - u32 b))"

definition sub64 :: "nat \<Rightarrow> nat \<Rightarrow> nat" where
  "sub64 a b = u64 (a + (2 ^ 64 - u64 b))"

text \<open>The signed reading of a 32-bit pattern, and the 32-bit pattern of an integer.\<close>

definition s32 :: "int \<Rightarrow> int" where
  "s32 i = (i + 2 ^ 31) mod 2 ^ 32 - 2 ^ 31"

definition s64 :: "int \<Rightarrow> int" where
  "s64 i = (i + 2 ^ 63) mod 2 ^ 64 - 2 ^ 63"

definition u32_of_int :: "int \<Rightarrow> nat" where
  "u32_of_int i = nat (i mod 2 ^ 32)"

definition u64_of_int :: "int \<Rightarrow> nat" where
  "u64_of_int i = nat (i mod 2 ^ 64)"

lemma u8_lt: "u8 n < 2 ^ 8" and u16_lt: "u16 n < 2 ^ 16"
  and u32_lt: "u32 n < 2 ^ 32" and u64_lt: "u64 n < 2 ^ 64"
  by (simp_all add: u8_def u16_def u32_def u64_def)

lemma u8_id [wrap_simps]: "n < 2 ^ 8 \<Longrightarrow> u8 n = n"
  by (simp add: u8_def)

lemma u16_id [wrap_simps]: "n < 2 ^ 16 \<Longrightarrow> u16 n = n"
  by (simp add: u16_def)

lemma u32_id [wrap_simps]: "n < 2 ^ 32 \<Longrightarrow> u32 n = n"
  by (simp add: u32_def)

lemma u64_id [wrap_simps]: "n < 2 ^ 64 \<Longrightarrow> u64 n = n"
  by (simp add: u64_def)

lemma u32_le: "u32 n \<le> n" and u64_le: "u64 n \<le> n"
  by (simp_all add: u32_def u64_def)

lemma sub_wrap:
  fixes a b m :: nat
  assumes "b \<le> a" and "a < m"
  shows "(a + (m - b mod m)) mod m = a - b"
proof -
  have "a + (m - b mod m) = (a - b) + m" using assms by simp
  then have "(a + (m - b mod m)) mod m = (a - b) mod m" by (simp only: mod_add_self2)
  also have "\<dots> = a - b" using assms by simp
  finally show ?thesis .
qed

lemma sub32_id [wrap_simps]: "b \<le> a \<Longrightarrow> a < 2 ^ 32 \<Longrightarrow> sub32 a b = a - b"
  unfolding sub32_def u32_def by (rule sub_wrap)

lemma sub64_id [wrap_simps]: "b \<le> a \<Longrightarrow> a < 2 ^ 64 \<Longrightarrow> sub64 a b = a - b"
  unfolding sub64_def u64_def by (rule sub_wrap)

lemma sub32_lt: "sub32 a b < 2 ^ 32"
  unfolding sub32_def by (rule u32_lt)

lemma sub64_lt: "sub64 a b < 2 ^ 64"
  unfolding sub64_def by (rule u64_lt)

lemma s32_id [wrap_simps]: "- (2 ^ 31) \<le> i \<Longrightarrow> i < 2 ^ 31 \<Longrightarrow> s32 i = i"
  by (simp add: s32_def)

lemma s64_id [wrap_simps]: "- (2 ^ 63) \<le> i \<Longrightarrow> i < 2 ^ 63 \<Longrightarrow> s64 i = i"
  by (simp add: s64_def)

lemma s64_int [wrap_simps]: "n < 2 ^ 63 \<Longrightarrow> s64 (int n) = int n"
  by (intro s64_id) (simp_all add: of_nat_less_numeral_power_cancel_iff [symmetric] del: of_nat_less_numeral_power_cancel_iff)

lemma u64_of_int_nat [wrap_simps]: "n < 2 ^ 64 \<Longrightarrow> u64_of_int (int n) = n"
  unfolding u64_of_int_def by (simp add: zmod_int nat_mod_distrib)

lemma u32_of_int_nat [wrap_simps]: "n < 2 ^ 32 \<Longrightarrow> u32_of_int (int n) = n"
  unfolding u32_of_int_def by (simp add: zmod_int nat_mod_distrib)

section \<open>Status codes and ranks\<close>

text \<open>\<open>ucc_status_t\<close> of \<open>src/ucc/api/ucc_status.h\<close>; errors are the negative codes.\<close>

datatype ucc_status =
    UCC_OK
  | UCC_INPROGRESS
  | UCC_OPERATION_INITIALIZED
  | UCC_ERR_NOT_SUPPORTED
  | UCC_ERR_NOT_IMPLEMENTED
  | UCC_ERR_INVALID_PARAM
  | UCC_ERR_NO_MEMORY
  | UCC_ERR_NO_RESOURCE
  | UCC_ERR_NO_MESSAGE
  | UCC_ERR_NOT_FOUND
  | UCC_ERR_TIMED_OUT
  | UCC_ERR_LAST

fun status_code :: "ucc_status \<Rightarrow> int" where
  "status_code UCC_OK = 0"
| "status_code UCC_INPROGRESS = 1"
| "status_code UCC_OPERATION_INITIALIZED = 2"
| "status_code UCC_ERR_NOT_SUPPORTED = -1"
| "status_code UCC_ERR_NOT_IMPLEMENTED = -2"
| "status_code UCC_ERR_INVALID_PARAM = -3"
| "status_code UCC_ERR_NO_MEMORY = -4"
| "status_code UCC_ERR_NO_RESOURCE = -5"
| "status_code UCC_ERR_NO_MESSAGE = -6"
| "status_code UCC_ERR_NOT_FOUND = -7"
| "status_code UCC_ERR_TIMED_OUT = -8"
| "status_code UCC_ERR_LAST = -100"

definition status_is_err :: "ucc_status \<Rightarrow> bool" where
  "status_is_err s \<longleftrightarrow> status_code s < 0"

type_synonym ucc_rank = nat

definition UCC_RANK_INVALID :: ucc_rank where
  "UCC_RANK_INVALID = 2 ^ 32 - 1"

definition UCC_RANK_MAX :: ucc_rank where
  "UCC_RANK_MAX = 2 ^ 32 - 2"

lemma status_code_inj: "status_code a = status_code b \<Longrightarrow> a = b"
  by (cases a; cases b; simp)

section \<open>Generic lemmas\<close>

lemma sum_list_take_Suc:
  fixes xs :: "nat list"
  shows "i < length xs \<Longrightarrow> sum_list (take (Suc i) xs) = sum_list (take i xs) + xs ! i"
  by (simp add: take_Suc_conv_app_nth)

lemma sum_list_take_le:
  fixes xs :: "nat list"
  shows "sum_list (take i xs) \<le> sum_list xs"
  by (metis append_take_drop_id le_add1 sum_list.append)

lemma div_modE:
  fixes a b :: nat
  assumes "0 < b"
  obtains q r where "a = q * b + r" and "r < b" and "a div b = q" and "a mod b = r"
  using assms that [of "a div b" "a mod b"] by simp

lemma div_mult_le_bound: "(a::nat) div b * b \<le> a"
  by simp

end
