(* ===== verification/Ucc_Math.thy ===== *)
theory Ucc_Math
  imports Ucc_Prelude "HOL-Library.Multiset"
begin

text \<open>
  \<open>src/utils/ucc_math.h\<close> and \<open>src/utils/ucc_math.c\<close>: rounding and alignment
  macros, valuations and logarithms, the string hash, the bfloat16 conversions and the
  sort-and-deduplicate helper. Loops whose termination depends on the arguments are
  option-valued: \<open>None\<close> is a loop that does not return (or a division trap).
\<close>

unbundle bit_operations_syntax

section \<open>Rounding and alignment\<close>

definition ucc_ceil :: "nat \<Rightarrow> nat \<Rightarrow> nat" where
  "ucc_ceil a b = (if a mod b \<noteq> 0 then (a div b + 1) * b else a)"

text \<open>\<open>ucc_div_round_up\<close> on \<open>size_t\<close> operands.\<close>

definition ucc_div_round_up :: "nat \<Rightarrow> nat \<Rightarrow> nat" where
  "ucc_div_round_up n d = sub64 (u64 (n + d)) 1 div d"

definition ucc_padding :: "nat \<Rightarrow> nat \<Rightarrow> nat" where
  "ucc_padding n alignment = (alignment - n mod alignment) mod alignment"

definition ucc_align_down :: "nat \<Rightarrow> nat \<Rightarrow> nat" where
  "ucc_align_down n alignment = n - n mod alignment"

definition ucc_align_up :: "nat \<Rightarrow> nat \<Rightarrow> nat" where
  "ucc_align_up n alignment = n + ucc_padding n alignment"

definition ucc_align_down_pow2 :: "64 word \<Rightarrow> 64 word \<Rightarrow> 64 word" where
  "ucc_align_down_pow2 n alignment = n AND NOT (alignment - 1)"

definition ucc_align_up_pow2 :: "64 word \<Rightarrow> 64 word \<Rightarrow> 64 word" where
  "ucc_align_up_pow2 n alignment = ucc_align_down_pow2 (n + alignment - 1) alignment"

section \<open>Valuations and logarithms\<close>

partial_function (option) calc_valuation_loop :: "nat \<Rightarrow> nat \<Rightarrow> nat \<Rightarrow> nat option" where
  "calc_valuation_loop p v q =
     (if p = 0 then None
      else if q mod p = 0 then calc_valuation_loop p (u32 (v + 1)) (q div p)
      else Some v)"

definition calc_valuation :: "nat \<Rightarrow> nat \<Rightarrow> nat option" where
  "calc_valuation n p = calc_valuation_loop p 0 n"

partial_function (option) lognum_loop :: "int \<Rightarrow> int \<Rightarrow> int \<Rightarrow> int option" where
  "lognum_loop n cnt lg =
     (if cnt < n then lognum_loop n (s32 (cnt * 2)) (lg + 1) else Some lg)"

definition lognum :: "int \<Rightarrow> int option" where
  "lognum n = lognum_loop n 1 0"

text \<open>
  \<open>__builtin_clz\<close> on a 32-bit operand, by its documented meaning: the number of zero bits
  above the highest set bit. The compiler leaves the result for 0 undefined, and the callers here never
  use it.
\<close>

fun bit_length :: "nat \<Rightarrow> nat" where
  "bit_length n = (if n = 0 then 0 else Suc (bit_length (n div 2)))"

declare bit_length.simps [simp del]

definition ucc_count_leading_zero_bits :: "nat \<Rightarrow> nat" where
  "ucc_count_leading_zero_bits n = 32 - bit_length n"

definition ucc_ilog2_ceil :: "nat \<Rightarrow> nat" where
  "ucc_ilog2_ceil n =
     (let x = ucc_count_leading_zero_bits n
      in if n AND sub32 n 1 = 0 then 31 - x else 31 - x + 1)"

definition ucc_round_up_power2 :: "int \<Rightarrow> int" where
  "ucc_round_up_power2 v =
     (if v \<le> 1 then 1
      else s32 (2 ^ (32 - ucc_count_leading_zero_bits (u32_of_int (v - 1)))))"

section \<open>Hashing and bfloat16\<close>

text \<open>
  The characters of the string are read as \<open>char\<close>, which is signed on the supported
  platforms; a code above 127 is subtracted from 256. Arithmetic is on \<open>unsigned long\<close>.
\<close>

definition signed_char :: "char \<Rightarrow> 64 word" where
  "signed_char c = word_of_int (if of_char c < (128 :: int) then of_char c else of_char c - 256)"

fun djb2_loop :: "64 word \<Rightarrow> string \<Rightarrow> 64 word" where
  "djb2_loop hash [] = hash"
| "djb2_loop hash (c # str) =
     (if c = CHR 0x00 then hash
      else djb2_loop ((push_bit 5 hash + hash) + signed_char c) str)"

definition ucc_str_hash_djb2 :: "string \<Rightarrow> 64 word" where
  "ucc_str_hash_djb2 str = djb2_loop 5381 str"

text \<open>
  The little-endian branch: the upper half-word of the binary32 pattern is the bfloat16 pattern.
  A \<open>float\<close> is its 32-bit pattern.
\<close>

definition bfloat16tofloat32 :: "16 word \<Rightarrow> 32 word" where
  "bfloat16tofloat32 b = push_bit 16 (ucast b)"

definition float32tobfloat16 :: "32 word \<Rightarrow> 16 word" where
  "float32tobfloat16 f = ucast (drop_bit 16 f)"

section \<open>Sorting with removal of duplicates\<close>

definition cmp_lt :: "bool \<Rightarrow> int \<Rightarrow> int \<Rightarrow> bool" where
  "cmp_lt inv_order a b = (if inv_order then s32 (b - a) < 0 else s32 (a - b) < 0)"

text \<open>
  \<open>qsort\<close> with the comparison above; the C library promises an ordered permutation, which an
  insertion sort with the same comparison computes.
\<close>

fun qsort_insert :: "bool \<Rightarrow> int \<Rightarrow> int list \<Rightarrow> int list" where
  "qsort_insert inv_order x [] = [x]"
| "qsort_insert inv_order x (y # ys) =
     (if cmp_lt inv_order y x then y # qsort_insert inv_order x ys else x # y # ys)"

definition qsort_int :: "bool \<Rightarrow> int list \<Rightarrow> int list" where
  "qsort_int inv_order xs = foldr (qsort_insert inv_order) xs []"

text \<open>
  The loop of \<open>_unique\<close>: \<open>result\<close> is the last kept element, \<open>kept\<close> the kept prefix in
  reverse order.
\<close>

fun unique_loop :: "int list \<Rightarrow> int \<Rightarrow> int list \<Rightarrow> int list" where
  "unique_loop kept result [] = rev (result # kept)"
| "unique_loop kept result (x # xs) =
     (if result = x then unique_loop kept result xs
      else unique_loop (result # kept) x xs)"

text \<open>The value returned and the kept prefix; on an empty array the C returns 1.\<close>

fun ucc_unique :: "int list \<Rightarrow> nat \<times> int list" where
  "ucc_unique [] = (1, [])"
| "ucc_unique (x # xs) = (let out = unique_loop [] x xs in (length out, out))"

definition ucc_sort_uniq :: "int list \<Rightarrow> bool \<Rightarrow> nat \<times> int list" where
  "ucc_sort_uniq array inv_order = ucc_unique (qsort_int inv_order array)"

section \<open>Correctness\<close>

lemma ucc_ceil_props:
  assumes "0 < b"
  shows "b dvd ucc_ceil a b" and "a \<le> ucc_ceil a b" and "ucc_ceil a b < a + b"
proof -
  obtain q r where "a = q * b + r" "r < b" using div_modE [OF assms] by metis
  then show "a \<le> ucc_ceil a b" "ucc_ceil a b < a + b"
    using assms by (auto simp: ucc_ceil_def algebra_simps)
  show "b dvd ucc_ceil a b" by (auto simp: ucc_ceil_def)
qed

lemma ucc_align_up_props:
  assumes "0 < a"
  shows "a dvd ucc_align_up n a" and "n \<le> ucc_align_up n a" and "ucc_align_up n a < n + a"
proof -
  obtain q r where n: "n = q * a + r" and r: "r < a" using div_modE [OF assms] by metis
  have "ucc_align_up n a = (if r = 0 then q * a else (q + 1) * a)"
    using n r by (simp add: ucc_align_up_def ucc_padding_def)
  then show "a dvd ucc_align_up n a" "n \<le> ucc_align_up n a" "ucc_align_up n a < n + a"
    using n r assms by (auto split: if_splits)
qed

lemma ucc_align_down_eq: "ucc_align_down n a = n div a * a"
  unfolding ucc_align_down_def by (simp add: minus_mod_eq_div_mult)

lemma unat_of_nat64: "x < 2 ^ 64 \<Longrightarrow> unat (of_nat x :: 64 word) = x"
  by (simp add: unat_of_nat)

lemma unat_pow2_64: "k < 64 \<Longrightarrow> unat ((2 :: 64 word) ^ k) = 2 ^ k"
proof -
  assume "k < 64"
  then have "(2 :: nat) ^ k < 2 ^ 64" by (intro power_strict_increasing) simp_all
  then show ?thesis using unat_of_nat64 [of "2 ^ k"] by simp
qed

lemma and_not_mask:
  fixes x :: "64 word"
  shows "x AND NOT (mask k) = x - take_bit k x"
proof -
  have "x - (x AND mask k) = x AND NOT (x AND mask k)"
    by (rule disjunctive_diff_eq_and_not) (simp add: bit_eq_iff bit_and_iff bit_not_iff)
  also have "\<dots> = x AND NOT (mask k)"
    by (auto simp: bit_eq_iff bit_and_iff bit_not_iff bit_or_iff)
  finally show ?thesis by (simp add: take_bit_eq_mask)
qed

lemma unat_align_down_pow2:
  assumes "k < 64"
  shows "unat (ucc_align_down_pow2 n (2 ^ k)) = unat n div 2 ^ k * 2 ^ k"
proof -
  have "ucc_align_down_pow2 n (2 ^ k) = n - take_bit k n"
    by (simp add: ucc_align_down_pow2_def and_not_mask flip: mask_eq_exp_minus_1)
  moreover have tb: "unat (take_bit k n) = unat n mod 2 ^ k"
    using assms by (simp add: unsigned_take_bit_eq flip: take_bit_eq_mod)
  moreover have "take_bit k n \<le> n"
    by (simp add: word_le_nat_alt tb)
  ultimately show ?thesis
    by (simp add: unat_sub minus_mod_eq_div_mult)
qed

lemma calc_valuation_loop_correct:
  assumes "2 \<le> p"
  shows "0 < q \<Longrightarrow> v + q < 2 ^ 32 \<Longrightarrow>
    \<exists>k. calc_valuation_loop p v q = Some (v + k) \<and> p ^ k dvd q \<and> \<not> p ^ Suc k dvd q"
proof (induction q arbitrary: v rule: less_induct)
  case (less q)
  show ?case
  proof (cases "q mod p = 0")
    case False
    then have "calc_valuation_loop p v q = Some (v + 0)"
      using assms by (simp add: calc_valuation_loop.simps)
    moreover have "\<not> p ^ Suc 0 dvd q" using False by (simp add: mod_eq_0_iff_dvd)
    ultimately show ?thesis by (intro exI [of _ 0]) simp
  next
    case True
    then obtain r where q: "q = p * r" by auto
    then have r: "q div p = r" "0 < r" "r < q" using assms less.prems by auto
    then have "v + 1 + r < 2 ^ 32" using less.prems by simp
    from less.IH [OF \<open>r < q\<close> \<open>0 < r\<close> this]
    obtain k where k: "calc_valuation_loop p (v + 1) r = Some (v + 1 + k)"
      "p ^ k dvd r" "\<not> p ^ Suc k dvd r" by auto
    have "u32 (v + 1) = v + 1" using \<open>v + 1 + r < 2 ^ 32\<close> by (intro u32_id) simp
    then have "calc_valuation_loop p v q = Some (v + Suc k)"
      using assms True r(1) k(1) by (subst calc_valuation_loop.simps) simp
    moreover have "p ^ Suc k dvd q" using k(2) q by simp
    moreover have "\<not> p ^ Suc (Suc k) dvd q" using k(3) q assms by simp
    ultimately show ?thesis by blast
  qed
qed

lemma lognum_loop_correct:
  assumes "n \<le> 2 ^ 30"
  shows "(2::int) ^ k < 2 * n \<or> k = 0 \<Longrightarrow>
    \<exists>m\<ge>k. lognum_loop n (2 ^ k) (int k) = Some (int m) \<and> n \<le> 2 ^ m \<and> (2 ^ m < 2 * n \<or> m = 0)"
proof (induction "nat (n - 2 ^ k)" arbitrary: k rule: less_induct)
  case less
  show ?case
  proof (cases "2 ^ k < n")
    case False
    then show ?thesis using less.prems by (intro exI [of _ k]) (simp add: lognum_loop.simps)
  next
    case True
    then have "(2::int) ^ k < 2 ^ 30" using assms by linarith
    then have "k < 30" by (rule power_less_imp_less_exp [rotated]) simp
    then have "(2::int) ^ Suc k \<le> 2 ^ 30" by (intro power_increasing) simp_all
    then have s: "s32 (2 ^ k * 2) = 2 ^ Suc k"
      by (subst s32_id) (simp_all add: order_trans [OF _ zero_le_power])
    have "nat (n - 2 ^ Suc k) < nat (n - 2 ^ k)" using True by simp
    from less.hyps [OF this] True
    obtain m where m: "Suc k \<le> m" "lognum_loop n (2 ^ Suc k) (int (Suc k)) = Some (int m)"
      "n \<le> 2 ^ m" "2 ^ m < 2 * n \<or> m = 0" by auto
    have "lognum_loop n (2 ^ k) (int k) = Some (int m)"
      using True m(2) by (subst lognum_loop.simps) (simp add: s add.commute)
    then show ?thesis using m(1,3,4) by (intro exI [of _ m]) simp
  qed
qed

lemma bit_length_Suc: "0 < n \<Longrightarrow> bit_length n = Suc (bit_length (n div 2))"
  by (simp add: bit_length.simps [of n])

lemma bit_length_0 [simp]: "bit_length 0 = 0"
  by (simp add: bit_length.simps [of 0])

lemma bit_length_bounds: "0 < n \<Longrightarrow> 2 ^ (bit_length n - 1) \<le> n \<and> n < 2 ^ bit_length n"
proof (induction n rule: bit_length.induct)
  case (1 n)
  define q where "q = n div 2"
  have bl: "bit_length n = Suc (bit_length q)"
    unfolding q_def by (rule bit_length_Suc [OF "1.prems"])
  have q: "2 * q \<le> n" "n < 2 * q + 2" by (simp_all add: q_def)
  show ?case
  proof (cases "q = 0")
    case True
    then show ?thesis using "1.prems" q by (simp add: bl)
  next
    case False
    then have m: "bit_length q = Suc (bit_length (q div 2))" by (intro bit_length_Suc) simp
    have "2 ^ (bit_length q - 1) \<le> q \<and> q < 2 ^ bit_length q"
      using "1.IH" "1.prems" False q_def by simp
    then have "2 * 2 ^ bit_length (q div 2) \<le> 2 * q" and "2 * q + 2 \<le> 2 * 2 ^ bit_length q"
      by (simp_all add: m)
    then show ?thesis using q by (simp add: bl m)
  qed
qed

lemma bit_length_unique:
  assumes "2 ^ k \<le> n" and "n < 2 ^ Suc k"
  shows "bit_length n = Suc k"
proof -
  have "0 < n" using assms(1) by (cases "n = 0") simp_all
  note b = bit_length_bounds [OF this]
  have "(2::nat) ^ (bit_length n - 1) < 2 ^ Suc k" using b assms(2) by linarith
  then have "bit_length n - 1 < Suc k" by (rule power_less_imp_less_exp [rotated]) simp
  moreover have "(2::nat) ^ k < 2 ^ bit_length n" using b assms(1) by linarith
  then have "k < bit_length n" by (rule power_less_imp_less_exp [rotated]) simp
  ultimately show ?thesis by simp
qed

lemma and_pred_eq_0: "0 < n \<Longrightarrow> (n AND (n - 1) = 0) = (2 ^ (bit_length n - 1) = n)" for n :: nat
proof (induction n rule: bit_length.induct)
  case (1 n)
  note unf = bit_length_Suc [OF "1.prems"]
  show ?case
  proof (cases "odd n")
    case True
    then obtain m where n: "n = 2 * m + 1" by (elim oddE)
    have "n AND (n - 1) = 2 * m"
      unfolding n by (subst and_rec) simp
    moreover have bl: "bit_length n = Suc (bit_length m)" using unf n by simp
    have "(2 ^ (bit_length n - 1) = n) = (m = 0)"
    proof (cases "m = 0")
      case False
      then have "bit_length m = Suc (bit_length (m div 2))" by (simp add: bit_length_Suc)
      then have "2 ^ (bit_length n - 1) = (2 * 2 ^ bit_length (m div 2) :: nat)" by (simp add: bl)
      moreover have "2 * 2 ^ bit_length (m div 2) \<noteq> n" unfolding n by presburger
      ultimately show ?thesis using False by simp
    qed (simp add: bl, simp add: n)
    ultimately show ?thesis by simp
  next
    case False
    then obtain m where n: "n = 2 * m" by (auto elim: evenE)
    with "1.prems" have m: "0 < m" by simp
    have "(n - 1) div 2 = m - 1" using n m by simp
    then have "n AND (n - 1) = 2 * (m AND (m - 1))"
      using n by (subst and_rec) simp
    moreover have "(m AND (m - 1) = 0) = (2 ^ (bit_length m - 1) = m)"
      using "1.IH" "1.prems" n m by simp
    moreover have bl: "bit_length n = Suc (bit_length m)" using unf n by simp
    have "(2 ^ (bit_length n - 1) = n) = (2 ^ (bit_length m - 1) = m)"
      unfolding bl unfolding bit_length_Suc [OF m] by (simp add: n)
    ultimately show ?thesis by simp
  qed
qed

lemma ucc_ilog2_ceil_correct:
  assumes "0 < n" and "n < 2 ^ 32"
  shows "n \<le> 2 ^ ucc_ilog2_ceil n" and "ucc_ilog2_ceil n = 0 \<or> 2 ^ (ucc_ilog2_ceil n - 1) < n"
proof -
  define j where "j = bit_length (n div 2)"
  have bl: "bit_length n = Suc j" unfolding j_def by (rule bit_length_Suc [OF assms(1)])
  have b: "2 ^ j \<le> n" "n < 2 * 2 ^ j" using bit_length_bounds [OF assms(1)] by (simp_all add: bl)
  then have "(2::nat) ^ j < 2 ^ 32" using assms(2) by linarith
  then have "j < 32" by (rule power_less_imp_less_exp [rotated]) simp
  then have x: "31 - ucc_count_leading_zero_bits n = j"
    by (simp add: ucc_count_leading_zero_bits_def bl)
  have s: "sub32 n 1 = n - 1" using assms by (intro sub32_id) auto
  have eq: "ucc_ilog2_ceil n = (if 2 ^ j = n then j else Suc j)"
    using and_pred_eq_0 [OF assms(1)] s by (simp add: ucc_ilog2_ceil_def x Let_def bl)
  show "n \<le> 2 ^ ucc_ilog2_ceil n" using b by (simp add: eq)
  show "ucc_ilog2_ceil n = 0 \<or> 2 ^ (ucc_ilog2_ceil n - 1) < n"
    using b by (cases j) (auto simp: eq)
qed

lemma bfloat16_roundtrip: "float32tobfloat16 (bfloat16tofloat32 b) = b"
  by (rule bit_word_eqI)
    (simp add: float32tobfloat16_def bfloat16tofloat32_def bit_ucast_iff bit_drop_bit_eq
      bit_push_bit_iff)

subsection \<open>Sorting with removal of duplicates\<close>

definition small_int :: "int \<Rightarrow> bool" where
  "small_int x \<longleftrightarrow> - (2 ^ 30) \<le> x \<and> x < 2 ^ 30"

text \<open>The order \<open>qsort\<close> is asked for: ascending, or descending for the inverted comparison.\<close>

definition ord_le :: "bool \<Rightarrow> int \<Rightarrow> int \<Rightarrow> bool" where
  "ord_le inv_order a b = (if inv_order then b \<le> a else a \<le> b)"

lemma cmp_lt_small: "small_int a \<Longrightarrow> small_int b \<Longrightarrow> cmp_lt r a b = (\<not> ord_le r b a)"
  by (auto simp: cmp_lt_def small_int_def ord_le_def s32_id)

lemma set_qsort_insert [simp]: "set (qsort_insert r x xs) = insert x (set xs)"
  by (induction xs) auto

lemma mset_qsort_insert: "mset (qsort_insert r x xs) = add_mset x (mset xs)"
  by (induction xs) auto

lemma sorted_qsort_insert:
  assumes "\<forall>y\<in>insert x (set xs). small_int y" and "sorted_wrt (ord_le r) xs"
  shows "sorted_wrt (ord_le r) (qsort_insert r x xs)"
  using assms
proof (induction xs)
  case (Cons y ys)
  then show ?case
    by (auto simp: cmp_lt_small) (auto simp: ord_le_def split: if_splits)
qed simp

lemma mset_qsort_int: "mset (qsort_int r xs) = mset xs"
  by (induction xs) (simp_all add: qsort_int_def mset_qsort_insert)

lemma set_qsort_int [simp]: "set (qsort_int r xs) = set xs"
  by (metis mset_qsort_int set_mset_mset)

lemma sorted_qsort_int:
  assumes "\<forall>y\<in>set xs. small_int y"
  shows "sorted_wrt (ord_le r) (qsort_int r xs)"
  using assms
proof (induction xs)
  case (Cons x xs)
  have "qsort_int r (x # xs) = qsort_insert r x (qsort_int r xs)" by (simp add: qsort_int_def)
  with Cons show ?case by (simp add: sorted_qsort_insert)
qed (simp add: qsort_int_def)

lemma unique_loop_props:
  assumes "sorted_wrt (ord_le r) (rev kept @ result # xs)"
    and "sorted_wrt (\<lambda>a b. ord_le r a b \<and> a \<noteq> b) (rev (result # kept))"
  shows "sorted_wrt (\<lambda>a b. ord_le r a b \<and> a \<noteq> b) (unique_loop kept result xs)
    \<and> set (unique_loop kept result xs) = set kept \<union> {result} \<union> set xs"
  using assms
proof (induction xs arbitrary: kept result)
  case (Cons x xs)
  show ?case
  proof (cases "result = x")
    case True
    then show ?thesis using Cons by (auto simp: sorted_wrt_append)
  next
    case False
    have "sorted_wrt (ord_le r) (rev (result # kept) @ x # xs)" using Cons.prems(1) by simp
    moreover have "sorted_wrt (\<lambda>a b. ord_le r a b \<and> a \<noteq> b) (rev (x # result # kept))"
      using Cons.prems False
      by (auto simp: sorted_wrt_append ord_le_def split: if_splits)
    ultimately show ?thesis using Cons.IH False by auto
  qed
qed simp

lemma distinct_if_sorted_wrt_ord:
  "sorted_wrt (\<lambda>a b. ord_le r a b \<and> a \<noteq> b) xs \<Longrightarrow> distinct xs"
  by (induction xs) auto

lemma ucc_unique_props:
  assumes "sorted_wrt (ord_le r) xs" and "xs \<noteq> []"
  shows "sorted_wrt (\<lambda>a b. ord_le r a b \<and> a \<noteq> b) (snd (ucc_unique xs))"
    and "set (snd (ucc_unique xs)) = set xs"
    and "fst (ucc_unique xs) = length (snd (ucc_unique xs))"
proof -
  obtain y ys where xs: "xs = y # ys" using assms(2) by (cases xs) auto
  have "sorted_wrt (\<lambda>a b. ord_le r a b \<and> a \<noteq> b) (unique_loop [] y ys)
      \<and> set (unique_loop [] y ys) = set [] \<union> {y} \<union> set ys"
    by (rule unique_loop_props) (use assms xs in simp_all)
  then show "sorted_wrt (\<lambda>a b. ord_le r a b \<and> a \<noteq> b) (snd (ucc_unique xs))"
    and "set (snd (ucc_unique xs)) = set xs"
    by (simp_all add: xs Let_def)
  show "fst (ucc_unique xs) = length (snd (ucc_unique xs))" by (simp add: xs Let_def)
qed

lemma ucc_round_up_power2_eq:
  assumes "2 \<le> v" and "v \<le> 2 ^ 30"
  shows "ucc_round_up_power2 v = 2 ^ bit_length (nat (v - 1))"
    and "bit_length (nat (v - 1)) \<le> 30"
proof -
  define m where "m = nat (v - 1)"
  define j where "j = bit_length (m div 2)"
  have m: "0 < m" "int m = v - 1" using assms by (simp_all add: m_def)
  have bl: "bit_length m = Suc j" unfolding j_def by (rule bit_length_Suc [OF m(1)])
  have "(2::nat) ^ j \<le> m" using bit_length_bounds [OF m(1)] by (simp add: bl)
  moreover have "m < 2 ^ 30" using assms by (simp add: m_def nat_less_iff)
  ultimately have "(2::nat) ^ j < 2 ^ 30" by linarith
  then have j: "j < 30" by (rule power_less_imp_less_exp [rotated]) simp
  then have "(2::int) ^ Suc j \<le> 2 ^ 30" by (intro power_increasing) simp_all
  then have s: "s32 (2 ^ Suc j) = 2 ^ Suc j"
    by (subst s32_id) (simp_all add: order_trans [OF _ zero_le_power])
  have "u32_of_int (v - 1) = m" using assms by (simp add: u32_of_int_def m_def)
  then show "ucc_round_up_power2 v = 2 ^ bit_length (nat (v - 1))"
    using assms j s by (simp add: ucc_round_up_power2_def ucc_count_leading_zero_bits_def bl
        flip: m_def)
  show "bit_length (nat (v - 1)) \<le> 30" using j by (simp add: bl flip: m_def)
qed

section \<open>Properties\<close>

text \<open>
  \<open>calc_valuation\<close> returns, and its value is the exponent of the greatest power of
  \<open>p\<close> that divides \<open>n\<close>, for every positive 32-bit \<open>n\<close> and every \<open>p\<close> of at least 2.
\<close>

theorem calc_valuation_correct:
  assumes "0 < n" and "n < 2 ^ 32" and "2 \<le> p"
  shows "\<exists>v. calc_valuation n p = Some v \<and> p ^ v dvd n \<and> \<not> p ^ Suc v dvd n"
  using calc_valuation_loop_correct [OF assms(3,1), of 0] assms(2)
  by (simp add: calc_valuation_def)

theorem calc_valuation_correct_witness:
  "calc_valuation 24 2 = Some 3 \<and> (2::nat) ^ 3 dvd 24 \<and> \<not> (2::nat) ^ Suc 3 dvd 24"
proof -
  have "calc_valuation 24 2 = Some 3"
    by (simp add: calc_valuation_def calc_valuation_loop.simps u32_def)
  moreover from calc_valuation_correct [of 24 2] this
  have "(2::nat) ^ 3 dvd 24 \<and> \<not> (2::nat) ^ Suc 3 dvd 24" by auto
  ultimately show ?thesis by blast
qed

text \<open>
  \<open>ucc_sort_uniq\<close> on a non-empty array whose differences fit the comparator's
  \<open>int\<close> result leaves exactly the distinct elements of the array, strictly ordered in the
  requested direction, and returns how many there are.
\<close>

theorem ucc_sort_uniq_correct:
  assumes "array \<noteq> []" and "\<forall>x\<in>set array. small_int x"
  shows "sorted_wrt (\<lambda>a b. ord_le r a b \<and> a \<noteq> b) (snd (ucc_sort_uniq array r))
    \<and> set (snd (ucc_sort_uniq array r)) = set array
    \<and> fst (ucc_sort_uniq array r) = card (set array)"
proof -
  let ?q = "qsort_int r array"
  have ne: "?q \<noteq> []" using assms(1) by (metis set_empty set_qsort_int)
  note props = ucc_unique_props [OF sorted_qsort_int [OF assms(2)] ne]
  have "distinct (snd (ucc_unique ?q))"
    using props(1) by (rule distinct_if_sorted_wrt_ord)
  then show ?thesis
    using props by (simp add: ucc_sort_uniq_def distinct_card [symmetric])
qed

theorem ucc_sort_uniq_correct_witness:
  "sorted_wrt (\<lambda>a b. ord_le False a b \<and> a \<noteq> b) (snd (ucc_sort_uniq [3, 1, 3, 2] False))
    \<and> fst (ucc_sort_uniq [3, 1, 3, 2] False) = card {3 :: int, 1, 3, 2}"
  using ucc_sort_uniq_correct [of "[3, 1, 3, 2]" False] by (simp add: small_int_def)

end
