(* ===== verification/Buffer_Blocks.thy ===== *)
theory Buffer_Blocks
  imports Ucc_Math
begin

text \<open>
  The block partitioning helpers of \<open>src/utils/ucc_coll_utils.h\<close>: how a buffer of
  \<open>total_count\<close> elements is cut into \<open>n_blocks\<close> blocks, evenly
  (\<open>ucc_buffer_block_count\<close> / \<open>ucc_buffer_block_offset\<close>), by a vector of counts
  (\<open>ucc_buffer_vector_block_offset\<close>) or with blocks of an aligned size
  (\<open>ucc_buffer_block_count_aligned\<close> / \<open>..._offset_aligned\<close>). The locale
  \<open>block_partition\<close> is the contract the algorithms rely on; it is interpreted on all three.
\<close>

section \<open>The routines\<close>

definition ucc_buffer_block_count :: "nat \<Rightarrow> nat \<Rightarrow> nat \<Rightarrow> nat" where
  "ucc_buffer_block_count total_count n_blocks block =
     (let block_count = total_count div n_blocks;
          left = total_count mod n_blocks
      in if block < left then u64 (block_count + 1) else block_count)"

definition ucc_buffer_block_offset :: "nat \<Rightarrow> nat \<Rightarrow> nat \<Rightarrow> nat" where
  "ucc_buffer_block_offset total_count n_blocks block =
     (let block_count = total_count div n_blocks;
          left = total_count mod n_blocks;
          offset = u64 (u64 (block * block_count) + left)
      in if block < left then sub64 offset (sub64 left block) else offset)"

text \<open>
  The counts array holds \<open>uint64_t\<close> or \<open>uint32_t\<close> entries, by \<open>is64\<close>; an entry is
  read at that width. Reading past the end of the array is undefined in C and \<open>None\<close> here.
\<close>

definition count_elem :: "bool \<Rightarrow> nat list \<Rightarrow> nat \<Rightarrow> nat option" where
  "count_elem is64 counts i =
     (if i < length counts then Some (if is64 then u64 (counts ! i) else u32 (counts ! i)) else None)"

fun vector_offset_loop :: "bool \<Rightarrow> nat list \<Rightarrow> nat \<Rightarrow> nat \<Rightarrow> nat \<Rightarrow> nat option" where
  "vector_offset_loop is64 counts i 0 offset = Some offset"
| "vector_offset_loop is64 counts i (Suc n) offset =
     (case count_elem is64 counts i of
        None \<Rightarrow> None
      | Some c \<Rightarrow> vector_offset_loop is64 counts (Suc i) n (u64 (offset + c)))"

definition ucc_buffer_vector_block_offset :: "nat list \<Rightarrow> bool \<Rightarrow> nat \<Rightarrow> nat option" where
  "ucc_buffer_vector_block_offset counts is64 rank = vector_offset_loop is64 counts 0 rank 0"

definition ucc_buffer_block_count_aligned ::
    "64 word \<Rightarrow> 64 word \<Rightarrow> 64 word \<Rightarrow> 64 word \<Rightarrow> 64 word" where
  "ucc_buffer_block_count_aligned total_count n_blocks block alignment =
     (let block_count = ucc_align_up_pow2 (max (total_count div n_blocks) 1) alignment;
          offset = block_count * block
      in if total_count < offset then 0 else min (total_count - offset) block_count)"

definition ucc_buffer_block_offset_aligned ::
    "64 word \<Rightarrow> 64 word \<Rightarrow> 64 word \<Rightarrow> 64 word \<Rightarrow> 64 word" where
  "ucc_buffer_block_offset_aligned total_count n_blocks block alignment =
     (let block_count = ucc_align_up_pow2 (max (total_count div n_blocks) 1) alignment;
          offset = block_count * block
      in min offset total_count)"

section \<open>The contract of a block partition\<close>

text \<open>
  \<open>valid t n\<close> says which totals and block numbers the provider accepts, \<open>cnt t n b\<close> is the
  size of block \<open>b\<close> and \<open>off t n b\<close> its start. Blocks are consecutive, the first starts at 0
  and the end of the last is the total.
\<close>

locale block_partition =
  fixes valid :: "'p \<Rightarrow> nat \<Rightarrow> bool"
    and total :: "'p \<Rightarrow> nat \<Rightarrow> nat"
    and cnt :: "'p \<Rightarrow> nat \<Rightarrow> nat \<Rightarrow> nat"
    and off :: "'p \<Rightarrow> nat \<Rightarrow> nat \<Rightarrow> nat"
  assumes off_0: "valid p n \<Longrightarrow> off p n 0 = 0"
    and off_Suc: "valid p n \<Longrightarrow> b < n \<Longrightarrow> off p n (Suc b) = off p n b + cnt p n b"
    and off_n: "valid p n \<Longrightarrow> off p n n = total p n"
begin

lemma off_eq_sum: "valid p n \<Longrightarrow> b \<le> n \<Longrightarrow> off p n b = (\<Sum>i<b. cnt p n i)"
  by (induction b) (simp_all add: off_0 off_Suc)

lemma sum_cnt: "valid p n \<Longrightarrow> (\<Sum>i<n. cnt p n i) = total p n"
  using off_eq_sum [of p n n] off_n [of p n] by simp

lemma off_mono: "valid p n \<Longrightarrow> a \<le> b \<Longrightarrow> b \<le> n \<Longrightarrow> off p n a \<le> off p n b"
  by (simp add: off_eq_sum sum_mono2)

lemma off_end_le: "valid p n \<Longrightarrow> a < b \<Longrightarrow> b \<le> n \<Longrightarrow> off p n a + cnt p n a \<le> off p n b"
  using off_mono [of p n "Suc a" b] off_Suc [of p n a] by simp

lemma block_in_total: "valid p n \<Longrightarrow> b < n \<Longrightarrow> off p n b + cnt p n b \<le> total p n"
  using off_end_le [of p n b n] off_n [of p n] by simp

lemma disjoint:
  assumes "valid p n" "a < b" "b < n"
  shows "{off p n a..<off p n a + cnt p n a} \<inter> {off p n b..<off p n b + cnt p n b} = {}"
  using off_end_le [of p n a b] assms by auto

lemma covered:
  assumes "valid p n" and "e < total p n"
  shows "\<exists>b<n. off p n b \<le> e \<and> e < off p n b + cnt p n b"
proof -
  have "e < off p n n" using assms off_n by simp
  define b where "b = (LEAST k. e < off p n k)"
  have e: "e < off p n b" unfolding b_def by (rule LeastI) fact
  have b: "b \<le> n" unfolding b_def by (rule Least_le) fact
  obtain k where k: "b = Suc k" using e assms(1) off_0 by (cases b) auto
  then have "\<not> e < off p n k" unfolding b_def by (metis lessI not_less_Least)
  then show ?thesis using e b k assms(1) off_Suc by (intro exI [of _ k]) auto
qed

lemma unique_block:
  assumes "valid p n" "a < n" "b < n"
    and "off p n a \<le> e" "e < off p n a + cnt p n a"
    and "off p n b \<le> e" "e < off p n b + cnt p n b"
  shows "a = b"
  using off_end_le [of p n a b] off_end_le [of p n b a] assms by (meson le_less_trans leD
      less_imp_le linorder_neqE_nat)

end

section \<open>The even partition\<close>

lemma even_partition_arith:
  fixes t n b :: nat
  assumes "b \<le> n" and "0 < n"
  shows "b * (t div n) + t mod n \<le> t"
proof -
  have "b * (t div n) \<le> n * (t div n)" using assms by simp
  then show ?thesis by (metis add_le_mono1 mult_div_mod_eq)
qed

lemma ucc_buffer_block_count_nat:
  assumes "t < 2 ^ 64" and "0 < n"
  shows "ucc_buffer_block_count t n b = t div n + (if b < t mod n then 1 else 0)"
proof -
  have "t div n + 1 < 2 ^ 64" if "b < t mod n"
  proof -
    have "t div n * n \<le> t" by simp
    moreover have "t mod n \<noteq> 0" using that by simp
    then have "t div n < t"
      using assms(2) by (metis One_nat_def div_less_dividend div_by_1 mod_by_Suc_0 nat_neq_iff
          less_one mod_0 bot_nat_0.not_eq_extremum)
    ultimately show ?thesis using assms(1) by linarith
  qed
  then show ?thesis by (simp add: ucc_buffer_block_count_def Let_def u64_id)
qed

lemma ucc_buffer_block_offset_nat:
  assumes "t < 2 ^ 64" and "0 < n" and "b \<le> n"
  shows "ucc_buffer_block_offset t n b = b * (t div n) + min b (t mod n)"
proof -
  have le: "b * (t div n) + t mod n \<le> t" by (rule even_partition_arith [OF assms(3,2)])
  have o: "u64 (u64 (b * (t div n)) + t mod n) = b * (t div n) + t mod n"
    using le assms(1) by (simp add: u64_id)
  show ?thesis
  proof (cases "b < t mod n")
    case True
    have "sub64 (t mod n) b = t mod n - b"
      using True le assms(1) by (intro sub64_id) simp_all
    moreover have "sub64 (b * (t div n) + t mod n) (t mod n - b) = b * (t div n) + b"
      using True le assms(1) by (subst sub64_id) simp_all
    ultimately show ?thesis using True by (simp add: ucc_buffer_block_offset_def Let_def o)
  next
    case False
    then show ?thesis by (simp add: ucc_buffer_block_offset_def Let_def o)
  qed
qed

interpretation even_blocks: block_partition
  "\<lambda>t n. t < 2 ^ 64 \<and> 0 < n" "\<lambda>t n. t" ucc_buffer_block_count ucc_buffer_block_offset
proof unfold_locales
  fix t n :: nat
  assume v: "t < 2 ^ 64 \<and> 0 < n"
  show "ucc_buffer_block_offset t n 0 = 0"
    using v by (subst ucc_buffer_block_offset_nat) auto
  show "ucc_buffer_block_offset t n n = t"
    using v by (subst ucc_buffer_block_offset_nat) (auto simp: min_absorb2)
  fix b
  assume "b < n"
  then show "ucc_buffer_block_offset t n (Suc b) =
      ucc_buffer_block_offset t n b + ucc_buffer_block_count t n b"
    using v by (auto simp: ucc_buffer_block_offset_nat ucc_buffer_block_count_nat)
qed

section \<open>The partition by a vector of counts\<close>

text \<open>The value an entry of the counts array stands for, and the sum of the first \<open>b\<close> entries.\<close>

definition elem_val :: "bool \<Rightarrow> nat list \<Rightarrow> nat \<Rightarrow> nat" where
  "elem_val is64 counts i = (if is64 then u64 (counts ! i) else u32 (counts ! i))"

lemma vector_offset_loop_sum:
  assumes "i + n \<le> length counts"
    and "offset + (\<Sum>j<n. elem_val is64 counts (i + j)) < 2 ^ 64"
  shows "vector_offset_loop is64 counts i n offset
    = Some (offset + (\<Sum>j<n. elem_val is64 counts (i + j)))"
  using assms
proof (induction n arbitrary: i offset)
  case (Suc n)
  have split: "(\<Sum>j<Suc n. elem_val is64 counts (i + j))
      = elem_val is64 counts i + (\<Sum>j<n. elem_val is64 counts (Suc i + j))"
    by (subst sum.lessThan_Suc_shift) simp
  have c: "count_elem is64 counts i = Some (elem_val is64 counts i)"
    using Suc.prems(1) by (simp add: count_elem_def elem_val_def)
  have u: "u64 (offset + elem_val is64 counts i) = offset + elem_val is64 counts i"
    using Suc.prems(2) split by (intro u64_id) linarith
  have "vector_offset_loop is64 counts (Suc i) n (offset + elem_val is64 counts i)
      = Some (offset + elem_val is64 counts i + (\<Sum>j<n. elem_val is64 counts (Suc i + j)))"
    by (rule Suc.IH) (use Suc.prems split in linarith)+
  then show ?case by (simp only: vector_offset_loop.simps c option.simps u split add.assoc)
qed simp

lemma ucc_buffer_vector_block_offset_sum:
  assumes "b \<le> length counts" and "(\<Sum>j<length counts. elem_val is64 counts j) < 2 ^ 64"
  shows "ucc_buffer_vector_block_offset counts is64 b = Some (\<Sum>j<b. elem_val is64 counts j)"
proof -
  have "(\<Sum>j<b. elem_val is64 counts j) \<le> (\<Sum>j<length counts. elem_val is64 counts j)"
    using assms(1) by (intro sum_mono2) auto
  then show ?thesis
    using vector_offset_loop_sum [of 0 b counts 0 is64] assms
    by (simp add: ucc_buffer_vector_block_offset_def)
qed

interpretation vector_blocks: block_partition
  "\<lambda>(counts, is64) n. n = length counts \<and> (\<Sum>j<n. elem_val is64 counts j) < 2 ^ 64"
  "\<lambda>(counts, is64) n. \<Sum>j<n. elem_val is64 counts j"
  "\<lambda>(counts, is64) n b. elem_val is64 counts b"
  "\<lambda>(counts, is64) n b. the (ucc_buffer_vector_block_offset counts is64 b)"
  by unfold_locales (auto simp: ucc_buffer_vector_block_offset_sum)

section \<open>The aligned partition\<close>

text \<open>The aligned block size over the natural numbers.\<close>

definition aligned_size :: "nat \<Rightarrow> nat \<Rightarrow> nat \<Rightarrow> nat" where
  "aligned_size t n k = (max (t div n) 1 + (2 ^ k - 1)) div 2 ^ k * 2 ^ k"

definition aligned_valid :: "nat \<times> nat \<Rightarrow> nat \<Rightarrow> bool" where
  "aligned_valid p n \<longleftrightarrow> (case p of (t, k) \<Rightarrow>
     t < 2 ^ 64 \<and> 0 < n \<and> n < 2 ^ 64 \<and> k < 64
     \<and> max (t div n) 1 + 2 ^ k \<le> 2 ^ 64 \<and> aligned_size t n k * n < 2 ^ 64)"

lemma unat_align_up_pow2:
  assumes "k < 64" and "unat x + 2 ^ k \<le> 2 ^ 64"
  shows "unat (ucc_align_up_pow2 x (2 ^ k)) = (unat x + (2 ^ k - 1)) div 2 ^ k * 2 ^ k"
proof -
  have e: "x + 2 ^ k - 1 = x + (2 ^ k - 1)" by simp
  have one: "unat ((2::64 word) ^ k - 1) = 2 ^ k - 1"
    using assms(1) by (subst unat_sub) (simp_all add: unat_pow2_64 word_le_nat_alt)
  have "unat (x + (2 ^ k - 1)) = unat x + (2 ^ k - 1)"
    using assms(2) one by (subst unat_add_lem [THEN iffD1]) simp_all
  then show ?thesis
    unfolding ucc_align_up_pow2_def e unat_align_down_pow2 [OF assms(1)] by simp
qed

lemma aligned_block_size_word:
  assumes "aligned_valid (t, k) n"
  shows "unat (ucc_align_up_pow2 (max (of_nat t div of_nat n) 1) (2 ^ k)) = aligned_size t n k"
proof -
  have "unat (max (of_nat t div of_nat n) (1 :: 64 word)) = max (t div n) 1"
    using assms
    by (auto simp: aligned_valid_def max_def word_le_nat_alt unat_div unat_of_nat64)
  then show ?thesis
    using assms by (subst unat_align_up_pow2) (auto simp: aligned_valid_def aligned_size_def)
qed

lemma unat_block_times:
  assumes "aligned_valid (t, k) n" and "b \<le> n"
  shows "unat (ucc_align_up_pow2 (max (of_nat t div of_nat n) 1) (2 ^ k) * of_nat b)
    = aligned_size t n k * b"
proof -
  have lt: "b < 2 ^ 64" using assms by (auto simp: aligned_valid_def)
  have "aligned_size t n k * b \<le> aligned_size t n k * n" using assms(2) by simp
  also have "\<dots> < 2 ^ 64" using assms(1) by (simp add: aligned_valid_def)
  finally show ?thesis
    using lt aligned_block_size_word [OF assms(1)]
    by (subst unat_mult_lem [THEN iffD1]) (simp_all add: unat_of_nat64)
qed

lemma aligned_offset_nat:
  assumes "aligned_valid (t, k) n" and "b \<le> n"
  shows "unat (ucc_buffer_block_offset_aligned (of_nat t) (of_nat n) (of_nat b) (2 ^ k))
    = min (aligned_size t n k * b) t"
proof -
  have "t < 2 ^ 64" using assms(1) by (simp add: aligned_valid_def)
  then show ?thesis
    using unat_block_times [OF assms]
    by (simp add: ucc_buffer_block_offset_aligned_def Let_def min_def word_le_nat_alt
        unat_of_nat64)
qed

lemma aligned_count_nat:
  assumes "aligned_valid (t, k) n" and "b \<le> n"
  shows "unat (ucc_buffer_block_count_aligned (of_nat t) (of_nat n) (of_nat b) (2 ^ k))
    = min (t - aligned_size t n k * b) (aligned_size t n k)"
proof -
  let ?bc = "ucc_align_up_pow2 (max (of_nat t div of_nat n) 1) (2 ^ k) :: 64 word"
  let ?o = "?bc * of_nat b"
  have t: "unat (of_nat t :: 64 word) = t" using assms(1) by (simp add: aligned_valid_def unat_of_nat64)
  note o = unat_block_times [OF assms] and bc = aligned_block_size_word [OF assms(1)]
  show ?thesis
  proof (cases "(of_nat t :: 64 word) < ?o")
    case True
    then have "t < aligned_size t n k * b" by (simp only: word_less_nat_alt o t)
    then show ?thesis using True by (simp add: ucc_buffer_block_count_aligned_def)
  next
    case False
    then have "unat (of_nat t - ?o) = t - aligned_size t n k * b"
      by (subst unat_sub) (simp_all add: o t)
    then show ?thesis using False
      by (simp add: ucc_buffer_block_count_aligned_def Let_def min_def word_le_nat_alt bc)
  qed
qed

text \<open>
  The aligned blocks tile the first \<open>n * aligned_size\<close> elements only: the block size is the
  rounded-down quotient before it is aligned.
\<close>

lemma aligned_offset_0:
  "aligned_valid (t, k) n \<Longrightarrow> unat (ucc_buffer_block_offset_aligned (of_nat t) (of_nat n) 0 (2 ^ k)) = 0"
  using aligned_offset_nat [of t k n 0] by simp

interpretation aligned_blocks: block_partition
  aligned_valid
  "\<lambda>(t, k) n. min (aligned_size t n k * n) t"
  "\<lambda>(t, k) n b. unat (ucc_buffer_block_count_aligned (of_nat t) (of_nat n) (of_nat b) (2 ^ k))"
  "\<lambda>(t, k) n b. unat (ucc_buffer_block_offset_aligned (of_nat t) (of_nat n) (of_nat b) (2 ^ k))"
  by unfold_locales
    (auto simp: aligned_offset_0 aligned_offset_nat aligned_count_nat min_def simp del: of_nat_Suc of_nat_0)

section \<open>Properties\<close>

text \<open>
  C15: for every buffer size and every positive number of blocks, each element of the buffer lies
  in exactly one block, no block leaves the buffer, and block sizes differ by at most one.
\<close>

theorem even_blocks_tile:
  assumes "t < 2 ^ 64" and "0 < n"
  shows "(\<forall>e<t. \<exists>!b. b < n \<and> ucc_buffer_block_offset t n b \<le> e
        \<and> e < ucc_buffer_block_offset t n b + ucc_buffer_block_count t n b)
    \<and> (\<forall>b<n. ucc_buffer_block_offset t n b + ucc_buffer_block_count t n b \<le> t)
    \<and> (\<forall>a<n. \<forall>b<n. ucc_buffer_block_count t n a \<le> ucc_buffer_block_count t n b + 1)"
proof (intro conjI allI impI)
  have v: "t < 2 ^ 64 \<and> 0 < n" using assms by simp
  fix e assume "e < t"
  then show "\<exists>!b. b < n \<and> ucc_buffer_block_offset t n b \<le> e
        \<and> e < ucc_buffer_block_offset t n b + ucc_buffer_block_count t n b"
    using even_blocks.covered [OF v] even_blocks.unique_block [OF v] by metis
next
  fix b assume "b < n"
  then show "ucc_buffer_block_offset t n b + ucc_buffer_block_count t n b \<le> t"
    using assms by (intro even_blocks.block_in_total) simp_all
next
  fix a b assume "a < n" "b < n"
  show "ucc_buffer_block_count t n a \<le> ucc_buffer_block_count t n b + 1"
    using assms by (simp add: ucc_buffer_block_count_nat)
qed

theorem even_blocks_tile_witness:
  "(\<exists>!b. b < 3 \<and> ucc_buffer_block_offset 10 3 b \<le> 6
      \<and> 6 < ucc_buffer_block_offset 10 3 b + ucc_buffer_block_count 10 3 b)
    \<and> ucc_buffer_block_offset 10 3 2 + ucc_buffer_block_count 10 3 2 \<le> 10"
  using even_blocks_tile [of 10 3] by simp

text \<open>
  C16: the aligned blocks cover the buffer exactly when the number of blocks times the aligned
  block size reaches the total; otherwise every element past that product is in no block.
\<close>

theorem aligned_blocks_cover_iff:
  assumes "aligned_valid (t, k) n"
  shows "(\<Sum>b<n. unat (ucc_buffer_block_count_aligned (of_nat t) (of_nat n) (of_nat b) (2 ^ k))) = t
    \<longleftrightarrow> t \<le> aligned_size t n k * n"
proof -
  have "(\<Sum>b<n. unat (ucc_buffer_block_count_aligned (of_nat t) (of_nat n) (of_nat b) (2 ^ k)))
      = min (aligned_size t n k * n) t"
    using aligned_blocks.sum_cnt [OF assms] by simp
  then show ?thesis by (auto simp: min_def)
qed

theorem aligned_blocks_cover_iff_witness:
  "(\<Sum>b<2. unat (ucc_buffer_block_count_aligned (of_nat 129) (of_nat 2) (of_nat b) (2 ^ 6))) \<noteq> 129"
  using aligned_blocks_cover_iff [of 129 6 2]
  by (simp add: aligned_valid_def aligned_size_def)

end
