(* ===== verification/Coll_Types.thy ===== *)
theory Coll_Types
  imports Buffer_Blocks
begin

text \<open>
  The vocabulary of a collective call: collective types, memory types and datatypes of
  \<open>src/ucc/api/ucc.h\<close> and \<open>src/core/ucc_dt.h\<close>, the argument structure
  \<open>ucc_coll_args_t\<close>, and the routines of \<open>src/utils/ucc_coll_utils.h\<close> and
  \<open>ucc_coll_utils.c\<close> that read it: counts and displacements at their width, message size,
  memory type, symmetry, and the replacement of an asymmetric buffer at the root.
\<close>

section \<open>Enumerations\<close>

datatype ucc_coll_type =
    UCC_COLL_TYPE_ALLGATHER
  | UCC_COLL_TYPE_ALLGATHERV
  | UCC_COLL_TYPE_ALLREDUCE
  | UCC_COLL_TYPE_ALLTOALL
  | UCC_COLL_TYPE_ALLTOALLV
  | UCC_COLL_TYPE_BARRIER
  | UCC_COLL_TYPE_BCAST
  | UCC_COLL_TYPE_FANIN
  | UCC_COLL_TYPE_FANOUT
  | UCC_COLL_TYPE_GATHER
  | UCC_COLL_TYPE_GATHERV
  | UCC_COLL_TYPE_REDUCE
  | UCC_COLL_TYPE_REDUCE_SCATTER
  | UCC_COLL_TYPE_REDUCE_SCATTERV
  | UCC_COLL_TYPE_SCATTER
  | UCC_COLL_TYPE_SCATTERV
  | UCC_COLL_TYPE_LAST

text \<open>
  The enumerators are the bits \<open>UCC_BIT(0)\<close> to \<open>UCC_BIT(15)\<close>, in this order; the code
  indexes tables by \<open>ucc_ilog2\<close> of the enumerator, which is the list index here. The loops
  over all collectives are loops over \<open>coll_types\<close>.
\<close>

definition coll_types :: "ucc_coll_type list" where
  "coll_types =
     [UCC_COLL_TYPE_ALLGATHER, UCC_COLL_TYPE_ALLGATHERV, UCC_COLL_TYPE_ALLREDUCE,
      UCC_COLL_TYPE_ALLTOALL, UCC_COLL_TYPE_ALLTOALLV, UCC_COLL_TYPE_BARRIER,
      UCC_COLL_TYPE_BCAST, UCC_COLL_TYPE_FANIN, UCC_COLL_TYPE_FANOUT, UCC_COLL_TYPE_GATHER,
      UCC_COLL_TYPE_GATHERV, UCC_COLL_TYPE_REDUCE, UCC_COLL_TYPE_REDUCE_SCATTER,
      UCC_COLL_TYPE_REDUCE_SCATTERV, UCC_COLL_TYPE_SCATTER, UCC_COLL_TYPE_SCATTERV]"

datatype ucc_memory_type =
    UCC_MEMORY_TYPE_HOST
  | UCC_MEMORY_TYPE_CUDA
  | UCC_MEMORY_TYPE_CUDA_MANAGED
  | UCC_MEMORY_TYPE_ROCM
  | UCC_MEMORY_TYPE_ROCM_MANAGED
  | UCC_MEMORY_TYPE_LAST
  | UCC_MEMORY_TYPE_ASYMMETRIC
  | UCC_MEMORY_TYPE_NOT_APPLY

text \<open>\<open>UCC_MEMORY_TYPE_UNKNOWN\<close> is the enumerator \<open>UCC_MEMORY_TYPE_LAST\<close>.\<close>

definition UCC_MEMORY_TYPE_UNKNOWN :: ucc_memory_type where
  "UCC_MEMORY_TYPE_UNKNOWN = UCC_MEMORY_TYPE_LAST"

definition mem_types :: "ucc_memory_type list" where
  "mem_types =
     [UCC_MEMORY_TYPE_HOST, UCC_MEMORY_TYPE_CUDA, UCC_MEMORY_TYPE_CUDA_MANAGED,
      UCC_MEMORY_TYPE_ROCM, UCC_MEMORY_TYPE_ROCM_MANAGED]"

fun coll_type_index :: "ucc_coll_type \<Rightarrow> nat" where
  "coll_type_index UCC_COLL_TYPE_ALLGATHER = 0"
| "coll_type_index UCC_COLL_TYPE_ALLGATHERV = 1"
| "coll_type_index UCC_COLL_TYPE_ALLREDUCE = 2"
| "coll_type_index UCC_COLL_TYPE_ALLTOALL = 3"
| "coll_type_index UCC_COLL_TYPE_ALLTOALLV = 4"
| "coll_type_index UCC_COLL_TYPE_BARRIER = 5"
| "coll_type_index UCC_COLL_TYPE_BCAST = 6"
| "coll_type_index UCC_COLL_TYPE_FANIN = 7"
| "coll_type_index UCC_COLL_TYPE_FANOUT = 8"
| "coll_type_index UCC_COLL_TYPE_GATHER = 9"
| "coll_type_index UCC_COLL_TYPE_GATHERV = 10"
| "coll_type_index UCC_COLL_TYPE_REDUCE = 11"
| "coll_type_index UCC_COLL_TYPE_REDUCE_SCATTER = 12"
| "coll_type_index UCC_COLL_TYPE_REDUCE_SCATTERV = 13"
| "coll_type_index UCC_COLL_TYPE_SCATTER = 14"
| "coll_type_index UCC_COLL_TYPE_SCATTERV = 15"
| "coll_type_index UCC_COLL_TYPE_LAST = 16"

fun mem_type_index :: "ucc_memory_type \<Rightarrow> nat" where
  "mem_type_index UCC_MEMORY_TYPE_HOST = 0"
| "mem_type_index UCC_MEMORY_TYPE_CUDA = 1"
| "mem_type_index UCC_MEMORY_TYPE_CUDA_MANAGED = 2"
| "mem_type_index UCC_MEMORY_TYPE_ROCM = 3"
| "mem_type_index UCC_MEMORY_TYPE_ROCM_MANAGED = 4"
| "mem_type_index UCC_MEMORY_TYPE_LAST = 5"
| "mem_type_index UCC_MEMORY_TYPE_ASYMMETRIC = 6"
| "mem_type_index UCC_MEMORY_TYPE_NOT_APPLY = 7"

section \<open>Datatypes\<close>

text \<open>
  A predefined datatype carries its number; a generic one the fields of \<open>ucc_generic_dt_ops_t\<close>
  that the sizes depend on. The tag bits of the 64-bit handle are the constructor.
\<close>

datatype ucc_datatype =
    DT_PREDEFINED nat
  | DT_GENERIC (dt_mask_flags: bool) (dt_flag_contig: bool) (dt_flag_reduce: bool)
      (dt_contig_size: nat)

definition ucc_dt_predefined_sizes :: "nat list" where
  "ucc_dt_predefined_sizes =
     [1, 2, 4, 8, 16, 1, 2, 4, 8, 16, 2, 4, 8, 2, 16, 8, 16, 32]"

fun UCC_DT_IS_PREDEFINED :: "ucc_datatype \<Rightarrow> bool" where
  "UCC_DT_IS_PREDEFINED (DT_PREDEFINED _) = True"
| "UCC_DT_IS_PREDEFINED (DT_GENERIC _ _ _ _) = False"

fun UCC_DT_IS_CONTIG :: "ucc_datatype \<Rightarrow> bool" where
  "UCC_DT_IS_CONTIG (DT_PREDEFINED _) = False"
| "UCC_DT_IS_CONTIG (DT_GENERIC m c r s) = (m \<and> c)"

fun UCC_DT_HAS_REDUCE :: "ucc_datatype \<Rightarrow> bool" where
  "UCC_DT_HAS_REDUCE (DT_PREDEFINED _) = False"
| "UCC_DT_HAS_REDUCE (DT_GENERIC m c r s) = (m \<and> r)"

text \<open>
  \<open>ucc_dt_size\<close>: the size of a generic datatype that is not contiguous is never asked for; the
  source asserts so and returns \<open>SIZE_MAX\<close>. A predefined number past the table is a read out of
  bounds, which the constructors of the API exclude; it gets \<open>SIZE_MAX\<close> here as well.
\<close>

fun ucc_dt_size :: "ucc_datatype \<Rightarrow> nat" where
  "ucc_dt_size (DT_PREDEFINED i) =
     (if i < length ucc_dt_predefined_sizes then ucc_dt_predefined_sizes ! i else 2 ^ 64 - 1)"
| "ucc_dt_size (DT_GENERIC m c r s) =
     (if UCC_DT_IS_CONTIG (DT_GENERIC m c r s) then s else 2 ^ 64 - 1)"

section \<open>Arguments of a collective\<close>

text \<open>
  The two views of the \<open>src\<close> and \<open>dst\<close> unions are separate fields; every routine reads the
  view its collective type selects. Buffers are addresses, and the counts and displacement
  arrays the values their entries hold.
\<close>

record ucc_coll_buffer_info =
  buffer_addr :: nat
  buf_count :: nat
  datatype_of :: ucc_datatype
  mem_type :: ucc_memory_type

record ucc_coll_buffer_info_v =
  buffer_v :: nat
  counts_v :: "nat list"
  displacements_v :: "nat list"
  datatype_v :: ucc_datatype
  mem_type_v :: ucc_memory_type

record ucc_coll_buffer =
  info :: ucc_coll_buffer_info
  info_v :: ucc_coll_buffer_info_v

record ucc_active_set =
  as_start :: nat
  as_stride :: int
  as_size :: nat

record ucc_coll_args =
  args_mask :: nat
  coll_type :: ucc_coll_type
  args_src :: ucc_coll_buffer
  args_dst :: ucc_coll_buffer
  args_flags :: nat
  args_root :: nat
  active_set :: ucc_active_set

text \<open>\<open>x & UCC_BIT(k)\<close> as a test.\<close>

definition ucc_bit_set :: "nat \<Rightarrow> nat \<Rightarrow> bool" where
  "ucc_bit_set x k = odd (x div 2 ^ k)"

definition UCC_IS_INPLACE :: "ucc_coll_args \<Rightarrow> bool" where
  "UCC_IS_INPLACE args = (ucc_bit_set (args_mask args) 0 \<and> ucc_bit_set (args_flags args) 0)"

definition UCC_IS_PERSISTENT :: "ucc_coll_args \<Rightarrow> bool" where
  "UCC_IS_PERSISTENT args = (ucc_bit_set (args_mask args) 0 \<and> ucc_bit_set (args_flags args) 1)"

definition UCC_COLL_ARGS_COUNT64 :: "ucc_coll_args \<Rightarrow> bool" where
  "UCC_COLL_ARGS_COUNT64 args = (ucc_bit_set (args_mask args) 0 \<and> ucc_bit_set (args_flags args) 2)"

definition UCC_COLL_ARGS_DISPL64 :: "ucc_coll_args \<Rightarrow> bool" where
  "UCC_COLL_ARGS_DISPL64 args = (ucc_bit_set (args_mask args) 0 \<and> ucc_bit_set (args_flags args) 3)"

definition UCC_COLL_IS_SRC_CONTIG :: "ucc_coll_args \<Rightarrow> bool" where
  "UCC_COLL_IS_SRC_CONTIG args = (ucc_bit_set (args_mask args) 0 \<and> ucc_bit_set (args_flags args) 4)"

definition UCC_COLL_IS_DST_CONTIG :: "ucc_coll_args \<Rightarrow> bool" where
  "UCC_COLL_IS_DST_CONTIG args = (ucc_bit_set (args_mask args) 0 \<and> ucc_bit_set (args_flags args) 5)"

definition UCC_COLL_ARGS_ACTIVE_SET :: "ucc_coll_args \<Rightarrow> bool" where
  "UCC_COLL_ARGS_ACTIVE_SET args = ucc_bit_set (args_mask args) 4"

definition UCC_IS_ROOT :: "ucc_coll_args \<Rightarrow> ucc_rank \<Rightarrow> bool" where
  "UCC_IS_ROOT args myrank = (args_root args = myrank)"

definition UCC_MSG_SIZE_INVALID :: nat where
  "UCC_MSG_SIZE_INVALID = 2 ^ 64 - 1"

definition UCC_MSG_SIZE_ASYMMETRIC :: nat where
  "UCC_MSG_SIZE_ASYMMETRIC = UCC_MSG_SIZE_INVALID - 1"

definition ucc_coll_args_is_reduction :: "ucc_coll_type \<Rightarrow> bool" where
  "ucc_coll_args_is_reduction ct =
     (ct = UCC_COLL_TYPE_ALLREDUCE \<or> ct = UCC_COLL_TYPE_REDUCE \<or>
      ct = UCC_COLL_TYPE_REDUCE_SCATTER \<or> ct = UCC_COLL_TYPE_REDUCE_SCATTERV)"

definition ucc_coll_args_is_rooted :: "ucc_coll_type \<Rightarrow> bool" where
  "ucc_coll_args_is_rooted ct =
     (ct = UCC_COLL_TYPE_REDUCE \<or> ct = UCC_COLL_TYPE_BCAST \<or>
      ct = UCC_COLL_TYPE_GATHER \<or> ct = UCC_COLL_TYPE_SCATTER \<or>
      ct = UCC_COLL_TYPE_FANIN \<or> ct = UCC_COLL_TYPE_FANOUT \<or>
      ct = UCC_COLL_TYPE_GATHERV \<or> ct = UCC_COLL_TYPE_SCATTERV)"

section \<open>Counts and displacements\<close>

text \<open>\<open>None\<close> is a read or write outside the array the caller passed.\<close>

definition ucc_coll_args_get_count :: "ucc_coll_args \<Rightarrow> nat list \<Rightarrow> nat \<Rightarrow> nat option" where
  "ucc_coll_args_get_count args cs idx = count_elem (UCC_COLL_ARGS_COUNT64 args) cs idx"

definition ucc_coll_args_set_count ::
    "ucc_coll_args \<Rightarrow> nat list \<Rightarrow> nat \<Rightarrow> nat \<Rightarrow> nat list option" where
  "ucc_coll_args_set_count args cs idx val =
     (if idx < length cs
      then Some (cs[idx := (if UCC_COLL_ARGS_COUNT64 args then u64 val else u32 val)])
      else None)"

fun max_count_loop :: "ucc_coll_args \<Rightarrow> nat list \<Rightarrow> nat \<Rightarrow> nat \<Rightarrow> nat \<Rightarrow> nat option" where
  "max_count_loop args cs i 0 max_count = Some max_count"
| "max_count_loop args cs i (Suc n) max_count =
     (case ucc_coll_args_get_count args cs i of
        None \<Rightarrow> None
      | Some c \<Rightarrow> max_count_loop args cs (Suc i) n (if c > max_count then c else max_count))"

definition ucc_coll_args_get_max_count :: "ucc_coll_args \<Rightarrow> nat list \<Rightarrow> nat \<Rightarrow> nat option" where
  "ucc_coll_args_get_max_count args cs tsize = max_count_loop args cs 0 tsize 0"

definition ucc_coll_args_get_displacement :: "ucc_coll_args \<Rightarrow> nat list \<Rightarrow> nat \<Rightarrow> nat option" where
  "ucc_coll_args_get_displacement args ds idx = count_elem (UCC_COLL_ARGS_DISPL64 args) ds idx"

definition ucc_coll_args_set_displacement ::
    "ucc_coll_args \<Rightarrow> nat list \<Rightarrow> nat \<Rightarrow> nat \<Rightarrow> nat list option" where
  "ucc_coll_args_set_displacement args ds idx val =
     (if idx < length ds
      then Some (ds[idx := (if UCC_COLL_ARGS_DISPL64 args then u64 val else u32 val)])
      else None)"

definition ucc_coll_args_get_total_count :: "ucc_coll_args \<Rightarrow> nat list \<Rightarrow> nat \<Rightarrow> nat option" where
  "ucc_coll_args_get_total_count args cs tsize =
     vector_offset_loop (UCC_COLL_ARGS_COUNT64 args) cs 0 tsize 0"

text \<open>
  \<open>ucc_coll_args_get_v_buffer_size\<close>: the loop keeps the greatest displacement met so far and
  the count of the first rank that has it.
\<close>

fun v_buffer_size_loop ::
    "ucc_coll_args \<Rightarrow> nat list \<Rightarrow> nat list \<Rightarrow> nat \<Rightarrow> nat \<Rightarrow> nat \<Rightarrow> nat \<Rightarrow> (nat \<times> nat) option" where
  "v_buffer_size_loop args cs ds i 0 max_disp idx_count = Some (max_disp, idx_count)"
| "v_buffer_size_loop args cs ds i (Suc n) max_disp idx_count =
     (case ucc_coll_args_get_displacement args ds i of
        None \<Rightarrow> None
      | Some disp_i \<Rightarrow>
          if disp_i > max_disp then
            (case ucc_coll_args_get_count args cs i of
               None \<Rightarrow> None
             | Some c \<Rightarrow> v_buffer_size_loop args cs ds (Suc i) n disp_i c)
          else v_buffer_size_loop args cs ds (Suc i) n max_disp idx_count)"

definition ucc_coll_args_get_v_buffer_size ::
    "ucc_coll_args \<Rightarrow> nat list \<Rightarrow> nat list \<Rightarrow> nat \<Rightarrow> nat option" where
  "ucc_coll_args_get_v_buffer_size args cs ds tsize =
     (case (ucc_coll_args_get_displacement args ds 0, ucc_coll_args_get_count args cs 0) of
        (Some max_disp, Some idx_count) \<Rightarrow>
          (case v_buffer_size_loop args cs ds 1 (tsize - 1) max_disp idx_count of
             Some (d, c) \<Rightarrow> Some (u64 (d + c))
           | None \<Rightarrow> None)
      | _ \<Rightarrow> None)"

section \<open>Message size, memory type and symmetry\<close>

text \<open>The routines narrow \<open>args->root\<close>, a \<open>uint64_t\<close>, to a \<open>ucc_rank_t\<close> first.\<close>

definition info_bytes :: "ucc_coll_buffer_info \<Rightarrow> nat" where
  "info_bytes b = u64 (buf_count b * ucc_dt_size (datatype_of b))"

fun ucc_coll_args_msgsize :: "ucc_coll_args \<Rightarrow> ucc_rank \<Rightarrow> nat \<Rightarrow> nat option" where
  "ucc_coll_args_msgsize args rank tsize =
     (let r = u32 (args_root args);
          s = args_src args;
          d = args_dst args
      in case coll_type args of
        UCC_COLL_TYPE_BARRIER \<Rightarrow> Some 0
      | UCC_COLL_TYPE_FANIN \<Rightarrow> Some 0
      | UCC_COLL_TYPE_FANOUT \<Rightarrow> Some 0
      | UCC_COLL_TYPE_BCAST \<Rightarrow> Some (info_bytes (info s))
      | UCC_COLL_TYPE_ALLREDUCE \<Rightarrow> Some (info_bytes (info d))
      | UCC_COLL_TYPE_ALLTOALL \<Rightarrow> Some (info_bytes (info d))
      | UCC_COLL_TYPE_ALLGATHER \<Rightarrow> Some (info_bytes (info d))
      | UCC_COLL_TYPE_REDUCE_SCATTER \<Rightarrow> Some (info_bytes (info d))
      | UCC_COLL_TYPE_ALLGATHERV \<Rightarrow>
          map_option (\<lambda>c. u64 (c * ucc_dt_size (datatype_v (info_v d))))
            (ucc_coll_args_get_total_count args (counts_v (info_v d)) tsize)
      | UCC_COLL_TYPE_REDUCE_SCATTERV \<Rightarrow>
          map_option (\<lambda>c. u64 (c * ucc_dt_size (datatype_v (info_v d))))
            (ucc_coll_args_get_total_count args (counts_v (info_v d)) tsize)
      | UCC_COLL_TYPE_ALLTOALLV \<Rightarrow> Some UCC_MSG_SIZE_ASYMMETRIC
      | UCC_COLL_TYPE_GATHERV \<Rightarrow> Some UCC_MSG_SIZE_ASYMMETRIC
      | UCC_COLL_TYPE_SCATTERV \<Rightarrow> Some UCC_MSG_SIZE_ASYMMETRIC
      | UCC_COLL_TYPE_REDUCE \<Rightarrow>
          Some (if r = rank then info_bytes (info d) else info_bytes (info s))
      | UCC_COLL_TYPE_GATHER \<Rightarrow>
          Some (if r = rank then info_bytes (info d) else u64 (info_bytes (info s) * tsize))
      | UCC_COLL_TYPE_SCATTER \<Rightarrow>
          Some (if r = rank then info_bytes (info s) else u64 (info_bytes (info d) * tsize))
      | UCC_COLL_TYPE_LAST \<Rightarrow> Some 0)"

fun ucc_coll_args_mem_type :: "ucc_coll_args \<Rightarrow> ucc_rank \<Rightarrow> ucc_memory_type" where
  "ucc_coll_args_mem_type args rank =
     (let r = u32 (args_root args);
          s = args_src args;
          d = args_dst args
      in case coll_type args of
        UCC_COLL_TYPE_BARRIER \<Rightarrow> UCC_MEMORY_TYPE_NOT_APPLY
      | UCC_COLL_TYPE_FANIN \<Rightarrow> UCC_MEMORY_TYPE_NOT_APPLY
      | UCC_COLL_TYPE_FANOUT \<Rightarrow> UCC_MEMORY_TYPE_NOT_APPLY
      | UCC_COLL_TYPE_BCAST \<Rightarrow> mem_type (info s)
      | UCC_COLL_TYPE_ALLTOALL \<Rightarrow> mem_type (info d)
      | UCC_COLL_TYPE_ALLREDUCE \<Rightarrow> mem_type (info d)
      | UCC_COLL_TYPE_ALLGATHER \<Rightarrow> mem_type (info d)
      | UCC_COLL_TYPE_REDUCE_SCATTER \<Rightarrow> mem_type (info d)
      | UCC_COLL_TYPE_ALLGATHERV \<Rightarrow> mem_type_v (info_v d)
      | UCC_COLL_TYPE_REDUCE_SCATTERV \<Rightarrow> mem_type_v (info_v d)
      | UCC_COLL_TYPE_ALLTOALLV \<Rightarrow> mem_type_v (info_v d)
      | UCC_COLL_TYPE_REDUCE \<Rightarrow> if r = rank then mem_type (info d) else mem_type (info s)
      | UCC_COLL_TYPE_GATHER \<Rightarrow> if r = rank then mem_type (info d) else mem_type (info s)
      | UCC_COLL_TYPE_SCATTER \<Rightarrow> if r = rank then mem_type (info s) else mem_type (info d)
      | UCC_COLL_TYPE_GATHERV \<Rightarrow>
          if r = rank then mem_type_v (info_v d) else mem_type (info s)
      | UCC_COLL_TYPE_SCATTERV \<Rightarrow>
          if r = rank then mem_type_v (info_v s) else mem_type (info d)
      | UCC_COLL_TYPE_LAST \<Rightarrow> UCC_MEMORY_TYPE_UNKNOWN)"

fun ucc_coll_args_is_mem_symmetric :: "ucc_coll_args \<Rightarrow> ucc_rank \<Rightarrow> bool" where
  "ucc_coll_args_is_mem_symmetric args rank =
     (let r = u32 (args_root args);
          s = args_src args;
          d = args_dst args
      in if UCC_IS_INPLACE args then True
      else case coll_type args of
        UCC_COLL_TYPE_BARRIER \<Rightarrow> True
      | UCC_COLL_TYPE_BCAST \<Rightarrow> True
      | UCC_COLL_TYPE_FANIN \<Rightarrow> True
      | UCC_COLL_TYPE_FANOUT \<Rightarrow> True
      | UCC_COLL_TYPE_ALLTOALL \<Rightarrow> mem_type (info d) = mem_type (info s)
      | UCC_COLL_TYPE_ALLREDUCE \<Rightarrow> mem_type (info d) = mem_type (info s)
      | UCC_COLL_TYPE_ALLGATHER \<Rightarrow> mem_type (info d) = mem_type (info s)
      | UCC_COLL_TYPE_REDUCE_SCATTER \<Rightarrow> mem_type (info d) = mem_type (info s)
      | UCC_COLL_TYPE_ALLGATHERV \<Rightarrow> mem_type_v (info_v d) = mem_type (info s)
      | UCC_COLL_TYPE_REDUCE_SCATTERV \<Rightarrow> mem_type_v (info_v d) = mem_type (info s)
      | UCC_COLL_TYPE_ALLTOALLV \<Rightarrow> mem_type_v (info_v d) = mem_type_v (info_v s)
      | UCC_COLL_TYPE_REDUCE \<Rightarrow> r \<noteq> rank \<or> mem_type (info d) = mem_type (info s)
      | UCC_COLL_TYPE_GATHER \<Rightarrow> r \<noteq> rank \<or> mem_type (info d) = mem_type (info s)
      | UCC_COLL_TYPE_SCATTER \<Rightarrow> r \<noteq> rank \<or> mem_type (info d) = mem_type (info s)
      | UCC_COLL_TYPE_GATHERV \<Rightarrow> r \<noteq> rank \<or> mem_type_v (info_v d) = mem_type (info s)
      | UCC_COLL_TYPE_SCATTERV \<Rightarrow> r \<noteq> rank \<or> mem_type (info d) = mem_type_v (info_v s)
      | UCC_COLL_TYPE_LAST \<Rightarrow> False)"

text \<open>\<open>None\<close> is the \<open>-1\<close> of the error branch.\<close>

fun ucc_coll_args_is_predefined_dt :: "ucc_coll_args \<Rightarrow> ucc_rank \<Rightarrow> bool option" where
  "ucc_coll_args_is_predefined_dt args rank =
     (let s = UCC_DT_IS_PREDEFINED (datatype_of (info (args_src args)));
          d = UCC_DT_IS_PREDEFINED (datatype_of (info (args_dst args)));
          sv = UCC_DT_IS_PREDEFINED (datatype_v (info_v (args_src args)));
          dv = UCC_DT_IS_PREDEFINED (datatype_v (info_v (args_dst args)));
          inplace = UCC_IS_INPLACE args;
          is_root = UCC_IS_ROOT args rank
      in case coll_type args of
        UCC_COLL_TYPE_BARRIER \<Rightarrow> Some True
      | UCC_COLL_TYPE_FANIN \<Rightarrow> Some True
      | UCC_COLL_TYPE_FANOUT \<Rightarrow> Some True
      | UCC_COLL_TYPE_ALLREDUCE \<Rightarrow> Some (d \<and> (inplace \<or> s))
      | UCC_COLL_TYPE_REDUCE_SCATTER \<Rightarrow> Some (d \<and> (inplace \<or> s))
      | UCC_COLL_TYPE_ALLGATHER \<Rightarrow> Some (d \<and> (inplace \<or> s))
      | UCC_COLL_TYPE_ALLTOALL \<Rightarrow> Some (d \<and> (inplace \<or> s))
      | UCC_COLL_TYPE_ALLGATHERV \<Rightarrow> Some (dv \<and> (inplace \<or> s))
      | UCC_COLL_TYPE_REDUCE_SCATTERV \<Rightarrow> Some (dv \<and> (inplace \<or> s))
      | UCC_COLL_TYPE_ALLTOALLV \<Rightarrow> Some (dv \<and> (inplace \<or> sv))
      | UCC_COLL_TYPE_BCAST \<Rightarrow> Some s
      | UCC_COLL_TYPE_GATHER \<Rightarrow> Some (if is_root then d \<and> (inplace \<or> s) else s)
      | UCC_COLL_TYPE_REDUCE \<Rightarrow> Some (if is_root then d \<and> (inplace \<or> s) else s)
      | UCC_COLL_TYPE_GATHERV \<Rightarrow> Some (if is_root then dv \<and> (inplace \<or> s) else s)
      | UCC_COLL_TYPE_SCATTER \<Rightarrow> Some (if is_root then s \<and> (inplace \<or> d) else d)
      | UCC_COLL_TYPE_SCATTERV \<Rightarrow> Some (if is_root then sv \<and> (inplace \<or> d) else d)
      | UCC_COLL_TYPE_LAST \<Rightarrow> None)"

section \<open>The replacement of an asymmetric buffer\<close>

text \<open>
  At a root whose buffers live in different memory types one of them is replaced by a scratch
  buffer in the other's memory type. The memory component's allocator, copy and release are
  parameters: \<open>mc_alloc len mt\<close> gives a status and, on success, the buffer header;
  \<open>mc_memcpy dst src len dst_mt src_mt\<close> and \<open>mc_free\<close> give a status and the new memory.
\<close>

record ucc_mc_buffer_header =
  hdr_mt :: ucc_memory_type
  hdr_addr :: nat

record ucc_buffer_info_asymmetric_memtype =
  old_asymmetric_buffer :: ucc_coll_buffer
  scratch :: "ucc_mc_buffer_header option"

type_synonym mc_alloc_fn = "nat \<Rightarrow> ucc_memory_type \<Rightarrow> ucc_status \<times> ucc_mc_buffer_header option"

type_synonym 'm mc_memcpy_fn =
  "nat \<Rightarrow> nat \<Rightarrow> nat \<Rightarrow> ucc_memory_type \<Rightarrow> ucc_memory_type \<Rightarrow> 'm \<Rightarrow> ucc_status \<times> 'm"

definition replace_info :: "ucc_mc_buffer_header \<Rightarrow> ucc_memory_type \<Rightarrow> ucc_coll_buffer \<Rightarrow> ucc_coll_buffer" where
  "replace_info h mt b =
     b\<lparr>info := (info b)\<lparr>buffer_addr := hdr_addr h, mem_type := mt\<rparr>\<rparr>"

definition replace_info_v :: "ucc_mc_buffer_header \<Rightarrow> ucc_memory_type \<Rightarrow> ucc_coll_buffer \<Rightarrow> ucc_coll_buffer" where
  "replace_info_v h mt b =
     b\<lparr>info_v := (info_v b)\<lparr>buffer_v := hdr_addr h, mem_type_v := mt\<rparr>\<rparr>"

text \<open>
  \<open>alloc_scratch\<close> is the common tail of the four cases: save the old buffer description,
  allocate, and on success store the header and update the arguments. A \<open>None\<close> length is a
  read outside a counts or displacement array.
\<close>

definition alloc_scratch ::
    "mc_alloc_fn \<Rightarrow> nat option \<Rightarrow> ucc_memory_type \<Rightarrow> ucc_coll_buffer
     \<Rightarrow> (ucc_mc_buffer_header \<Rightarrow> ucc_coll_args) \<Rightarrow> ucc_coll_args
     \<Rightarrow> ucc_buffer_info_asymmetric_memtype
     \<Rightarrow> (ucc_status \<times> ucc_coll_args \<times> ucc_buffer_info_asymmetric_memtype) option" where
  "alloc_scratch mc_alloc len mt old upd args save_info =
     (case len of
        None \<Rightarrow> None
      | Some n \<Rightarrow>
          let save1 = save_info\<lparr>old_asymmetric_buffer := old\<rparr>
          in case mc_alloc n mt of
               (UCC_OK, Some h) \<Rightarrow> Some (UCC_OK, upd h, save1\<lparr>scratch := Some h\<rparr>)
             | (UCC_OK, None) \<Rightarrow> None
             | (st, _) \<Rightarrow> Some (st, args, save1))"

fun ucc_coll_args_init_asymmetric_buffer ::
    "mc_alloc_fn \<Rightarrow> nat \<Rightarrow> ucc_coll_args \<Rightarrow> ucc_buffer_info_asymmetric_memtype
     \<Rightarrow> (ucc_status \<times> ucc_coll_args \<times> ucc_buffer_info_asymmetric_memtype) option" where
  "ucc_coll_args_init_asymmetric_buffer mc_alloc team_size args save_info =
     (let s = args_src args;
          d = args_dst args;
          dst_case = (let mt = mem_type (info s) in
            alloc_scratch mc_alloc (Some (info_bytes (info d))) mt d
              (\<lambda>h. args\<lparr>args_dst := replace_info h mt d\<rparr>) args save_info)
      in if UCC_IS_INPLACE args then Some (UCC_ERR_INVALID_PARAM, args, save_info)
      else case coll_type args of
        UCC_COLL_TYPE_REDUCE \<Rightarrow> dst_case
      | UCC_COLL_TYPE_GATHER \<Rightarrow> dst_case
      | UCC_COLL_TYPE_GATHERV \<Rightarrow> (let mt = mem_type (info s) in
            alloc_scratch mc_alloc
              (ucc_coll_args_get_v_buffer_size args (counts_v (info_v d))
                 (displacements_v (info_v d)) team_size) mt d
              (\<lambda>h. args\<lparr>args_dst := replace_info_v h mt d\<rparr>) args save_info)
      | UCC_COLL_TYPE_SCATTER \<Rightarrow> (let mt = mem_type (info d) in
            alloc_scratch mc_alloc (Some (info_bytes (info s))) mt s
              (\<lambda>h. args\<lparr>args_src := replace_info h mt s\<rparr>) args save_info)
      | UCC_COLL_TYPE_SCATTERV \<Rightarrow> (let mt = mem_type (info d) in
            alloc_scratch mc_alloc
              (ucc_coll_args_get_v_buffer_size args (counts_v (info_v s))
                 (displacements_v (info_v s)) team_size) mt s
              (\<lambda>h. args\<lparr>args_src := replace_info_v h mt s\<rparr>) args save_info)
      | _ \<Rightarrow> Some (UCC_ERR_INVALID_PARAM, args, save_info))"

definition ucc_coll_args_free_asymmetric_buffer ::
    "(ucc_mc_buffer_header option \<Rightarrow> ucc_status) \<Rightarrow> ucc_coll_args \<Rightarrow> ucc_buffer_info_asymmetric_memtype
     \<Rightarrow> ucc_status \<times> ucc_buffer_info_asymmetric_memtype" where
  "ucc_coll_args_free_asymmetric_buffer mc_free args save =
     (if UCC_IS_INPLACE args then (UCC_ERR_INVALID_PARAM, save)
      else (mc_free (scratch save), save\<lparr>scratch := None\<rparr>))"

text \<open>
  The copy between the scratch buffer and the saved one: into the scratch buffer for the
  scatters, out of it otherwise. A missing scratch buffer is a null dereference, \<open>None\<close>.
\<close>

definition ucc_copy_asymmetric_buffer ::
    "'m mc_memcpy_fn \<Rightarrow> nat \<Rightarrow> ucc_coll_args \<Rightarrow> ucc_buffer_info_asymmetric_memtype \<Rightarrow> 'm
     \<Rightarrow> (ucc_status \<times> 'm) option" where
  "ucc_copy_asymmetric_buffer mc_memcpy team_size args save mem =
     (let old = old_asymmetric_buffer save;
          oi = info old;
          ov = info_v old;
          vlen = ucc_coll_args_get_v_buffer_size args (counts_v ov) (displacements_v ov) team_size
      in case scratch save of
        None \<Rightarrow> None
      | Some h \<Rightarrow>
          (case coll_type args of
             UCC_COLL_TYPE_SCATTERV \<Rightarrow>
               map_option (\<lambda>n. mc_memcpy (hdr_addr h) (buffer_v ov) n (hdr_mt h) (mem_type_v ov) mem) vlen
           | UCC_COLL_TYPE_SCATTER \<Rightarrow>
               Some (mc_memcpy (hdr_addr h) (buffer_addr oi) (info_bytes oi) (hdr_mt h) (mem_type oi) mem)
           | UCC_COLL_TYPE_GATHERV \<Rightarrow>
               map_option (\<lambda>n. mc_memcpy (buffer_v ov) (hdr_addr h) n (mem_type_v ov) (hdr_mt h) mem) vlen
           | _ \<Rightarrow>
               Some (mc_memcpy (buffer_addr oi) (hdr_addr h) (info_bytes oi) (mem_type oi) (hdr_mt h) mem)))"

section \<open>The v-buffer size\<close>

text \<open>
  \<open>disp_val\<close> and \<open>count_val\<close> are the values the entries stand for at the width the flags
  select. \<open>first_max f k n\<close> says that \<open>k\<close> is the first of the indices below \<open>n\<close> with the
  greatest value of \<open>f\<close>.
\<close>

definition disp_val :: "ucc_coll_args \<Rightarrow> nat list \<Rightarrow> nat \<Rightarrow> nat" where
  "disp_val args ds i = elem_val (UCC_COLL_ARGS_DISPL64 args) ds i"

definition count_val :: "ucc_coll_args \<Rightarrow> nat list \<Rightarrow> nat \<Rightarrow> nat" where
  "count_val args cs i = elem_val (UCC_COLL_ARGS_COUNT64 args) cs i"

definition first_max :: "(nat \<Rightarrow> nat) \<Rightarrow> nat \<Rightarrow> nat \<Rightarrow> bool" where
  "first_max f k n \<longleftrightarrow> k < n \<and> (\<forall>j<n. f j \<le> f k) \<and> (\<forall>j<k. f j < f k)"

lemma first_max_Suc:
  assumes "first_max f k n"
  shows "first_max f (if f k < f n then n else k) (Suc n)"
  using assms by (auto simp: first_max_def less_Suc_eq)

lemma first_max_unique: "first_max f k n \<Longrightarrow> first_max f k' n \<Longrightarrow> k = k'"
  unfolding first_max_def by (metis leD linorder_neqE_nat)

lemma get_displacement_val:
  "i < length ds \<Longrightarrow> ucc_coll_args_get_displacement args ds i = Some (disp_val args ds i)"
  by (simp add: ucc_coll_args_get_displacement_def count_elem_def disp_val_def elem_val_def)

lemma get_count_val:
  "i < length cs \<Longrightarrow> ucc_coll_args_get_count args cs i = Some (count_val args cs i)"
  by (simp add: ucc_coll_args_get_count_def count_elem_def count_val_def elem_val_def)

lemma v_buffer_size_loop_first_max:
  assumes "first_max (disp_val args ds) k i" "i + n \<le> length ds" "i + n \<le> length cs"
  shows "\<exists>k'. first_max (disp_val args ds) k' (i + n)
    \<and> v_buffer_size_loop args cs ds i n (disp_val args ds k) (count_val args cs k)
      = Some (disp_val args ds k', count_val args cs k')"
  using assms
proof (induction n arbitrary: i k)
  case (Suc n)
  let ?k = "if disp_val args ds k < disp_val args ds i then i else k"
  have "\<exists>k'. first_max (disp_val args ds) k' (Suc i + n)
    \<and> v_buffer_size_loop args cs ds (Suc i) n (disp_val args ds ?k) (count_val args cs ?k)
      = Some (disp_val args ds k', count_val args cs k')"
    using Suc.prems by (intro Suc.IH first_max_Suc) simp_all
  then show ?case
    using Suc.prems by (auto simp: get_displacement_val get_count_val split: if_splits)
qed auto

text \<open>
  C17: the size computed for a v-buffer is the displacement plus the count of the first rank with
  the greatest displacement, for all lengths and widths.
\<close>

theorem v_buffer_size_first_max:
  assumes "first_max (disp_val args ds) k n" "n \<le> length ds" "n \<le> length cs"
  shows "ucc_coll_args_get_v_buffer_size args cs ds n
    = Some (u64 (disp_val args ds k + count_val args cs k))"
proof -
  obtain m where n: "n = Suc m" using assms(1) by (cases n) (auto simp: first_max_def)
  have "first_max (disp_val args ds) 0 1" by (simp add: first_max_def)
  then obtain k' where k': "first_max (disp_val args ds) k' (1 + m)"
    and l: "v_buffer_size_loop args cs ds 1 m (disp_val args ds 0) (count_val args cs 0)
      = Some (disp_val args ds k', count_val args cs k')"
    using v_buffer_size_loop_first_max [of args ds 0 1 m cs] assms(2,3) n by auto
  have "k' = k" using k' assms(1) n by (auto intro: first_max_unique)
  moreover have "0 < length ds" "0 < length cs" using assms(2,3) n by auto
  ultimately show ?thesis
    using l n
    by (simp add: ucc_coll_args_get_v_buffer_size_def get_displacement_val get_count_val)
qed

definition example_v_args :: ucc_coll_args where
  "example_v_args =
     (let i = \<lparr>buffer_addr = 0, buf_count = 1, datatype_of = DT_PREDEFINED 2,
               mem_type = UCC_MEMORY_TYPE_CUDA\<rparr>;
          v = \<lparr>buffer_v = 4096, counts_v = [2, 0, 3], displacements_v = [0, 2, 2],
               datatype_v = DT_PREDEFINED 2, mem_type_v = UCC_MEMORY_TYPE_HOST\<rparr>;
          b = \<lparr>info = i, info_v = v\<rparr>
      in \<lparr>args_mask = 0, coll_type = UCC_COLL_TYPE_GATHERV, args_src = b, args_dst = b,
         args_flags = 0, args_root = 0,
         active_set = \<lparr>as_start = 0, as_stride = 0, as_size = 0\<rparr>\<rparr>)"

lemma example_v_widths:
  "\<not> UCC_COLL_ARGS_DISPL64 example_v_args" "\<not> UCC_COLL_ARGS_COUNT64 example_v_args"
  by (simp_all add: example_v_args_def Let_def UCC_COLL_ARGS_DISPL64_def
      UCC_COLL_ARGS_COUNT64_def ucc_bit_set_def)

text \<open>
  With counts \<open>[2, 0, 3]\<close> and displacements \<open>[0, 2, 2]\<close>, the prefix sums of the counts, the
  blocks end at 5 and the computed size is 2.
\<close>

theorem v_buffer_size_first_max_witness:
  "first_max (disp_val example_v_args [0, 2, 2]) 1 3
    \<and> ucc_coll_args_get_v_buffer_size example_v_args [2, 0, 3] [0, 2, 2] 3 = Some 2"
proof -
  have "first_max (disp_val example_v_args [0, 2, 2]) 1 3"
    by (auto simp: first_max_def disp_val_def elem_val_def example_v_widths u32_def
        less_Suc_eq numeral_3_eq_3)
  then show ?thesis
    using v_buffer_size_first_max [of example_v_args "[0, 2, 2]" 1 3 "[2, 0, 3]"]
    by (simp add: disp_val_def count_val_def elem_val_def example_v_widths u32_def u64_def)
qed

section \<open>Message sizes agree across the team\<close>

text \<open>
  \<open>local_view\<close> relates the arguments one rank passes to the call the team agreed on: every
  rank contributes or receives \<open>c\<close> elements, the root of a gather or scatter describes all
  \<open>c * n\<close> of them, and a v-collective passes the same counts everywhere.
\<close>

definition local_view ::
    "ucc_coll_type \<Rightarrow> ucc_rank \<Rightarrow> nat \<Rightarrow> nat \<Rightarrow> nat list \<Rightarrow> bool \<Rightarrow> nat \<Rightarrow> ucc_coll_args \<Rightarrow> ucc_rank \<Rightarrow> bool" where
  "local_view ct rt c dts cs is64 n args rank \<longleftrightarrow>
     (let s = info (args_src args);
          d = info (args_dst args);
          describes = (\<lambda>b k. buf_count b = k \<and> ucc_dt_size (datatype_of b) = dts)
      in coll_type args = ct \<and> u32 (args_root args) = rt
       \<and> (ct = UCC_COLL_TYPE_BCAST \<longrightarrow> describes s c)
       \<and> (ct \<in> {UCC_COLL_TYPE_ALLREDUCE, UCC_COLL_TYPE_ALLTOALL, UCC_COLL_TYPE_ALLGATHER,
                UCC_COLL_TYPE_REDUCE_SCATTER} \<longrightarrow> describes d c)
       \<and> (ct \<in> {UCC_COLL_TYPE_ALLGATHERV, UCC_COLL_TYPE_REDUCE_SCATTERV} \<longrightarrow>
            UCC_COLL_ARGS_COUNT64 args = is64 \<and> counts_v (info_v (args_dst args)) = cs
            \<and> ucc_dt_size (datatype_v (info_v (args_dst args))) = dts)
       \<and> (ct = UCC_COLL_TYPE_REDUCE \<longrightarrow> describes (if rank = rt then d else s) c)
       \<and> (ct = UCC_COLL_TYPE_GATHER \<longrightarrow>
            (if rank = rt then describes d (c * n) else describes s c))
       \<and> (ct = UCC_COLL_TYPE_SCATTER \<longrightarrow>
            (if rank = rt then describes s (c * n) else describes d c)))"

definition call_msgsize :: "ucc_coll_type \<Rightarrow> nat \<Rightarrow> nat \<Rightarrow> nat list \<Rightarrow> bool \<Rightarrow> nat \<Rightarrow> nat option" where
  "call_msgsize ct c dts cs is64 n =
     (if ct \<in> {UCC_COLL_TYPE_BCAST, UCC_COLL_TYPE_ALLREDUCE, UCC_COLL_TYPE_ALLTOALL,
              UCC_COLL_TYPE_ALLGATHER, UCC_COLL_TYPE_REDUCE_SCATTER, UCC_COLL_TYPE_REDUCE}
      then Some (u64 (c * dts))
      else if ct \<in> {UCC_COLL_TYPE_GATHER, UCC_COLL_TYPE_SCATTER} then Some (u64 (c * n * dts))
      else if ct \<in> {UCC_COLL_TYPE_ALLGATHERV, UCC_COLL_TYPE_REDUCE_SCATTERV}
      then map_option (\<lambda>k. u64 (k * dts)) (vector_offset_loop is64 cs 0 n 0)
      else if ct \<in> {UCC_COLL_TYPE_ALLTOALLV, UCC_COLL_TYPE_GATHERV, UCC_COLL_TYPE_SCATTERV}
      then Some UCC_MSG_SIZE_ASYMMETRIC
      else Some 0)"

lemma u64_mult_left: "u64 (u64 a * b) = u64 (a * b)"
  by (simp add: u64_def mod_mult_left_eq)

text \<open>
  C18: the message size every rank computes from its own arguments is that of the call, so all
  ranks of a team select by the same size.
\<close>

theorem msgsize_agrees:
  assumes "local_view ct rt c dts cs is64 n args rank"
  shows "ucc_coll_args_msgsize args rank n = call_msgsize ct c dts cs is64 n"
proof -
  have "u64 (u64 (c * dts) * n) = u64 (c * n * dts)"
    unfolding u64_mult_left by (simp add: ac_simps)
  then show ?thesis
    using assms
    by (cases ct) (auto simp: local_view_def call_msgsize_def info_bytes_def Let_def
        ucc_coll_args_get_total_count_def)
qed

definition example_gather_args :: ucc_coll_args where
  "example_gather_args =
     example_v_args\<lparr>coll_type := UCC_COLL_TYPE_GATHER,
       args_src := (args_src example_v_args)
         \<lparr>info := (info (args_src example_v_args))\<lparr>buf_count := 5\<rparr>\<rparr>\<rparr>"

theorem msgsize_agrees_witness:
  "local_view UCC_COLL_TYPE_GATHER 0 5 4 [] False 3 example_gather_args 1
    \<and> ucc_coll_args_msgsize example_gather_args 1 3 = Some 60"
proof -
  have "local_view UCC_COLL_TYPE_GATHER 0 5 4 [] False 3 example_gather_args 1"
    by (simp add: local_view_def example_gather_args_def example_v_args_def Let_def u32_def
        ucc_dt_predefined_sizes_def)
  then show ?thesis
    using msgsize_agrees [of UCC_COLL_TYPE_GATHER 0 5 4 "[]" False 3 example_gather_args 1]
    by (simp add: call_msgsize_def u64_def)
qed

section \<open>The replaced buffer\<close>

lemma alloc_scratch_ok:
  assumes "alloc_scratch mc_alloc len mt old upd args save = Some (UCC_OK, args', save')"
  obtains n h where "len = Some n" "mc_alloc n mt = (UCC_OK, Some h)" "args' = upd h"
    "save' = save\<lparr>old_asymmetric_buffer := old, scratch := Some h\<rparr>"
  using assms that
  by (auto simp: alloc_scratch_def Let_def split: option.splits prod.splits ucc_status.splits)

text \<open>
  when the replacement of an asymmetric buffer succeeds, the arguments handed on are
  memory-symmetric at every rank, keep their collective type and root, and the saved
  description is the buffer of the caller that was replaced.
\<close>

theorem init_asymmetric_buffer_symmetric:
  assumes "ucc_coll_args_init_asymmetric_buffer mc_alloc n args save = Some (UCC_OK, args', save')"
  shows "ucc_coll_args_is_mem_symmetric args' rank
    \<and> coll_type args' = coll_type args \<and> args_root args' = args_root args
    \<and> scratch save' \<noteq> None
    \<and> (old_asymmetric_buffer save' = args_dst args \<and> args_src args' = args_src args
       \<or> old_asymmetric_buffer save' = args_src args \<and> args_dst args' = args_dst args)"
proof (cases "UCC_IS_INPLACE args")
  case False
  with assms show ?thesis
    by (cases "coll_type args")
      (auto simp: Let_def replace_info_def replace_info_v_def elim!: alloc_scratch_ok)
qed (use assms in simp)

theorem init_asymmetric_buffer_symmetric_witness:
  "\<exists>args' save'. ucc_coll_args_is_mem_symmetric args' 0
    \<and> ucc_coll_args_init_asymmetric_buffer
        (\<lambda>len mt. (UCC_OK, Some \<lparr>hdr_mt = mt, hdr_addr = 8192\<rparr>)) 3 example_v_args
        \<lparr>old_asymmetric_buffer = args_dst example_v_args, scratch = None\<rparr> = Some (UCC_OK, args', save')"
proof -
  let ?al = "\<lambda>len mt. (UCC_OK, Some \<lparr>hdr_mt = mt, hdr_addr = 8192\<rparr>)"
  let ?sv = "\<lparr>old_asymmetric_buffer = args_dst example_v_args, scratch = None\<rparr>"
  obtain args' save' where i: "ucc_coll_args_init_asymmetric_buffer ?al 3 example_v_args ?sv
      = Some (UCC_OK, args', save')"
    by (simp add: alloc_scratch_def example_v_args_def Let_def UCC_IS_INPLACE_def ucc_bit_set_def
        ucc_coll_args_get_v_buffer_size_def ucc_coll_args_get_displacement_def
        ucc_coll_args_get_count_def count_elem_def numeral_2_eq_2)
  show ?thesis
    using init_asymmetric_buffer_symmetric [OF i] i by blast
qed

end
