(* ===== verification/Ep_Map.thy ===== *)
theory Ep_Map
  imports Coll_Types
begin

text \<open>
  Endpoint maps, \<open>ucc_ep_map_t\<close> of \<open>src/ucc/api/ucc.h\<close>: how the ranks of a subset (a team, an
  active set, a topology subgroup) name ranks of the enclosing space. Evaluation, the inverse
  lookup \<open>ucc_ep_map_local_rank\<close>, and the constructors of \<open>src/utils/ucc_coll_utils.c\<close>:
  from an array with detection of a constant stride, reverse, nested and inverse maps.
\<close>

section \<open>Maps\<close>

text \<open>
  An array map holds the values of its entries; an entry that was never written is \<open>None\<close>. A
  callback m holds the callback applied to its context. \<open>EP_MAP_NONE\<close> is a m whose type
  field is none of the enumerators, for instance 0. \<open>ep_num\<close> is at most \<open>2 ^ 32 - 1\<close>, the
  number of ranks a \<open>ucc_rank_t\<close> loop counter can name.
\<close>

datatype ep_map_kind =
    EP_MAP_NONE
  | EP_MAP_FULL
  | EP_MAP_STRIDED (strided_start: nat) (strided_stride: int)
  | EP_MAP_ARRAY (array_map: "nat option list") (array_elem_size: nat)
  | EP_MAP_CB "nat \<Rightarrow> nat option"

record ucc_ep_map =
  ep_type :: ep_map_kind
  ep_num :: nat

text \<open>
  \<open>ucc_ep_map_eval\<close>: the result is narrowed to 32 bits in every case. An array entry is read
  through a \<open>ucc_rank_t\<close> pointer, so of an 8-byte entry the low half is read on the
  little-endian targets. \<open>None\<close> is a read outside the array or of an entry never written.
\<close>

definition ucc_ep_map_eval :: "ucc_ep_map \<Rightarrow> ucc_rank \<Rightarrow> ucc_rank option" where
  "ucc_ep_map_eval m rank =
     (case ep_type m of
        EP_MAP_FULL \<Rightarrow> Some rank
      | EP_MAP_STRIDED start stride \<Rightarrow> Some (u32_of_int (int start + int rank * stride))
      | EP_MAP_ARRAY arr _ \<Rightarrow>
          if rank < length arr then map_option u32 (arr ! rank) else None
      | EP_MAP_CB cb \<Rightarrow> map_option u32 (cb rank)
      | EP_MAP_NONE \<Rightarrow> Some UCC_RANK_INVALID)"

text \<open>C's \<open>int64_t\<close> division rounds towards zero.\<close>

definition quot :: "int \<Rightarrow> int \<Rightarrow> int" where
  "quot a b = sgn a * sgn b * (\<bar>a\<bar> div \<bar>b\<bar>)"

fun local_rank_loop :: "ucc_ep_map \<Rightarrow> ucc_rank \<Rightarrow> nat \<Rightarrow> nat \<Rightarrow> ucc_rank option" where
  "local_rank_loop m rank i 0 = Some UCC_RANK_INVALID"
| "local_rank_loop m rank i (Suc n) =
     (case ucc_ep_map_eval m i of
        None \<Rightarrow> None
      | Some r \<Rightarrow> if rank = r then Some i else local_rank_loop m rank (Suc i) n)"

text \<open>A zero stride is a division by zero, \<open>None\<close>.\<close>

definition ucc_ep_map_local_rank :: "ucc_ep_map \<Rightarrow> ucc_rank \<Rightarrow> ucc_rank option" where
  "ucc_ep_map_local_rank m rank =
     (case ep_type m of
        EP_MAP_FULL \<Rightarrow> Some rank
      | EP_MAP_STRIDED start stride \<Rightarrow>
          if stride = 0 then None
          else Some (u32_of_int (quot (int rank - s64 (int start)) stride))
      | EP_MAP_ARRAY _ _ \<Rightarrow> local_rank_loop m rank 0 (ep_num m)
      | EP_MAP_CB _ \<Rightarrow> local_rank_loop m rank 0 (ep_num m)
      | EP_MAP_NONE \<Rightarrow> Some UCC_RANK_INVALID)"

definition ucc_active_set_to_ep_map :: "ucc_coll_args \<Rightarrow> ucc_ep_map" where
  "ucc_active_set_to_ep_map args =
     \<lparr>ep_type = EP_MAP_STRIDED (as_start (active_set args)) (as_stride (active_set args)),
      ep_num = as_size (active_set args)\<rparr>"

section \<open>Constructors\<close>

definition ucc_ep_map_get_elem :: "nat list \<Rightarrow> nat \<Rightarrow> bool \<Rightarrow> int" where
  "ucc_ep_map_get_elem arr i is64 = s64 (int (if is64 then arr ! i else u32 (arr ! i)))"

fun const_stride_loop :: "nat list \<Rightarrow> bool \<Rightarrow> int \<Rightarrow> nat \<Rightarrow> nat \<Rightarrow> bool" where
  "const_stride_loop arr is64 stride i 0 = True"
| "const_stride_loop arr is64 stride i (Suc n) =
     (if s64 (ucc_ep_map_get_elem arr i is64 - ucc_ep_map_get_elem arr (i - 1) is64) \<noteq> stride
      then False
      else const_stride_loop arr is64 stride (Suc i) n)"

text \<open>
  \<open>ucc_ep_map_from_array_generic\<close>: the array holds at least \<open>n\<close> entries. The second result
  says whether the caller's array was freed.
\<close>

definition ucc_ep_map_from_array_generic ::
    "nat list \<Rightarrow> nat \<Rightarrow> nat \<Rightarrow> bool \<Rightarrow> bool \<Rightarrow> ucc_ep_map \<times> bool" where
  "ucc_ep_map_from_array_generic arr n full_size need_free is64 =
     (let stride = (if n > 1
                    then s64 (ucc_ep_map_get_elem arr 1 is64 - ucc_ep_map_get_elem arr 0 is64)
                    else 0);
          is_const_stride = (n > 1 \<and> const_stride_loop arr is64 stride 2 (n - 2))
      in if is_const_stride then
           (\<lparr>ep_type =
               (if stride = 1 \<and> n = full_size then EP_MAP_FULL
                else EP_MAP_STRIDED (nat (ucc_ep_map_get_elem arr 0 is64 mod 2 ^ 64)) stride),
             ep_num = n\<rparr>, need_free)
         else
           (\<lparr>ep_type = EP_MAP_ARRAY (map Some arr) (if is64 then 8 else 4), ep_num = n\<rparr>, False))"

definition ucc_ep_map_from_array :: "nat list \<Rightarrow> nat \<Rightarrow> nat \<Rightarrow> bool \<Rightarrow> ucc_ep_map \<times> bool" where
  "ucc_ep_map_from_array arr n full_size need_free =
     ucc_ep_map_from_array_generic arr n full_size need_free False"

definition ucc_ep_map_from_array_64 :: "nat list \<Rightarrow> nat \<Rightarrow> nat \<Rightarrow> bool \<Rightarrow> ucc_ep_map \<times> bool" where
  "ucc_ep_map_from_array_64 arr n full_size need_free =
     ucc_ep_map_from_array_generic arr n full_size need_free True"

text \<open>\<open>alloc_ok\<close> says whether the allocation of the routine succeeds.\<close>

definition ucc_ep_map_nested_cb :: "ucc_ep_map \<Rightarrow> ucc_ep_map \<Rightarrow> nat \<Rightarrow> nat option" where
  "ucc_ep_map_nested_cb base_map sub_map ep =
     Option.bind (ucc_ep_map_eval sub_map (u32 ep)) (ucc_ep_map_eval base_map)"

definition ucc_ep_map_create_nested ::
    "bool \<Rightarrow> ucc_ep_map \<Rightarrow> ucc_ep_map \<Rightarrow> ucc_status + ucc_ep_map" where
  "ucc_ep_map_create_nested alloc_ok base_map sub_map =
     (if alloc_ok
      then Inr \<lparr>ep_type = EP_MAP_CB (ucc_ep_map_nested_cb base_map sub_map), ep_num = ep_num sub_map\<rparr>
      else Inl UCC_ERR_NO_MEMORY)"

definition ucc_ep_map_create_reverse :: "nat \<Rightarrow> ucc_ep_map" where
  "ucc_ep_map_create_reverse n = \<lparr>ep_type = EP_MAP_STRIDED (sub32 n 1) (-1), ep_num = n\<rparr>"

definition ucc_ep_map_is_identity :: "ucc_ep_map \<Rightarrow> bool" where
  "ucc_ep_map_is_identity m =
     (ep_type m = EP_MAP_FULL \<or> (case ep_type m of
        EP_MAP_STRIDED start stride \<Rightarrow> start = 0 \<and> stride = 1 | _ \<Rightarrow> False))"

definition ucc_ep_map_is_reverse :: "ucc_ep_map \<Rightarrow> bool \<Rightarrow> bool" where
  "ucc_ep_map_is_reverse m reversed_reordered_flag =
     ((case ep_type m of
         EP_MAP_STRIDED start stride \<Rightarrow> start = sub64 (ep_num m) 1 \<and> stride = -1
       | _ \<Rightarrow> False) \<or> reversed_reordered_flag)"

fun max_rank_loop :: "ucc_ep_map \<Rightarrow> nat \<Rightarrow> nat \<Rightarrow> ucc_rank \<Rightarrow> ucc_rank option" where
  "max_rank_loop m i 0 max_rank = Some max_rank"
| "max_rank_loop m i (Suc n) max_rank =
     (case ucc_ep_map_eval m i of
        None \<Rightarrow> None
      | Some r \<Rightarrow> max_rank_loop m (Suc i) n (if r > max_rank then r else max_rank))"

fun inverse_fill_loop :: "ucc_ep_map \<Rightarrow> nat \<Rightarrow> nat \<Rightarrow> nat option list \<Rightarrow> nat option list option" where
  "inverse_fill_loop m i 0 arr = Some arr"
| "inverse_fill_loop m i (Suc n) arr =
     (case ucc_ep_map_eval m i of
        None \<Rightarrow> None
      | Some r \<Rightarrow>
          if r < length arr then inverse_fill_loop m (Suc i) n (arr[r := Some i]) else None)"

text \<open>
  \<open>ucc_ep_map_create_inverse\<close>: the array has \<open>max_rank + 1\<close> entries, computed in 32 bits, none
  of them initialised. The outer \<open>None\<close> is an access outside an array.
\<close>

definition ucc_ep_map_create_inverse ::
    "bool \<Rightarrow> ucc_ep_map \<Rightarrow> bool \<Rightarrow> (ucc_status + ucc_ep_map) option" where
  "ucc_ep_map_create_inverse alloc_ok m reversed_reordered_flag =
     (if ucc_ep_map_is_reverse m reversed_reordered_flag then Some (Inr m)
      else case max_rank_loop m 0 (ep_num m) 0 of
        None \<Rightarrow> None
      | Some max_rank \<Rightarrow>
          if \<not> alloc_ok then Some (Inl UCC_ERR_NO_MEMORY)
          else map_option
            (\<lambda>arr. Inr \<lparr>ep_type = EP_MAP_ARRAY arr 4, ep_num = ep_num m\<rparr>)
            (inverse_fill_loop m 0 (ep_num m) (replicate (u32 (max_rank + 1)) None)))"

section \<open>The contract of a rank map\<close>

text \<open>
  A map from the ranks of a subset into an enclosing space with a lookup that undoes it:
  \<open>ev\<close> is defined on all \<open>sz\<close> ranks and \<open>loc\<close> takes the value back to its rank.
\<close>

locale rank_map =
  fixes valid :: "'m \<Rightarrow> bool"
    and sz :: "'m \<Rightarrow> nat"
    and ev :: "'m \<Rightarrow> nat \<Rightarrow> nat option"
    and loc :: "'m \<Rightarrow> nat \<Rightarrow> nat option"
  assumes loc_ev: "valid m \<Longrightarrow> i < sz m \<Longrightarrow> \<exists>r. ev m i = Some r \<and> loc m r = Some i"
begin

lemma loc_of_ev: "valid m \<Longrightarrow> i < sz m \<Longrightarrow> ev m i = Some r \<Longrightarrow> loc m r = Some i"
  using loc_ev [of m i] by auto

lemma ev_defined: "valid m \<Longrightarrow> i < sz m \<Longrightarrow> \<exists>r. ev m i = Some r"
  using loc_ev [of m i] by auto

lemma ev_inj: "valid m \<Longrightarrow> inj_on (ev m) {..<sz m}"
  by (rule inj_onI) (metis lessThan_iff loc_ev option.inject)

lemma ev_image_card: "valid m \<Longrightarrow> card (ev m ` {..<sz m}) = sz m"
  using ev_inj [of m] by (simp add: card_image)

end

section \<open>Well-formed maps\<close>

text \<open>
  A well-formed map names distinct ranks; a strided one stays inside the 32-bit ranks without
  wrapping.
\<close>

definition strided_ok :: "nat \<Rightarrow> int \<Rightarrow> nat \<Rightarrow> bool" where
  "strided_ok start stride n \<longleftrightarrow> start < 2 ^ 32 \<and> stride \<noteq> 0
     \<and> (\<forall>i<n. 0 \<le> int start + int i * stride \<and> int start + int i * stride < 2 ^ 32)"

definition ep_map_wf :: "ucc_ep_map \<Rightarrow> bool" where
  "ep_map_wf m \<longleftrightarrow> ep_num m < 2 ^ 32
     \<and> (\<forall>i<ep_num m. ucc_ep_map_eval m i \<noteq> None)
     \<and> inj_on (ucc_ep_map_eval m) {..<ep_num m}
     \<and> (case ep_type m of
          EP_MAP_STRIDED start stride \<Rightarrow> strided_ok start stride (ep_num m)
        | EP_MAP_NONE \<Rightarrow> False
        | _ \<Rightarrow> True)"

lemma u32_of_int_id [wrap_simps]: "0 \<le> i \<Longrightarrow> i < 2 ^ 32 \<Longrightarrow> u32_of_int i = nat i"
  by (simp add: u32_of_int_def)

lemma quot_mult: "b \<noteq> 0 \<Longrightarrow> quot (int a * b) b = int a"
  by (cases "0 < b") (simp_all add: quot_def abs_mult sgn_mult sgn_if zero_less_mult_iff)

lemma eval_strided:
  assumes "ep_type m = EP_MAP_STRIDED start stride" "strided_ok start stride n" "i < n"
  shows "ucc_ep_map_eval m i = Some (nat (int start + int i * stride))"
  using assms by (simp add: ucc_ep_map_eval_def strided_ok_def u32_of_int_id)

lemma local_rank_strided:
  assumes "ep_type m = EP_MAP_STRIDED start stride" "strided_ok start stride n" "i < n" "n < 2 ^ 32"
  shows "ucc_ep_map_local_rank m (nat (int start + int i * stride)) = Some i"
proof -
  have "s64 (int start) = int start"
    using assms(2) by (intro s64_id) (simp_all add: strided_ok_def)
  moreover have "int (nat (int start + int i * stride)) - int start = int i * stride"
    using assms(2,3) by (simp add: strided_ok_def)
  ultimately show ?thesis
    using assms by (simp add: ucc_ep_map_local_rank_def strided_ok_def quot_mult u32_of_int_nat)
qed

lemma local_rank_loop_finds:
  assumes "inj_on (ucc_ep_map_eval m) {..<k}" "\<forall>j<k. ucc_ep_map_eval m j \<noteq> None"
    and "ucc_ep_map_eval m t = Some r" "i \<le> t" "t < i + n" "i + n \<le> k"
  shows "local_rank_loop m r i n = Some t"
  using assms(4-)
proof (induction n arbitrary: i)
  case (Suc n)
  obtain q where q: "ucc_ep_map_eval m i = Some q" using assms(2) Suc.prems by fastforce
  show ?case
  proof (cases "i = t")
    case False
    have "q \<noteq> r"
    proof
      assume "q = r"
      then have "ucc_ep_map_eval m i = ucc_ep_map_eval m t" using q assms(3) by simp
      then show False using assms(1) False Suc.prems by (auto dest: inj_onD)
    qed
    then show ?thesis using Suc False q by simp
  qed (use q assms(3) in simp)
qed simp

lemma eval_full: "ep_type m = EP_MAP_FULL \<Longrightarrow> ucc_ep_map_eval m i = Some i"
  by (simp add: ucc_ep_map_eval_def)

lemma local_rank_eval:
  assumes "ep_map_wf m" "i < ep_num m" "ucc_ep_map_eval m i = Some r"
  shows "ucc_ep_map_local_rank m r = Some i"
proof (cases "ep_type m")
  case (EP_MAP_STRIDED start stride)
  then show ?thesis
    using assms eval_strided [OF EP_MAP_STRIDED, of "ep_num m" i]
      local_rank_strided [OF EP_MAP_STRIDED, of "ep_num m" i]
    by (simp add: ep_map_wf_def)
next
  case (EP_MAP_ARRAY arr es)
  then show ?thesis
    using assms local_rank_loop_finds [of m "ep_num m" i r 0 "ep_num m"]
    by (simp add: ucc_ep_map_local_rank_def ep_map_wf_def)
next
  case (EP_MAP_CB cb)
  then show ?thesis
    using assms local_rank_loop_finds [of m "ep_num m" i r 0 "ep_num m"]
    by (simp add: ucc_ep_map_local_rank_def ep_map_wf_def)
qed (use assms in \<open>simp_all add: ep_map_wf_def ucc_ep_map_local_rank_def eval_full\<close>)

interpretation ep: rank_map ep_map_wf ep_num ucc_ep_map_eval ucc_ep_map_local_rank
proof unfold_locales
  fix m i assume "ep_map_wf m" "i < ep_num m"
  then show "\<exists>r. ucc_ep_map_eval m i = Some r \<and> ucc_ep_map_local_rank m r = Some i"
    by (metis ep_map_wf_def local_rank_eval not_None_eq)
qed

section \<open>Maps from arrays\<close>

lemma get_elem_nat: "arr ! i < 2 ^ 32 \<Longrightarrow> ucc_ep_map_get_elem arr i is64 = int (arr ! i)"
  by (simp add: ucc_ep_map_get_elem_def u32_id s64_id)

lemma const_stride_loop_iff:
  "const_stride_loop arr is64 stride i n \<longleftrightarrow>
   (\<forall>j\<in>{i..<i + n}. s64 (ucc_ep_map_get_elem arr j is64 - ucc_ep_map_get_elem arr (j - 1) is64) = stride)"
proof (induction n arbitrary: i)
  case (Suc n)
  have "{i..<i + Suc n} = insert i {Suc i..<Suc i + n}" by auto
  then show ?case by (simp add: Suc.IH)
qed simp

lemma diff_elem_nat:
  assumes "arr ! i < 2 ^ 32" "arr ! j < 2 ^ 32"
  shows "s64 (ucc_ep_map_get_elem arr i is64 - ucc_ep_map_get_elem arr j is64)
    = int (arr ! i) - int (arr ! j)"
  using assms by (simp add: get_elem_nat s64_id)

lemma const_stride_values:
  assumes "\<forall>i<n. arr ! i < 2 ^ 32" "1 < n"
    and "const_stride_loop arr is64 (int (arr ! 1) - int (arr ! 0)) 2 (n - 2)" "i < n"
  shows "int (arr ! i) = int (arr ! 0) + int i * (int (arr ! 1) - int (arr ! 0))"
  using assms(4)
proof (induction i)
  case (Suc i)
  show ?case
  proof (cases "i = 0")
    case False
    have "int (arr ! Suc i) - int (arr ! i) = int (arr ! 1) - int (arr ! 0)"
      using assms(1-3) Suc.prems False diff_elem_nat [of arr "Suc i" i is64]
      by (auto simp: const_stride_loop_iff dest!: bspec [of _ _ "Suc i"])
    then show ?thesis using Suc by (simp add: algebra_simps)
  qed simp
qed simp

lemma from_array_generic_eval:
  assumes len: "n \<le> length arr" and lt: "\<forall>i<n. arr ! i < full" and full: "full \<le> 2 ^ 32"
    and i: "i < n"
  shows "ucc_ep_map_eval (fst (ucc_ep_map_from_array_generic arr n full need_free is64)) i
    = Some (arr ! i)"
proof -
  let ?st = "int (arr ! 1) - int (arr ! 0)"
  have lt32: "\<forall>i<n. arr ! i < 2 ^ 32" using lt full by auto
  have st: "s64 (ucc_ep_map_get_elem arr 1 is64 - ucc_ep_map_get_elem arr 0 is64) = ?st" if "1 < n"
    using lt32 that by (intro diff_elem_nat) simp_all
  show ?thesis
  proof (cases "1 < n \<and> const_stride_loop arr is64 ?st 2 (n - 2)")
    case True
    note vals = const_stride_values [OF lt32 conjunct1 [OF True] conjunct2 [OF True]]
    have e0: "ucc_ep_map_get_elem arr 0 is64 = int (arr ! 0)"
      using lt32 i by (intro get_elem_nat) simp
    show ?thesis
    proof (cases "?st = 1 \<and> n = full")
      case F: True
      have "int (arr ! (n - 1)) = int (arr ! 0) + int (n - 1)"
        using vals [of "n - 1"] F i by simp
      moreover have "arr ! (n - 1) < n" using lt F i by simp
      ultimately have "arr ! 0 = 0" by linarith
      then have "arr ! i = i" using vals [OF i] F by simp
      then show ?thesis
        using True F st by (simp add: ucc_ep_map_from_array_generic_def ucc_ep_map_eval_def)
    next
      case False
      have "arr ! 0 < 2 ^ 32" using lt32 i by simp
      then have "nat (int (arr ! 0) mod 2 ^ 64) = arr ! 0" by (subst mod_pos_pos_trivial) simp_all
      moreover have "u32_of_int (int (arr ! i)) = arr ! i" using lt32 i by (intro u32_of_int_nat) simp
      ultimately show ?thesis
        using True False st e0 vals [OF i]
        by (auto simp: ucc_ep_map_from_array_generic_def ucc_ep_map_eval_def Let_def)
    qed
  next
    case False
    then show ?thesis
      using len i lt32 st
      by (auto simp: ucc_ep_map_from_array_generic_def ucc_ep_map_eval_def u32_id Let_def)
  qed
qed

section \<open>Inverse maps\<close>

lemma max_rank_loop_bound:
  assumes "\<forall>j\<in>{i..<i + n}. ucc_ep_map_eval m j \<noteq> None"
  shows "\<exists>M. max_rank_loop m i n mx = Some M \<and> mx \<le> M
    \<and> (\<forall>j\<in>{i..<i + n}. the (ucc_ep_map_eval m j) \<le> M)
    \<and> (M = mx \<or> (\<exists>j\<in>{i..<i + n}. ucc_ep_map_eval m j = Some M))"
  using assms
proof (induction n arbitrary: i mx)
  case (Suc n)
  have ins: "{i..<i + Suc n} = insert i {Suc i..<Suc i + n}" by auto
  obtain q where q: "ucc_ep_map_eval m i = Some q" using Suc.prems by fastforce
  have d: "\<forall>j\<in>{Suc i..<Suc i + n}. ucc_ep_map_eval m j \<noteq> None" using Suc.prems by auto
  obtain M where M: "max_rank_loop m (Suc i) n (if q > mx then q else mx) = Some M"
      "(if q > mx then q else mx) \<le> M" "\<forall>j\<in>{Suc i..<Suc i + n}. the (ucc_ep_map_eval m j) \<le> M"
      "M = (if q > mx then q else mx) \<or> (\<exists>j\<in>{Suc i..<Suc i + n}. ucc_ep_map_eval m j = Some M)"
    using Suc.IH [OF d] by blast
  then show ?case using q unfolding ins by (intro exI [of _ M]) (auto split: if_splits)
qed simp

lemma inverse_fill_loop_fills:
  assumes "\<forall>j\<in>{i..<i + n}. \<exists>r. ucc_ep_map_eval m j = Some r \<and> r < length arr"
    and "inj_on (ucc_ep_map_eval m) {i..<i + n}"
  shows "\<exists>arr'. inverse_fill_loop m i n arr = Some arr' \<and> length arr' = length arr
    \<and> (\<forall>j\<in>{i..<i + n}. \<forall>r. ucc_ep_map_eval m j = Some r \<longrightarrow> arr' ! r = Some j)
    \<and> (\<forall>r. (\<forall>j\<in>{i..<i + n}. ucc_ep_map_eval m j \<noteq> Some r) \<longrightarrow> arr' ! r = arr ! r)"
  using assms
proof (induction n arbitrary: i arr)
  case (Suc n)
  have ins: "{i..<i + Suc n} = insert i {Suc i..<Suc i + n}" by auto
  obtain q where q: "ucc_ep_map_eval m i = Some q" "q < length arr" using Suc.prems(1) by fastforce
  have d: "\<forall>j\<in>{Suc i..<Suc i + n}. \<exists>r. ucc_ep_map_eval m j = Some r \<and> r < length (arr[q := Some i])"
    using Suc.prems(1) by auto
  have inj: "inj_on (ucc_ep_map_eval m) {Suc i..<Suc i + n}"
    using Suc.prems(2) unfolding ins by (auto dest: inj_on_diff intro: inj_on_subset)
  have nq: "\<forall>j\<in>{Suc i..<Suc i + n}. ucc_ep_map_eval m j \<noteq> Some q"
  proof (intro ballI notI)
    fix j assume "j \<in> {Suc i..<Suc i + n}" "ucc_ep_map_eval m j = Some q"
    then show False using inj_onD [OF Suc.prems(2), of j i] q(1) by simp
  qed
  obtain arr' where a: "inverse_fill_loop m (Suc i) n (arr[q := Some i]) = Some arr'"
      "length arr' = length arr"
    and filled: "\<forall>j\<in>{Suc i..<Suc i + n}. \<forall>r. ucc_ep_map_eval m j = Some r \<longrightarrow> arr' ! r = Some j"
    and kept: "\<And>r. \<forall>j\<in>{Suc i..<Suc i + n}. ucc_ep_map_eval m j \<noteq> Some r
      \<Longrightarrow> arr' ! r = arr[q := Some i] ! r"
    using Suc.IH [OF d inj] by (metis length_list_update)
  have "arr' ! q = Some i" using kept [OF nq] q(2) by simp
  then have "\<forall>j\<in>{i..<i + Suc n}. \<forall>r. ucc_ep_map_eval m j = Some r \<longrightarrow> arr' ! r = Some j"
    using filled q(1) unfolding ins by simp
  moreover have "arr' ! r = arr ! r" if "\<forall>j\<in>{i..<i + Suc n}. ucc_ep_map_eval m j \<noteq> Some r" for r
    using kept [of r] that q(1) unfolding ins by auto
  ultimately show ?case using a q by simp
qed auto

lemma is_reverse_wf:
  assumes "ep_map_wf m" "ucc_ep_map_is_reverse m False" "i < ep_num m"
  shows "ucc_ep_map_eval m i = Some (ep_num m - 1 - i)"
proof -
  have n: "ep_num m < 2 ^ 32" using assms(1) by (simp add: ep_map_wf_def)
  then have "sub64 (ep_num m) 1 = ep_num m - 1" using assms(3) by (intro sub64_id) simp_all
  then have t: "ep_type m = EP_MAP_STRIDED (ep_num m - 1) (-1)"
    using assms(2) by (auto simp: ucc_ep_map_is_reverse_def split: ep_map_kind.splits)
  have "nat (int (ep_num m - 1) - int i) = ep_num m - 1 - i" by (simp add: nat_diff_distrib')
  then show ?thesis
    using eval_strided [OF t, of "ep_num m" i] assms(1,3) t by (simp add: ep_map_wf_def)
qed

text \<open>A map whose values leave room for the table of \<open>max_rank + 1\<close> entries.\<close>

definition ep_map_invertible :: "ucc_ep_map \<Rightarrow> bool" where
  "ep_map_invertible m \<longleftrightarrow> ep_map_wf m
     \<and> (\<forall>i<ep_num m. ucc_ep_map_eval m i \<noteq> Some UCC_RANK_INVALID)"

lemma eval_lt_2_32:
  assumes "ep_map_wf m" "i < ep_num m" "ucc_ep_map_eval m i = Some r"
  shows "r < 2 ^ 32"
proof -
  have "ep_num m < 2 ^ 32" using assms(1) by (simp add: ep_map_wf_def)
  then show ?thesis
    using assms(2,3) unfolding ucc_ep_map_eval_def
    by (auto simp: u32_def u32_of_int_def UCC_RANK_INVALID_def nat_less_iff
        split: ep_map_kind.splits if_splits)
qed

lemma create_inverse_table:
  assumes "ep_map_invertible m" "\<not> ucc_ep_map_is_reverse m False"
  shows "\<exists>arr. ucc_ep_map_create_inverse True m False
      = Some (Inr \<lparr>ep_type = EP_MAP_ARRAY arr 4, ep_num = ep_num m\<rparr>)
    \<and> (\<forall>i<ep_num m. \<forall>r. ucc_ep_map_eval m i = Some r \<longrightarrow> r < length arr \<and> arr ! r = Some i)"
proof -
  let ?n = "ep_num m"
  have wf: "ep_map_wf m" and lt: "\<forall>i<?n. ucc_ep_map_eval m i \<noteq> Some UCC_RANK_INVALID"
    using assms(1) by (simp_all add: ep_map_invertible_def)
  then have d: "\<forall>j\<in>{0..<0 + ?n}. ucc_ep_map_eval m j \<noteq> None"
    and inj: "inj_on (ucc_ep_map_eval m) {0..<0 + ?n}"
    by (simp_all add: ep_map_wf_def lessThan_atLeast0)
  obtain M where M: "max_rank_loop m 0 ?n 0 = Some M"
    "\<forall>j\<in>{0..<0 + ?n}. the (ucc_ep_map_eval m j) \<le> M"
    "M = 0 \<or> (\<exists>j\<in>{0..<0 + ?n}. ucc_ep_map_eval m j = Some M)"
    using max_rank_loop_bound [OF d, of 0] by blast
  have "M + 1 < 2 ^ 32"
  proof (rule disjE [OF M(3)])
    assume "\<exists>j\<in>{0..<0 + ?n}. ucc_ep_map_eval m j = Some M"
    then obtain j where j: "j < ?n" "ucc_ep_map_eval m j = Some M" by auto
    then have "M < 2 ^ 32" "M \<noteq> 2 ^ 32 - 1"
      using eval_lt_2_32 [OF wf j] lt by (auto simp: UCC_RANK_INVALID_def)
    then show ?thesis by simp
  qed simp
  then have u: "u32 (M + 1) = M + 1" by (rule u32_id)
  define arr0 :: "nat option list" where "arr0 = replicate (M + 1) None"
  have len0: "length arr0 = M + 1" by (simp add: arr0_def)
  have le: "r < M + 1" if "i < ?n" "ucc_ep_map_eval m i = Some r" for i r
    using bspec [OF M(2), of i] that by simp
  have fits: "\<forall>j\<in>{0..<0 + ?n}. \<exists>r. ucc_ep_map_eval m j = Some r \<and> r < length arr0"
    using d le unfolding len0 by fastforce
  obtain arr where arr: "inverse_fill_loop m 0 ?n arr0 = Some arr" "length arr = M + 1"
    "\<forall>j\<in>{0..<0 + ?n}. \<forall>r. ucc_ep_map_eval m j = Some r \<longrightarrow> arr ! r = Some j"
    using inverse_fill_loop_fills [OF fits inj] unfolding len0 by blast
  have "ucc_ep_map_create_inverse True m False
      = Some (Inr \<lparr>ep_type = EP_MAP_ARRAY arr 4, ep_num = ep_num m\<rparr>)"
  proof -
    have "inverse_fill_loop m 0 ?n (replicate (u32 (M + 1)) None) = Some arr"
      using arr(1) unfolding u arr0_def .
    then show ?thesis using assms(2) M(1) unfolding ucc_ep_map_create_inverse_def by simp
  qed
  moreover have "\<forall>i<?n. \<forall>r. ucc_ep_map_eval m i = Some r \<longrightarrow> r < length arr \<and> arr ! r = Some i"
    using arr(2,3) le by simp
  ultimately show ?thesis by blast
qed

lemma create_inverse_eval:
  assumes "ep_map_invertible m"
  shows "\<exists>inv. ucc_ep_map_create_inverse True m False = Some (Inr inv) \<and> ep_num inv = ep_num m
    \<and> (\<forall>i<ep_num m. \<forall>r. ucc_ep_map_eval m i = Some r \<longrightarrow> ucc_ep_map_eval inv r = Some i)"
proof (cases "ucc_ep_map_is_reverse m False")
  case True
  have wf: "ep_map_wf m" using assms by (simp add: ep_map_invertible_def)
  have "ucc_ep_map_eval m r = Some i" if "i < ep_num m" "ucc_ep_map_eval m i = Some r" for i r
  proof -
    have "r = ep_num m - 1 - i" using is_reverse_wf [OF wf True that(1)] that(2) by simp
    then show ?thesis using is_reverse_wf [OF wf True, of r] that(1) by simp
  qed
  moreover have "ucc_ep_map_create_inverse True m False = Some (Inr m)"
    using True by (simp add: ucc_ep_map_create_inverse_def)
  ultimately show ?thesis by blast
next
  case False
  have "ep_num m < 2 ^ 32" using assms by (simp add: ep_map_invertible_def ep_map_wf_def)
  then have u: "u32 i = i" if "i < ep_num m" for i using that by (intro u32_id) simp
  obtain arr where c: "ucc_ep_map_create_inverse True m False
        = Some (Inr \<lparr>ep_type = EP_MAP_ARRAY arr 4, ep_num = ep_num m\<rparr>)"
    and a: "\<And>i r. i < ep_num m \<Longrightarrow> ucc_ep_map_eval m i = Some r \<Longrightarrow> r < length arr \<and> arr ! r = Some i"
    using create_inverse_table [OF assms False] by blast
  have "ucc_ep_map_eval \<lparr>ep_type = EP_MAP_ARRAY arr 4, ep_num = ep_num m\<rparr> r = Some i"
    if i: "i < ep_num m" "ucc_ep_map_eval m i = Some r" for i r
    using a [OF i] u [OF i(1)] unfolding ucc_ep_map_eval_def by simp
  moreover have "ep_num \<lparr>ep_type = EP_MAP_ARRAY arr 4, ep_num = ep_num m\<rparr> = ep_num m" by simp
  ultimately show ?thesis using c by blast
qed

definition eval_inverse :: "ucc_ep_map \<Rightarrow> ucc_rank \<Rightarrow> ucc_rank option" where
  "eval_inverse m r =
     (case ucc_ep_map_create_inverse True m False of
        Some (Inr im) \<Rightarrow> ucc_ep_map_eval im r
      | _ \<Rightarrow> None)"

interpretation ep_inv: rank_map ep_map_invertible ep_num ucc_ep_map_eval eval_inverse
proof unfold_locales
  fix m i assume a: "ep_map_invertible m" "i < ep_num m"
  then obtain r where "ucc_ep_map_eval m i = Some r"
    using ep.ev_defined [of m i] by (auto simp: ep_map_invertible_def)
  then show "\<exists>r. ucc_ep_map_eval m i = Some r \<and> eval_inverse m r = Some i"
    using create_inverse_eval [OF a(1)] a(2) unfolding eval_inverse_def by force
qed

section \<open>Reverse and nested maps\<close>

lemma reverse_is_reverse:
  assumes "0 < n" "n < 2 ^ 32"
  shows "ucc_ep_map_is_reverse (ucc_ep_map_create_reverse n) False"
  using assms by (simp add: ucc_ep_map_is_reverse_def ucc_ep_map_create_reverse_def sub32_id sub64_id)

lemma reverse_strided_ok: "0 < n \<Longrightarrow> n < 2 ^ 32 \<Longrightarrow> strided_ok (n - 1) (-1) n"
  by (auto simp: strided_ok_def)

lemma strided_wf:
  assumes "ep_type m = EP_MAP_STRIDED start stride" "strided_ok start stride (ep_num m)" "ep_num m < 2 ^ 32"
  shows "ep_map_wf m"
proof -
  have "inj_on (ucc_ep_map_eval m) {..<ep_num m}"
  proof (rule inj_onI)
    fix i j assume "i \<in> {..<ep_num m}" "j \<in> {..<ep_num m}" "ucc_ep_map_eval m i = ucc_ep_map_eval m j"
    then have "nat (int start + int i * stride) = nat (int start + int j * stride)"
      using eval_strided [OF assms(1,2)] by simp
    then have "int i * stride = int j * stride"
      using assms(2) \<open>i \<in> _\<close> \<open>j \<in> _\<close> by (simp add: strided_ok_def eq_nat_nat_iff)
    then show "i = j" using assms(2) by (simp add: strided_ok_def)
  qed
  then show ?thesis using assms by (simp add: ep_map_wf_def eval_strided [OF assms(1,2)])
qed

lemma reverse_wf: "0 < n \<Longrightarrow> n < 2 ^ 32 \<Longrightarrow> ep_map_wf (ucc_ep_map_create_reverse n)"
  by (rule strided_wf [where start = "n - 1" and stride = "-1"])
    (use reverse_strided_ok [of n] in \<open>simp_all add: ucc_ep_map_create_reverse_def sub32_id\<close>)

lemma nested_eval:
  assumes "ucc_ep_map_create_nested True base sub = Inr nested" "i < 2 ^ 32"
    and "ucc_ep_map_eval sub i = Some j" "ucc_ep_map_eval base j = Some r" "r < 2 ^ 32"
  shows "ucc_ep_map_eval nested i = Some r"
  using assms
  by (auto simp: ucc_ep_map_create_nested_def ucc_ep_map_eval_def [of "\<lparr>ep_type = EP_MAP_CB _, ep_num = _\<rparr>"]
      ucc_ep_map_nested_cb_def u32_id)

lemma nested_wf:
  assumes "ep_map_wf base" "ep_map_wf sub"
    and "\<And>i j. i < ep_num sub \<Longrightarrow> ucc_ep_map_eval sub i = Some j \<Longrightarrow> j < ep_num base"
    and "ucc_ep_map_create_nested True base sub = Inr nested"
  shows "ep_map_wf nested"
proof -
  have num: "ep_num nested = ep_num sub" and ty: "ep_type nested = EP_MAP_CB (ucc_ep_map_nested_cb base sub)"
    using assms(4) by (auto simp: ucc_ep_map_create_nested_def)
  have lt: "ep_num sub < 2 ^ 32" using assms(2) by (simp add: ep_map_wf_def)
  have ex: "\<exists>j r. ucc_ep_map_eval sub i = Some j \<and> j < ep_num base \<and> ucc_ep_map_eval base j = Some r
      \<and> ucc_ep_map_eval nested i = Some r" if i: "i < ep_num sub" for i
  proof -
    obtain j where j: "ucc_ep_map_eval sub i = Some j" using ep.ev_defined [OF assms(2) i] by auto
    obtain r where r: "ucc_ep_map_eval base j = Some r"
      using ep.ev_defined [OF assms(1) assms(3) [OF i j]] by auto
    have "r < 2 ^ 32" using eval_lt_2_32 [OF assms(1) assms(3) [OF i j] r] .
    then show ?thesis using nested_eval [OF assms(4) _ j r] lt i j r assms(3) by auto
  qed
  have "inj_on (ucc_ep_map_eval nested) {..<ep_num sub}"
  proof (rule inj_onI)
    fix i i' assume "i \<in> {..<ep_num sub}" "i' \<in> {..<ep_num sub}"
      "ucc_ep_map_eval nested i = ucc_ep_map_eval nested i'"
    then obtain j j' where "ucc_ep_map_eval sub i = Some j" "ucc_ep_map_eval sub i' = Some j'"
        "j < ep_num base" "j' < ep_num base" "ucc_ep_map_eval base j = ucc_ep_map_eval base j'"
      using ex [of i] ex [of i'] by auto
    then show "i = i'"
      using inj_onD [OF ep.ev_inj [OF assms(1)], of j j'] inj_onD [OF ep.ev_inj [OF assms(2)], of i i']
        \<open>i \<in> _\<close> \<open>i' \<in> _\<close> by simp
  qed
  moreover have "\<forall>i<ep_num sub. ucc_ep_map_eval nested i \<noteq> None"
    using ex by (metis option.distinct(1))
  ultimately show ?thesis using num ty lt by (simp add: ep_map_wf_def)
qed

section \<open>Properties\<close>

text \<open>
  C19: looking up the image of a rank under a well-formed endpoint map, of any kind, gives the
  rank back.
\<close>

theorem ep_map_local_rank_roundtrip:
  assumes "ep_map_wf m" "i < ep_num m"
  shows "\<exists>r. ucc_ep_map_eval m i = Some r \<and> ucc_ep_map_local_rank m r = Some i"
  by (rule ep.loc_ev [OF assms])

theorem ep_map_local_rank_roundtrip_witness:
  "\<exists>r. ucc_ep_map_eval (ucc_ep_map_create_reverse 5) 1 = Some r
    \<and> ucc_ep_map_local_rank (ucc_ep_map_create_reverse 5) r = Some 1"
  using ep_map_local_rank_roundtrip [of "ucc_ep_map_create_reverse 5" 1] reverse_wf [of 5]
  by (simp add: ucc_ep_map_create_reverse_def)

text \<open>
  a map built from an array of ranks of a space of \<open>full\<close> ranks evaluates to the entries of
  the array, whether the constructor chose the full, the strided or the array representation,
  from 32-bit and from 64-bit arrays.
\<close>

theorem ep_map_from_array_eval:
  assumes "n \<le> length arr" "\<forall>i<n. arr ! i < full" "full \<le> 2 ^ 32" "i < n"
  shows "ucc_ep_map_eval (fst (ucc_ep_map_from_array arr n full need_free)) i = Some (arr ! i)
    \<and> ucc_ep_map_eval (fst (ucc_ep_map_from_array_64 arr n full need_free)) i = Some (arr ! i)"
  using from_array_generic_eval [OF assms]
  by (simp add: ucc_ep_map_from_array_def ucc_ep_map_from_array_64_def)

theorem ep_map_from_array_eval_witness:
  "ucc_ep_map_eval (fst (ucc_ep_map_from_array [2, 4, 6] 3 8 True)) 2 = Some 6"
  using ep_map_from_array_eval [of 3 "[2, 4, 6]" 8 2 True]
  by (simp add: less_Suc_eq numeral_3_eq_3)

text \<open>
  the inverse of a map, built with room for its greatest rank, takes the image of each rank
  back to the rank; for the reverse map, which is returned unchanged, too.
\<close>

theorem ep_map_inverse_roundtrip:
  assumes "ep_map_invertible m"
  shows "\<exists>im. ucc_ep_map_create_inverse True m False = Some (Inr im) \<and> ep_num im = ep_num m
    \<and> (\<forall>i<ep_num m. Option.bind (ucc_ep_map_eval m i) (ucc_ep_map_eval im) = Some i)"
proof -
  obtain im where im: "ucc_ep_map_create_inverse True m False = Some (Inr im)" "ep_num im = ep_num m"
    "\<And>i r. i < ep_num m \<Longrightarrow> ucc_ep_map_eval m i = Some r \<Longrightarrow> ucc_ep_map_eval im r = Some i"
    using create_inverse_eval [OF assms] by auto
  have "Option.bind (ucc_ep_map_eval m i) (ucc_ep_map_eval im) = Some i" if "i < ep_num m" for i
    using ep_inv.ev_defined [OF assms that] im(3) [OF that] by auto
  then show ?thesis using im(1,2) by blast
qed

definition example_map :: ucc_ep_map where
  "example_map = \<lparr>ep_type = EP_MAP_STRIDED 3 2, ep_num = 4\<rparr>"

lemma example_map_invertible: "ep_map_invertible example_map"
proof -
  have ok: "strided_ok 3 2 4" by (simp add: strided_ok_def)
  have t: "ep_type example_map = EP_MAP_STRIDED 3 2" "ep_num example_map = 4"
    by (simp_all add: example_map_def)
  have "ep_map_wf example_map" by (rule strided_wf [OF t(1)]) (use ok t in simp_all)
  moreover have "ucc_ep_map_eval example_map i \<noteq> Some UCC_RANK_INVALID" if "i < 4" for i
    unfolding eval_strided [OF t(1) ok that] UCC_RANK_INVALID_def using that by simp
  ultimately show ?thesis by (simp add: ep_map_invertible_def t)
qed

theorem ep_map_inverse_roundtrip_witness:
  "\<exists>im. ucc_ep_map_create_inverse True example_map False = Some (Inr im)
    \<and> Option.bind (ucc_ep_map_eval example_map 2) (ucc_ep_map_eval im) = Some 2"
  using ep_map_inverse_roundtrip [OF example_map_invertible] by (auto simp: example_map_def)

text \<open>
  C20: nesting a well-formed map of a subset into a well-formed base map gives a well-formed map
  that evaluates the two in turn and whose lookup inverts it.
\<close>

theorem ep_map_nested_correct:
  assumes "ep_map_wf base" "ep_map_wf sub"
    and "\<forall>i<ep_num sub. \<exists>j<ep_num base. ucc_ep_map_eval sub i = Some j"
    and "ucc_ep_map_create_nested True base sub = Inr nested"
  shows "ep_map_wf nested \<and> ep_num nested = ep_num sub
    \<and> (\<forall>i<ep_num sub. ucc_ep_map_eval nested i
          = Option.bind (ucc_ep_map_eval sub i) (ucc_ep_map_eval base)
        \<and> Option.bind (ucc_ep_map_eval nested i) (ucc_ep_map_local_rank nested) = Some i)"
proof -
  have num: "ep_num nested = ep_num sub" using assms(4) by (auto simp: ucc_ep_map_create_nested_def)
  have lt: "ep_num sub < 2 ^ 32" using assms(2) by (simp add: ep_map_wf_def)
  have wf: "ep_map_wf nested" using assms(3) by (intro nested_wf [OF assms(1,2) _ assms(4)]) fastforce
  have "ucc_ep_map_eval nested i = Option.bind (ucc_ep_map_eval sub i) (ucc_ep_map_eval base)"
    if i: "i < ep_num sub" for i
  proof -
    obtain j where j: "j < ep_num base" "ucc_ep_map_eval sub i = Some j" using assms(3) i by auto
    obtain r where r: "ucc_ep_map_eval base j = Some r" using ep.ev_defined [OF assms(1) j(1)] by auto
    show ?thesis
      using nested_eval [OF assms(4) _ j(2) r eval_lt_2_32 [OF assms(1) j(1) r]] lt i j r by simp
  qed
  moreover have "Option.bind (ucc_ep_map_eval nested i) (ucc_ep_map_local_rank nested) = Some i"
    if "i < ep_num sub" for i
    using ep.loc_ev [OF wf, of i] num that by auto
  ultimately show ?thesis using wf num by simp
qed

theorem ep_map_nested_correct_witness:
  "\<exists>nested. ucc_ep_map_create_nested True example_map (ucc_ep_map_create_reverse 4) = Inr nested
    \<and> ep_map_wf nested \<and> ucc_ep_map_eval nested 1 = Some 7"
proof -
  let ?rev = "ucc_ep_map_create_reverse 4"
  obtain nested where n: "ucc_ep_map_create_nested True example_map ?rev = Inr nested"
    by (simp add: ucc_ep_map_create_nested_def)
  have ev: "ucc_ep_map_eval ?rev i = Some (3 - i)" if "i < 4" for i
    using is_reverse_wf [OF reverse_wf reverse_is_reverse, of 4 i] that
    by (simp add: ucc_ep_map_create_reverse_def)
  have wf: "ep_map_wf example_map" using example_map_invertible by (simp add: ep_map_invertible_def)
  have num: "ep_num ?rev = 4" "ep_num example_map = 4"
    by (simp_all add: ucc_ep_map_create_reverse_def example_map_def)
  have inside: "\<forall>i<ep_num ?rev. \<exists>j<ep_num example_map. ucc_ep_map_eval ?rev i = Some j"
    using ev num by auto
  have "ucc_ep_map_eval nested 1 = Option.bind (ucc_ep_map_eval ?rev 1) (ucc_ep_map_eval example_map)"
    and "ep_map_wf nested"
    using ep_map_nested_correct [OF wf reverse_wf inside n] num by simp_all
  then show ?thesis
    using n ev [of 1] by (simp add: example_map_def ucc_ep_map_eval_def u32_of_int_def)
qed

end
