(* ===== verification/Coll_Score.thy ===== *)
theory Coll_Score
  imports Coll_Types
begin

text \<open>
  The score tables of \<open>src/coll_score/ucc_coll_score.c\<close>: for every collective type and memory
  type a list of message-size ranges, each with a score, an init function, a team and a list of
  fallbacks. Tables of several components are merged by the greater score, updated by a table
  the user gave, and turned into the map of \<open>ucc_coll_score_map.c\<close> that selects the init
  function of a collective.

  An intrusive list of the source is a list here, in the order of the links. Allocation is
  assumed to succeed in this theory: the branches that return \<open>UCC_ERR_NO_MEMORY\<close> release what
  was built and are left out.
\<close>

section \<open>Ranges and tables\<close>

text \<open>An init function and a team are named by their addresses; a null function is \<open>None\<close>.\<close>

record ucc_coll_entry =
  ce_score :: int
  ce_init :: "nat option"
  ce_team :: nat

record ucc_msg_range =
  r_super :: ucc_coll_entry
  r_fallback :: "ucc_coll_entry list"
  r_start :: nat
  r_end :: nat

type_synonym ucc_coll_score = "ucc_coll_type \<Rightarrow> ucc_memory_type \<Rightarrow> ucc_msg_range list"

definition UCC_SCORE_MAX :: int where "UCC_SCORE_MAX = 2 ^ 31 - 1"

definition UCC_SCORE_INVALID :: int where "UCC_SCORE_INVALID = -1"

definition UCC_MSG_MAX :: nat where "UCC_MSG_MAX = 2 ^ 64 - 1"

definition ucc_coll_score_alloc :: ucc_coll_score where
  "ucc_coll_score_alloc = (\<lambda>ct mt. [])"

text \<open>
  The scan of \<open>coll_score_add_range\<close>: the new range goes behind every range that ends at or
  before its start; it is refused when the range behind it starts before its end.
\<close>

fun range_insert :: "ucc_msg_range \<Rightarrow> ucc_msg_range list \<Rightarrow> ucc_msg_range list option" where
  "range_insert r [] = Some [r]"
| "range_insert r (rg # rs) =
     (if r_start r \<ge> r_end rg then map_option (Cons rg) (range_insert r rs)
      else if r_start rg < r_end r then None
      else Some (r # rg # rs))"

definition score_put ::
    "ucc_coll_score \<Rightarrow> ucc_coll_type \<Rightarrow> ucc_memory_type \<Rightarrow> ucc_msg_range list \<Rightarrow> ucc_coll_score" where
  "score_put score ct mt l = score(ct := (score ct)(mt := l))"

definition coll_score_add_range ::
    "ucc_coll_score \<Rightarrow> ucc_coll_type \<Rightarrow> ucc_memory_type \<Rightarrow> nat \<Rightarrow> nat \<Rightarrow> int \<Rightarrow> nat option \<Rightarrow> nat
     \<Rightarrow> ucc_status \<times> ucc_coll_score" where
  "coll_score_add_range score ct mt s e msg_score init team =
     (if s \<ge> e then (UCC_ERR_INVALID_PARAM, score)
      else
        let r = \<lparr>r_super = \<lparr>ce_score = msg_score, ce_init = init, ce_team = team\<rparr>,
                 r_fallback = [], r_start = s, r_end = e\<rparr>
        in case range_insert r (score ct mt) of
             None \<Rightarrow> (UCC_ERR_INVALID_PARAM, score)
           | Some l \<Rightarrow> (UCC_OK, score_put score ct mt l))"

definition ucc_coll_score_add_range ::
    "ucc_coll_score \<Rightarrow> ucc_coll_type \<Rightarrow> ucc_memory_type \<Rightarrow> nat \<Rightarrow> nat \<Rightarrow> int \<Rightarrow> nat option \<Rightarrow> nat
     \<Rightarrow> ucc_status \<times> ucc_coll_score" where
  "ucc_coll_score_add_range score ct mt s e msg_score init team =
     (if msg_score = 0 then (UCC_OK, score)
      else coll_score_add_range score ct mt s e msg_score init team)"

section \<open>Fallbacks\<close>

fun ucc_fallback_insert :: "ucc_coll_entry list \<Rightarrow> ucc_coll_entry \<Rightarrow> ucc_coll_entry list" where
  "ucc_fallback_insert [] fb = [fb]"
| "ucc_fallback_insert (f # fs) fb =
     (if ce_score fb = ce_score f \<and> ce_init fb = ce_init f \<and> ce_team fb = ce_team f then f # fs
      else if ce_score fb < ce_score f then f # ucc_fallback_insert fs fb
      else fb # f # fs)"

definition ucc_fallback_copy :: "ucc_msg_range \<Rightarrow> ucc_msg_range \<Rightarrow> ucc_msg_range" where
  "ucc_fallback_copy rin rout =
     rout\<lparr>r_fallback := foldl ucc_fallback_insert (r_fallback rout) (r_fallback rin)\<rparr>"

definition ucc_msg_range_dup :: "ucc_msg_range \<Rightarrow> ucc_msg_range" where
  "ucc_msg_range_dup rin = ucc_fallback_copy rin (rin\<lparr>r_fallback := []\<rparr>)"

definition same_entry_fn :: "ucc_msg_range \<Rightarrow> ucc_msg_range \<Rightarrow> bool" where
  "same_entry_fn a b =
     (ce_init (r_super a) = ce_init (r_super b) \<and> ce_team (r_super a) = ce_team (r_super b))"

definition ucc_msg_range_add_fallback :: "ucc_msg_range \<Rightarrow> ucc_msg_range \<Rightarrow> ucc_msg_range" where
  "ucc_msg_range_add_fallback rin rout =
     (if same_entry_fn rin rout then rout
      else let out1 = ucc_fallback_copy rin rout
           in out1\<lparr>r_fallback := ucc_fallback_insert (r_fallback out1) (r_super rin)\<rparr>)"

definition ucc_score_list_dup :: "ucc_msg_range list \<Rightarrow> ucc_msg_range list" where
  "ucc_score_list_dup l = map ucc_msg_range_dup l"

text \<open>The comparison loop walks both lists; equal lengths were checked before.\<close>

fun fb_compare_loop :: "ucc_coll_entry list \<Rightarrow> ucc_coll_entry list \<Rightarrow> bool" where
  "fb_compare_loop (a # as) (b # bs) =
     (if ce_score a \<noteq> ce_score b \<or> ce_init a \<noteq> ce_init b \<or> ce_team a \<noteq> ce_team b then False
      else fb_compare_loop as bs)"
| "fb_compare_loop _ _ = True"

definition ucc_msg_range_fb_compare :: "ucc_msg_range \<Rightarrow> ucc_msg_range \<Rightarrow> bool" where
  "ucc_msg_range_fb_compare r1 r2 =
     (if length (r_fallback r1) \<noteq> length (r_fallback r2) then False
      else fb_compare_loop (r_fallback r1) (r_fallback r2))"

section \<open>Merging two lists of ranges\<close>

text \<open>
  The main loop of \<open>ucc_coll_score_merge_one\<close> on the two duplicated lists; the result is what
  the loop appends to \<open>out\<close>, in order. In the branch of equal starts and different ends
  \<open>left\<close> is the range that ends first.
\<close>

definition merge_best :: "ucc_msg_range \<Rightarrow> ucc_msg_range \<Rightarrow> ucc_msg_range" where
  "merge_best r1 r2 =
     (if ce_score (r_super r1) > ce_score (r_super r2) then ucc_msg_range_add_fallback r2 r1
      else ucc_msg_range_add_fallback r1 r2)"

definition merge_prefix :: "ucc_msg_range \<Rightarrow> ucc_msg_range \<Rightarrow> ucc_msg_range" where
  "merge_prefix left right =
     (let new = (ucc_msg_range_dup right)\<lparr>r_end := r_end left\<rparr>
      in if ce_score (r_super left) < ce_score (r_super new)
         then ucc_msg_range_add_fallback left new
         else ucc_msg_range_add_fallback new left)"

definition merge_cut :: "ucc_msg_range \<Rightarrow> nat \<Rightarrow> ucc_msg_range" where
  "merge_cut left e = (ucc_msg_range_dup left)\<lparr>r_end := e\<rparr>"

function merge_loop :: "ucc_msg_range list \<Rightarrow> ucc_msg_range list \<Rightarrow> ucc_msg_range list" where
  "merge_loop [] [] = []"
| "merge_loop [] (r2 # l2) = r2 # merge_loop [] l2"
| "merge_loop (r1 # l1) [] = r1 # merge_loop l1 []"
| "merge_loop (r1 # l1) (r2 # l2) =
     (if r_start r1 = r_start r2 then
        if r_end r1 = r_end r2 then merge_best r1 r2 # merge_loop l1 l2
        else if r_end r1 < r_end r2
        then merge_prefix r1 r2 # merge_loop l1 (r2\<lparr>r_start := r_end r1\<rparr> # l2)
        else merge_prefix r2 r1 # merge_loop (r1\<lparr>r_start := r_end r2\<rparr> # l1) l2
      else if r_start r1 < r_start r2 then
        if r_end r1 \<le> r_start r2 then r1 # merge_loop l1 (r2 # l2)
        else merge_cut r1 (r_start r2) # merge_loop (r1\<lparr>r_start := r_start r2\<rparr> # l1) (r2 # l2)
      else
        if r_end r2 \<le> r_start r1 then r2 # merge_loop (r1 # l1) l2
        else merge_cut r2 (r_start r1) # merge_loop (r1 # l1) (r2\<lparr>r_start := r_start r1\<rparr> # l2))"
  by pat_completeness auto

termination
  by (relation "measure (\<lambda>(l1, l2). 2 * (length l1 + length l2)
      + (case (l1, l2) of (r1 # _, r2 # _) \<Rightarrow> if r_start r1 = r_start r2 then 0 else 1 | _ \<Rightarrow> 0))")
    (auto split: list.splits)

text \<open>Consecutive ranges with equal entries and fallbacks are joined, from the left.\<close>

definition can_join :: "ucc_msg_range \<Rightarrow> ucc_msg_range \<Rightarrow> bool" where
  "can_join rg nxt =
     (ce_score (r_super rg) = ce_score (r_super nxt) \<and> r_end rg = r_start nxt
      \<and> ce_init (r_super rg) = ce_init (r_super nxt)
      \<and> ce_team (r_super rg) = ce_team (r_super nxt)
      \<and> ucc_msg_range_fb_compare rg nxt)"

function join_ranges :: "ucc_msg_range list \<Rightarrow> ucc_msg_range list" where
  "join_ranges [] = []"
| "join_ranges [rg] = [rg]"
| "join_ranges (rg # nxt # rs) =
     (if can_join rg nxt then join_ranges (nxt\<lparr>r_start := r_start rg\<rparr> # rs)
      else rg # join_ranges (nxt # rs))"
  by pat_completeness auto

termination
  by (relation "measure length") auto

definition ucc_coll_score_merge_one :: "ucc_msg_range list \<Rightarrow> ucc_msg_range list \<Rightarrow> ucc_msg_range list" where
  "ucc_coll_score_merge_one list1 list2 =
     (if list1 = [] \<and> list2 = [] then []
      else if list1 = [] then ucc_score_list_dup list2
      else if list2 = [] then ucc_score_list_dup list1
      else join_ranges (merge_loop (ucc_score_list_dup list1) (ucc_score_list_dup list2)))"

definition ucc_coll_score_merge :: "ucc_coll_score \<Rightarrow> ucc_coll_score \<Rightarrow> ucc_coll_score" where
  "ucc_coll_score_merge score1 score2 =
     (\<lambda>ct mt. if ct \<in> set coll_types \<and> mt \<in> set mem_types
              then ucc_coll_score_merge_one (score1 ct mt) (score2 ct mt)
              else ucc_coll_score_alloc ct mt)"

definition ucc_coll_score_merge_in :: "ucc_coll_score \<Rightarrow> ucc_coll_score \<Rightarrow> ucc_coll_score" where
  "ucc_coll_score_merge_in dst src = ucc_coll_score_merge src dst"

section \<open>Updating a list of ranges\<close>

text \<open>
  The pieces of \<open>ucc_coll_score_update_one\<close>. A range of the update with score
  \<open>UCC_SCORE_INVALID\<close> leaves the score alone, one without an init function leaves the init
  function and team alone. The entry saved as a fallback is the one \<open>rd->super\<close> holds at that
  point: after its score was overwritten when the range is changed in place, before when a
  duplicate is changed.
\<close>

definition upd_score :: "ucc_msg_range \<Rightarrow> ucc_msg_range \<Rightarrow> ucc_msg_range" where
  "upd_score rs r =
     (if UCC_SCORE_INVALID \<noteq> ce_score (r_super rs)
      then r\<lparr>r_super := (r_super r)\<lparr>ce_score := ce_score (r_super rs)\<rparr>\<rparr>
      else r)"

definition upd_init :: "ucc_coll_entry \<Rightarrow> ucc_msg_range \<Rightarrow> ucc_msg_range \<Rightarrow> ucc_msg_range" where
  "upd_init saved rs r =
     (if ce_init (r_super rs) \<noteq> None then
        let r1 = (if ce_init (r_super rs) \<noteq> ce_init saved
                  then r\<lparr>r_fallback := ucc_fallback_insert (r_fallback r) saved\<rparr> else r)
        in r1\<lparr>r_super := (r_super r1)\<lparr>ce_init := ce_init (r_super rs), ce_team := ce_team (r_super rs)\<rparr>\<rparr>
      else r)"

definition upd_in_place :: "ucc_msg_range \<Rightarrow> ucc_msg_range \<Rightarrow> ucc_msg_range" where
  "upd_in_place rs rd = upd_init (r_super (upd_score rs rd)) rs (upd_score rs rd)"

definition upd_dup :: "ucc_msg_range \<Rightarrow> ucc_msg_range \<Rightarrow> ucc_msg_range" where
  "upd_dup rs rd = upd_init (r_super rd) rs (upd_score rs ((ucc_msg_range_dup rd)\<lparr>r_end := r_end rs\<rparr>))"

definition upd_fill :: "int \<Rightarrow> ucc_msg_range \<Rightarrow> ucc_msg_range" where
  "upd_fill default_score rs =
     (let new = ucc_msg_range_dup rs
      in if ce_score (r_super new) = UCC_SCORE_INVALID
         then new\<lparr>r_super := (r_super new)\<lparr>ce_score := default_score\<rparr>\<rparr> else new)"

text \<open>
  The two loops: the first argument are the ranges from cursor \<open>s\<close> on, the second those from
  cursor \<open>d\<close> on; the result is the list from \<open>d\<close> on at the end, with everything inserted
  before \<open>d\<close> in front.
\<close>

function update_loop :: "int \<Rightarrow> ucc_msg_range list \<Rightarrow> ucc_msg_range list \<Rightarrow> ucc_msg_range list" where
  "update_loop ds [] dl = dl"
| "update_loop ds (rs # sl) [] =
     (if ce_init (r_super rs) \<noteq> None then [upd_fill ds rs] else []) @ update_loop ds sl []"
| "update_loop ds (rs # sl) (rd # dl) =
     (if r_start rd \<ge> r_end rs then
        (if ce_init (r_super rs) \<noteq> None then [upd_fill ds rs] else []) @ update_loop ds sl (rd # dl)
      else if r_end rd \<le> r_start rs then rd # update_loop ds (rs # sl) dl
      else if r_start rd < r_start rs then
        (ucc_msg_range_dup rd)\<lparr>r_end := r_start rs\<rparr>
          # update_loop ds (rs # sl) (rd\<lparr>r_start := r_start rs\<rparr> # dl)
      else if r_start rd > r_start rs then
        (if ce_init (r_super rs) \<noteq> None then [(upd_fill ds rs)\<lparr>r_end := r_start rd\<rparr>] else [])
          @ update_loop ds (rs\<lparr>r_start := r_start rd\<rparr> # sl) (rd # dl)
      else if r_end rs > r_end rd then
        upd_in_place rs rd # update_loop ds (rs\<lparr>r_start := r_end rd\<rparr> # sl) dl
      else if r_end rs < r_end rd then
        upd_dup rs rd # update_loop ds sl (rd\<lparr>r_start := r_end rs\<rparr> # dl)
      else upd_in_place rs rd # update_loop ds sl dl)"
  by pat_completeness auto

termination
  by (relation "measure (\<lambda>(ds, l1, l2). 2 * (length l1 + length l2)
      + (case (l1, l2) of (r1 # _, r2 # _) \<Rightarrow> if r_start r1 = r_start r2 then 0 else 1 | _ \<Rightarrow> 0))")
    (auto split: list.splits)

definition ucc_coll_score_update_one ::
    "ucc_msg_range list \<Rightarrow> ucc_msg_range list \<Rightarrow> int \<Rightarrow> ucc_msg_range list" where
  "ucc_coll_score_update_one dest src default_score =
     (if src = [] \<and> dest = [] then dest
      else join_ranges (filter (\<lambda>r. ce_score (r_super r) \<noteq> 0) (update_loop default_score src dest)))"

text \<open>
  \<open>ucc_coll_score_update\<close>: the pairs visited are those of the collectives in the bit mask
  \<open>colls\<close> and of the first \<open>mt_n\<close> memory types of \<open>mtypes\<close>, or of the enumeration when
  \<open>mtypes\<close> is null; \<open>mt_n = 0\<close> stands for all of them. The memory types are distinct, so each
  list is updated once.
\<close>

definition colls_of_mask :: "nat \<Rightarrow> ucc_coll_type list" where
  "colls_of_mask colls = filter (\<lambda>ct. ucc_bit_set colls (coll_type_index ct)) coll_types"

definition update_mtypes :: "ucc_memory_type list option \<Rightarrow> nat \<Rightarrow> ucc_memory_type list" where
  "update_mtypes mtypes mt_n =
     (let n = (if mt_n = 0 then length mem_types else mt_n)
      in take n (case mtypes of None \<Rightarrow> mem_types | Some l \<Rightarrow> l))"

definition ucc_coll_score_update ::
    "ucc_coll_score \<Rightarrow> ucc_coll_score \<Rightarrow> int \<Rightarrow> ucc_memory_type list option \<Rightarrow> nat \<Rightarrow> nat \<Rightarrow> ucc_coll_score" where
  "ucc_coll_score_update score update default_score mtypes mt_n colls =
     foldl (\<lambda>s (ct, mt). score_put s ct mt (ucc_coll_score_update_one (s ct mt) (update ct mt) default_score))
       score (List.product (colls_of_mask colls) (update_mtypes mtypes mt_n))"

section \<open>Default tables, duplicates and resets\<close>

fun build_default_loop ::
    "(ucc_coll_type \<times> ucc_memory_type) list \<Rightarrow> int \<Rightarrow> nat option \<Rightarrow> nat \<Rightarrow> ucc_coll_score
     \<Rightarrow> ucc_status + ucc_coll_score" where
  "build_default_loop [] default_score default_init team score = Inr score"
| "build_default_loop ((ct, mt) # ps) default_score default_init team score =
     (case ucc_coll_score_add_range score ct mt 0 UCC_MSG_MAX default_score default_init team of
        (UCC_OK, score') \<Rightarrow> build_default_loop ps default_score default_init team score'
      | (st, _) \<Rightarrow> Inl st)"

definition ucc_coll_score_build_default ::
    "nat \<Rightarrow> int \<Rightarrow> nat option \<Rightarrow> nat \<Rightarrow> ucc_memory_type list option \<Rightarrow> nat \<Rightarrow> ucc_status + ucc_coll_score" where
  "ucc_coll_score_build_default team default_score default_init colls mts mt_n =
     (let l = (case mts of None \<Rightarrow> mem_types | Some l \<Rightarrow> take mt_n l)
      in build_default_loop (List.product (colls_of_mask colls) l) default_score default_init team
           ucc_coll_score_alloc)"

definition ucc_coll_score_dup :: "ucc_coll_score \<Rightarrow> ucc_coll_score" where
  "ucc_coll_score_dup score =
     (\<lambda>ct mt. if ct \<in> set coll_types \<and> mt \<in> set mem_types then ucc_score_list_dup (score ct mt)
              else ucc_coll_score_alloc ct mt)"

definition ucc_coll_score_set :: "ucc_coll_score \<Rightarrow> int \<Rightarrow> ucc_coll_score" where
  "ucc_coll_score_set score v =
     (\<lambda>ct mt. if ct \<in> set coll_types \<and> mt \<in> set mem_types
              then map (\<lambda>r. r\<lparr>r_super := (r_super r)\<lparr>ce_score := v\<rparr>\<rparr>) (score ct mt)
              else score ct mt)"

section \<open>The score map\<close>

record ucc_score_map =
  sm_score :: ucc_coll_score
  sm_team_size :: nat
  sm_team_rank :: nat

text \<open>Neighbour ranges that share a message size: the size stays with the greater score.\<close>

function resolve_boundaries :: "ucc_msg_range list \<Rightarrow> ucc_msg_range list" where
  "resolve_boundaries [] = []"
| "resolve_boundaries [rg] = [rg]"
| "resolve_boundaries (rg # nxt # rs) =
     (if r_end rg = r_start nxt then
        if ce_score (r_super rg) > ce_score (r_super nxt)
        then rg # resolve_boundaries (nxt\<lparr>r_start := u64 (r_start nxt + 1)\<rparr> # rs)
        else rg\<lparr>r_end := sub64 (r_end rg) 1\<rparr> # resolve_boundaries (nxt # rs)
      else rg # resolve_boundaries (nxt # rs))"
  by pat_completeness auto

termination
  by (relation "measure length") auto

text \<open>
  \<open>team_params\<close> gives the size and rank of a base team. The scan takes them from the first
  range of the first list while the size found so far is 0.
\<close>

fun map_team_params :: "(nat \<Rightarrow> nat \<times> nat) \<Rightarrow> ucc_msg_range list list \<Rightarrow> nat \<times> nat \<Rightarrow> nat \<times> nat" where
  "map_team_params team_params [] p = p"
| "map_team_params team_params ([] # ls) p = map_team_params team_params ls p"
| "map_team_params team_params ((r # rs) # ls) p =
     map_team_params team_params ls
       (if fst p = 0 then team_params (ce_team (r_super r)) else p)"

definition ucc_coll_score_build_map :: "(nat \<Rightarrow> nat \<times> nat) \<Rightarrow> ucc_coll_score \<Rightarrow> ucc_score_map" where
  "ucc_coll_score_build_map team_params score =
     (let (tsize, trank) = map_team_params team_params
            (map (\<lambda>(ct, mt). score ct mt) (List.product coll_types mem_types)) (0, 0)
      in \<lparr>sm_score = (\<lambda>ct mt. if ct \<in> set coll_types \<and> mt \<in> set mem_types
                              then resolve_boundaries (score ct mt) else score ct mt),
         sm_team_size = tsize, sm_team_rank = trank\<rparr>)"

text \<open>
  The lookup compares with both ends of a range included. \<open>None\<close> is a read outside the counts
  array while the message size is computed.
\<close>

fun find_range :: "nat \<Rightarrow> ucc_msg_range list \<Rightarrow> ucc_msg_range option" where
  "find_range msgsize [] = None"
| "find_range msgsize (r # rs) =
     (if msgsize \<ge> r_start r \<and> msgsize \<le> r_end r then Some r else find_range msgsize rs)"

definition lookup_msgsize :: "nat \<Rightarrow> nat" where
  "lookup_msgsize msgsize =
     (if msgsize = UCC_MSG_SIZE_INVALID \<or> msgsize = UCC_MSG_SIZE_ASYMMETRIC then 0 else msgsize)"

definition ucc_coll_score_map_lookup ::
    "ucc_score_map \<Rightarrow> ucc_coll_args \<Rightarrow> (ucc_status + ucc_msg_range) option" where
  "ucc_coll_score_map_lookup m args =
     (let mt0 = ucc_coll_args_mem_type args (sm_team_rank m);
          mt = (if mt0 = UCC_MEMORY_TYPE_NOT_APPLY then UCC_MEMORY_TYPE_HOST else mt0)
      in case ucc_coll_args_msgsize args (sm_team_rank m) (sm_team_size m) of
           None \<Rightarrow> None
         | Some msgsize \<Rightarrow>
             (case find_range (lookup_msgsize msgsize) (sm_score m (coll_type args) mt) of
                Some r \<Rightarrow> Some (Inr r)
              | None \<Rightarrow> Some (Inl UCC_ERR_NOT_SUPPORTED)))"

text \<open>
  \<open>call init team\<close> is the call of an init function on the arguments and a team; it gives a
  status and, in the source through \<open>task\<close>, a task.
\<close>

fun fallback_loop ::
    "(nat option \<Rightarrow> nat \<Rightarrow> ucc_status \<times> 't) \<Rightarrow> ucc_coll_entry list \<Rightarrow> ucc_status \<times> 't \<Rightarrow> ucc_status \<times> 't" where
  "fallback_loop call [] res = res"
| "fallback_loop call (fb # fbs) res =
     (if fst res = UCC_ERR_NOT_SUPPORTED \<or> fst res = UCC_ERR_NOT_IMPLEMENTED
      then fallback_loop call fbs (call (ce_init fb) (ce_team fb))
      else res)"

definition ucc_coll_init ::
    "(nat option \<Rightarrow> nat \<Rightarrow> ucc_status \<times> 't) \<Rightarrow> 't \<Rightarrow> ucc_score_map \<Rightarrow> ucc_coll_args
     \<Rightarrow> (ucc_status \<times> 't) option" where
  "ucc_coll_init call no_task m args =
     (case ucc_coll_score_map_lookup m args of
        None \<Rightarrow> None
      | Some (Inl st) \<Rightarrow> Some (st, no_task)
      | Some (Inr r) \<Rightarrow>
          let res = call (ce_init (r_super r)) (ce_team (r_super r))
          in if fst res = UCC_OK then Some res else Some (fallback_loop call (r_fallback r) res))"

end
