(* ===== verification/Score_Merge.thy ===== *)
theory Score_Merge
  imports Coll_Score "HOL-Library.Option_ord"
begin

text \<open>
  What merging score tables does: a well-formed list of ranges is read as a partial function
  from message sizes to an entry and its set of fallbacks, and merging two lists selects, at
  every message size, the entry with the greater score and keeps the other one as a fallback.
\<close>

section \<open>Lists of ranges as functions of the message size\<close>

definition ranges_wf :: "ucc_msg_range list \<Rightarrow> bool" where
  "ranges_wf l \<longleftrightarrow> (\<forall>r\<in>set l. r_start r < r_end r)
     \<and> sorted_wrt (\<lambda>a b. r_end a \<le> r_start b) l"

definition in_range :: "ucc_msg_range \<Rightarrow> nat \<Rightarrow> bool" where
  "in_range r m \<longleftrightarrow> r_start r \<le> m \<and> m < r_end r"

type_synonym cand = "ucc_coll_entry \<times> ucc_coll_entry set"

definition cand :: "ucc_msg_range \<Rightarrow> cand" where
  "cand r = (r_super r, set (r_fallback r))"

fun cand_at :: "ucc_msg_range list \<Rightarrow> nat \<Rightarrow> cand option" where
  "cand_at [] m = None"
| "cand_at (r # rs) m = (if in_range r m then Some (cand r) else cand_at rs m)"

lemma ranges_wf_Nil [simp]: "ranges_wf []"
  by (simp add: ranges_wf_def)

lemma ranges_wf_Cons:
  "ranges_wf (r # rs) \<longleftrightarrow> r_start r < r_end r \<and> (\<forall>x\<in>set rs. r_end r \<le> r_start x) \<and> ranges_wf rs"
  by (auto simp: ranges_wf_def)

lemma cand_at_None: "\<forall>r\<in>set l. m < r_start r \<Longrightarrow> cand_at l m = None"
  by (induction l) (auto simp: in_range_def)

lemma cand_at_tl_None: "ranges_wf (r # rs) \<Longrightarrow> m < r_end r \<Longrightarrow> cand_at rs m = None"
  by (rule cand_at_None) (auto simp: ranges_wf_Cons)

lemma cand_at_before: "ranges_wf (r # rs) \<Longrightarrow> m < r_start r \<Longrightarrow> cand_at (r # rs) m = None"
  by (rule cand_at_None) (auto simp: ranges_wf_Cons)

lemma ranges_wf_start: "ranges_wf (r # rs) \<Longrightarrow> k < r_end r \<Longrightarrow> ranges_wf (r\<lparr>r_start := k\<rparr> # rs)"
  by (simp add: ranges_wf_Cons)

lemma cand_at_start:
  "r_start r \<le> k \<Longrightarrow> k \<le> m \<Longrightarrow> cand_at (r\<lparr>r_start := k\<rparr> # rs) m = cand_at (r # rs) m"
  by (simp add: in_range_def cand_def)

section \<open>Fallback lists\<close>

lemma set_fallback_insert [simp]: "set (ucc_fallback_insert fs fb) = insert fb (set fs)"
  by (induction fs fb rule: ucc_fallback_insert.induct) auto

lemma set_fallback_foldl [simp]: "set (foldl ucc_fallback_insert acc fs) = set acc \<union> set fs"
  by (induction fs arbitrary: acc) auto

lemma cand_dup [simp]: "cand (ucc_msg_range_dup r) = cand r"
  by (simp add: cand_def ucc_msg_range_dup_def ucc_fallback_copy_def)

lemma dup_fields [simp]:
  "r_start (ucc_msg_range_dup r) = r_start r" "r_end (ucc_msg_range_dup r) = r_end r"
  "r_super (ucc_msg_range_dup r) = r_super r"
  by (simp_all add: ucc_msg_range_dup_def ucc_fallback_copy_def)

lemma cand_update [simp]:
  "cand (r\<lparr>r_start := k\<rparr>) = cand r" "cand (r\<lparr>r_end := k\<rparr>) = cand r"
  by (simp_all add: cand_def)

definition fb_sorted :: "ucc_coll_entry list \<Rightarrow> bool" where
  "fb_sorted fs \<longleftrightarrow> sorted_wrt (\<lambda>a b. ce_score b \<le> ce_score a) fs"

lemma fallback_insert_sorted: "fb_sorted fs \<Longrightarrow> fb_sorted (ucc_fallback_insert fs fb)"
  by (induction fs fb rule: ucc_fallback_insert.induct) (auto simp: fb_sorted_def)

lemma fallback_foldl_sorted: "fb_sorted acc \<Longrightarrow> fb_sorted (foldl ucc_fallback_insert acc fs)"
  by (induction fs arbitrary: acc) (auto intro: fallback_insert_sorted)

lemma cand_list_dup [simp]: "cand_at (ucc_score_list_dup l) m = cand_at l m"
  by (induction l) (auto simp: ucc_score_list_dup_def in_range_def)

lemma ranges_wf_list_dup [simp]: "ranges_wf (ucc_score_list_dup l) = ranges_wf l"
  by (induction l) (auto simp: ucc_score_list_dup_def ranges_wf_Cons)

section \<open>The specification of a merge\<close>

definition cand_score :: "cand \<Rightarrow> int" where
  "cand_score c = ce_score (fst c)"

text \<open>
  The loser and its fallbacks become fallbacks of the winner, unless both have the same init
  function and team.
\<close>

definition merge_pick :: "cand \<Rightarrow> cand \<Rightarrow> cand" where
  "merge_pick win lose =
     (fst win,
      if ce_init (fst win) = ce_init (fst lose) \<and> ce_team (fst win) = ce_team (fst lose) then snd win
      else insert (fst lose) (snd win \<union> snd lose))"

fun merged :: "cand option \<Rightarrow> cand option \<Rightarrow> cand option \<Rightarrow> bool" where
  "merged None c2 c = (c = c2)"
| "merged (Some x) None c = (c = Some x)"
| "merged (Some x) (Some y) c =
     (cand_score y \<le> cand_score x \<and> c = Some (merge_pick x y)
      \<or> cand_score x \<le> cand_score y \<and> c = Some (merge_pick y x))"

lemma cand_add_fallback [simp]:
  "cand (ucc_msg_range_add_fallback rin rout) = merge_pick (cand rout) (cand rin)"
  by (auto simp: ucc_msg_range_add_fallback_def merge_pick_def cand_def same_entry_fn_def
      ucc_fallback_copy_def Let_def)

lemma add_fallback_fields [simp]:
  "r_start (ucc_msg_range_add_fallback rin rout) = r_start rout"
  "r_end (ucc_msg_range_add_fallback rin rout) = r_end rout"
  "r_super (ucc_msg_range_add_fallback rin rout) = r_super rout"
  by (simp_all add: ucc_msg_range_add_fallback_def ucc_fallback_copy_def Let_def)

lemma merged_best: "merged (Some (cand r1)) (Some (cand r2)) (Some (cand (merge_best r1 r2)))"
  by (auto simp: merge_best_def cand_score_def cand_def [of r1] cand_def [of r2])

lemma merged_prefix: "merged (Some (cand r1)) (Some (cand r2)) (Some (cand (merge_prefix r1 r2)))"
  by (auto simp: merge_prefix_def Let_def cand_score_def cand_def [of r1] cand_def [of r2])

lemma merged_None2: "merged c1 None c = (c = c1)"
  by (cases c1) auto

lemma merged_sym: "merged c1 c2 c = merged c2 c1 c"
  by (cases c1; cases c2) auto

lemma merge_best_fields [simp]:
  "r_start r1 = r_start r2 \<Longrightarrow> r_start (merge_best r1 r2) = r_start r2"
  "r_end r1 = r_end r2 \<Longrightarrow> r_end (merge_best r1 r2) = r_end r2"
  by (simp_all add: merge_best_def)

lemma merge_prefix_fields [simp]:
  "r_start r1 = r_start r2 \<Longrightarrow> r_start (merge_prefix r1 r2) = r_start r1"
  "r_end (merge_prefix r1 r2) = r_end r1"
  by (simp_all add: merge_prefix_def Let_def)

lemma merge_cut_fields [simp]:
  "r_start (merge_cut r e) = r_start r" "r_end (merge_cut r e) = e" "cand (merge_cut r e) = cand r"
  by (simp_all add: merge_cut_def)

section \<open>The merge loop meets the specification\<close>

lemma merge_loop_Nil [simp]: "merge_loop [] l = l" "merge_loop l [] = l"
  by (induction l) auto

lemma merge_step_best:
  assumes "ranges_wf (r1 # l1)" "ranges_wf (r2 # l2)" "r_start r1 = r_start r2" "r_end r1 = r_end r2"
    and "merged (cand_at l1 m) (cand_at l2 m) (cand_at rest m)"
  shows "merged (cand_at (r1 # l1) m) (cand_at (r2 # l2) m) (cand_at (merge_best r1 r2 # rest) m)"
  using assms merged_best [of r1 r2] by (auto simp: in_range_def)

lemma merge_step_prefix:
  assumes "ranges_wf (r1 # l1)" "ranges_wf (r2 # l2)" "r_start r1 = r_start r2" "r_end r1 < r_end r2"
    and "merged (cand_at l1 m) (cand_at (r2\<lparr>r_start := r_end r1\<rparr> # l2) m) (cand_at rest m)"
  shows "merged (cand_at (r1 # l1) m) (cand_at (r2 # l2) m) (cand_at (merge_prefix r1 r2 # rest) m)"
proof -
  consider "in_range r1 m" | "m < r_start r1" | "r_end r1 \<le> m"
    unfolding in_range_def by linarith
  then show ?thesis
  proof cases
    case 1
    then show ?thesis using assms merged_prefix [of r1 r2] by (auto simp: in_range_def)
  next
    case 2
    have wf': "ranges_wf (r2\<lparr>r_start := r_end r1\<rparr> # l2)" by (rule ranges_wf_start [OF assms(2,4)])
    have "m < r_end r1" using 2 assms(1) by (simp add: ranges_wf_Cons)
    then have "cand_at l1 m = None" "cand_at (r2\<lparr>r_start := r_end r1\<rparr> # l2) m = None"
      using cand_at_tl_None [OF assms(1)] cand_at_before [OF wf'] by simp_all
    then show ?thesis
      using 2 assms cand_at_before [OF assms(1), of m] cand_at_before [OF assms(2), of m]
      by (simp add: in_range_def)
  next
    case 3
    have "r_start r1 < r_end r1" using assms(1) by (simp add: ranges_wf_Cons)
    then show ?thesis
      using 3 assms(3,5) cand_at_start [of r2 "r_end r1" m l2] by (simp add: in_range_def)
  qed
qed

lemma merge_step_skip:
  assumes "ranges_wf (r1 # l1)" "ranges_wf (r2 # l2)" "r_end r1 \<le> r_start r2"
    and "merged (cand_at l1 m) (cand_at (r2 # l2) m) (cand_at rest m)"
  shows "merged (cand_at (r1 # l1) m) (cand_at (r2 # l2) m) (cand_at (r1 # rest) m)"
proof (cases "in_range r1 m")
  case True
  then have "cand_at (r2 # l2) m = None"
    using assms(3) cand_at_before [OF assms(2), of m] by (simp add: in_range_def)
  then show ?thesis using True by simp
qed (use assms(4) in simp)

lemma merge_step_cut:
  assumes "ranges_wf (r1 # l1)" "ranges_wf (r2 # l2)" "r_start r1 < r_start r2" "r_start r2 < r_end r1"
    and "merged (cand_at (r1\<lparr>r_start := r_start r2\<rparr> # l1) m) (cand_at (r2 # l2) m) (cand_at rest m)"
  shows "merged (cand_at (r1 # l1) m) (cand_at (r2 # l2) m) (cand_at (merge_cut r1 (r_start r2) # rest) m)"
proof (cases "m < r_start r2")
  case True
  have wf': "ranges_wf (r1\<lparr>r_start := r_start r2\<rparr> # l1)" by (rule ranges_wf_start [OF assms(1,4)])
  have n: "cand_at (r2 # l2) m = None" "cand_at (r1\<lparr>r_start := r_start r2\<rparr> # l1) m = None"
    using True cand_at_before [OF assms(2), of m] cand_at_before [OF wf', of m] by simp_all
  then have "cand_at rest m = None" using assms(5) by simp
  then show ?thesis
    using True n assms(3,4) cand_at_before [OF assms(1), of m] by (auto simp: in_range_def)
next
  case False
  then show ?thesis
    using assms(3,5) cand_at_start [of r1 "r_start r2" m l1] by (simp add: in_range_def)
qed

lemma merge_loop_merged:
  assumes "ranges_wf l1" "ranges_wf l2"
  shows "merged (cand_at l1 m) (cand_at l2 m) (cand_at (merge_loop l1 l2) m)"
  using assms
proof (induction l1 l2 rule: merge_loop.induct)
  case (4 r1 l1 r2 l2)
  have wf: "ranges_wf l1" "ranges_wf l2" using "4.prems" by (simp_all add: ranges_wf_Cons)
  note ps = "4.prems" and sp = "4.prems"(2) "4.prems"(1)
  consider "r_start r1 = r_start r2" "r_end r1 = r_end r2"
    | "r_start r1 = r_start r2" "r_end r1 < r_end r2" | "r_start r1 = r_start r2" "r_end r2 < r_end r1"
    | "r_start r1 < r_start r2" "r_end r1 \<le> r_start r2" | "r_start r1 < r_start r2" "r_start r2 < r_end r1"
    | "r_start r2 < r_start r1" "r_end r2 \<le> r_start r1" | "r_start r2 < r_start r1" "r_start r1 < r_end r2"
    by linarith
  then show ?case
  proof cases
    case 1
    then show ?thesis using "4.IH"(1) wf by (simp add: merge_step_best [OF ps] del: cand_at.simps)
  next
    case 2
    then show ?thesis
      using "4.IH"(2) wf ranges_wf_start [OF ps(2), of "r_end r1"]
      by (simp add: merge_step_prefix [OF ps] del: cand_at.simps)
  next
    case 3
    then show ?thesis
      using "4.IH"(3) wf ranges_wf_start [OF ps(1), of "r_end r2"] merge_step_prefix [OF sp, of m]
      by (simp add: merged_sym [of "cand_at _ m" "cand_at (r2 # _) m"]
          merged_sym [of "cand_at _ m" "cand_at l2 m"] del: cand_at.simps)
  next
    case 4
    then show ?thesis using "4.IH"(4) wf ps by (simp add: merge_step_skip [OF ps] del: cand_at.simps)
  next
    case 5
    then show ?thesis
      using "4.IH"(5) wf ps ranges_wf_start [OF ps(1), of "r_start r2"]
      by (simp add: merge_step_cut [OF ps] del: cand_at.simps)
  next
    case 6
    then show ?thesis
      using "4.IH"(6) wf ps merge_step_skip [OF sp, of m]
      by (simp add: merged_sym [of "cand_at (r1 # l1) m"] del: cand_at.simps)
  next
    case 7
    then show ?thesis
      using "4.IH"(7) wf ps ranges_wf_start [OF ps(2), of "r_start r1"] merge_step_cut [OF sp, of m]
      by (simp add: merged_sym [of "cand_at (r1 # l1) m"] del: cand_at.simps)
  qed
qed (simp_all add: ranges_wf_Cons)

text \<open>\<open>starts_from k l\<close>: no range of the list starts before \<open>k\<close>.\<close>

definition starts_from :: "nat \<Rightarrow> ucc_msg_range list \<Rightarrow> bool" where
  "starts_from k l \<longleftrightarrow> (\<forall>r\<in>set l. k \<le> r_start r)"

lemma starts_from_Cons [simp]: "starts_from k (r # l) \<longleftrightarrow> k \<le> r_start r \<and> starts_from k l"
  and starts_from_Nil [simp]: "starts_from k []"
  by (auto simp: starts_from_def)

lemma starts_from_mono: "starts_from j l \<Longrightarrow> k \<le> j \<Longrightarrow> starts_from k l"
  by (auto simp: starts_from_def)

lemma ranges_wf_iff: "ranges_wf (r # l) \<longleftrightarrow> r_start r < r_end r \<and> starts_from (r_end r) l \<and> ranges_wf l"
  by (simp add: ranges_wf_Cons starts_from_def)

lemma merge_loop_starts_from:
  assumes "ranges_wf l1" "ranges_wf l2" "starts_from k l1" "starts_from k l2"
  shows "starts_from k (merge_loop l1 l2)"
  using assms
proof (induction l1 l2 rule: merge_loop.induct)
  case (4 r1 l1 r2 l2)
  have w: "r_start r1 < r_end r1" "r_start r2 < r_end r2" "ranges_wf l1" "ranges_wf l2"
    using "4.prems" by (simp_all add: ranges_wf_Cons)
  note s1 = ranges_wf_start [OF "4.prems"(1)] and s2 = ranges_wf_start [OF "4.prems"(2)]
  show ?case
    using "4.IH" "4.prems" w s1 s2 by simp
qed (simp_all add: ranges_wf_Cons)

lemma merge_loop_wf:
  assumes "ranges_wf l1" "ranges_wf l2"
  shows "ranges_wf (merge_loop l1 l2)"
  using assms
proof (induction l1 l2 rule: merge_loop.induct)
  case (4 r1 l1 r2 l2)
  have w: "r_start r1 < r_end r1" "r_start r2 < r_end r2" "ranges_wf l1" "ranges_wf l2"
    and f: "starts_from (r_end r1) l1" "starts_from (r_end r2) l2"
    using "4.prems" by (simp_all add: ranges_wf_iff)
  note s1 = ranges_wf_start [OF "4.prems"(1)] and s2 = ranges_wf_start [OF "4.prems"(2)]
    and fr = merge_loop_starts_from starts_from_mono [OF f(1)] starts_from_mono [OF f(2)]
  show ?case
    using "4.IH" "4.prems" w f s1 s2
    by (auto simp: ranges_wf_iff [of "merge_best r1 r2"] ranges_wf_iff [of "merge_prefix _ _"]
        ranges_wf_iff [of "merge_cut _ _"] ranges_wf_iff [of _ "merge_loop _ _"] intro!: fr)
qed (simp_all add: ranges_wf_Cons)

section \<open>Joining neighbours\<close>

lemma fb_compare_eq: "ucc_msg_range_fb_compare a b \<longleftrightarrow> r_fallback a = r_fallback b"
proof -
  have "length as = length bs \<Longrightarrow> fb_compare_loop as bs \<longleftrightarrow> as = bs" for as bs
    by (induction as bs rule: list_induct2) auto
  then show ?thesis by (auto simp: ucc_msg_range_fb_compare_def)
qed

lemma can_join_cand: "can_join a b \<Longrightarrow> cand a = cand b \<and> r_fallback a = r_fallback b \<and> r_end a = r_start b"
  by (simp add: can_join_def cand_def fb_compare_eq)

lemma join_ranges_starts_from: "ranges_wf l \<Longrightarrow> starts_from k l \<Longrightarrow> starts_from k (join_ranges l)"
proof (induction l rule: join_ranges.induct)
  case (3 rg nxt rs)
  then show ?case by (auto simp: ranges_wf_iff dest: can_join_cand)
qed simp_all

lemma join_ranges_wf: "ranges_wf l \<Longrightarrow> ranges_wf (join_ranges l)"
proof (induction l rule: join_ranges.induct)
  case (3 rg nxt rs)
  show ?case
  proof (cases "can_join rg nxt")
    case True
    then have "ranges_wf (nxt\<lparr>r_start := r_start rg\<rparr> # rs)"
      using "3.prems" by (auto simp: ranges_wf_iff dest: can_join_cand)
    then show ?thesis using "3.IH"(1) True by simp
  next
    case False
    then show ?thesis
      using "3.IH"(2) "3.prems" join_ranges_starts_from [of "nxt # rs" "r_end rg"]
      by (simp add: ranges_wf_iff)
  qed
qed simp_all

lemma join_ranges_at: "ranges_wf l \<Longrightarrow> cand_at (join_ranges l) m = cand_at l m"
proof (induction l rule: join_ranges.induct)
  case (3 rg nxt rs)
  show ?case
  proof (cases "can_join rg nxt")
    case True
    note j = can_join_cand [OF True]
    have "ranges_wf (nxt\<lparr>r_start := r_start rg\<rparr> # rs)"
      using "3.prems" j by (auto simp: ranges_wf_iff)
    then have "cand_at (join_ranges (rg # nxt # rs)) m = cand_at (nxt\<lparr>r_start := r_start rg\<rparr> # rs) m"
      using "3.IH"(1) True by simp
    also have "\<dots> = cand_at (rg # nxt # rs) m"
      using "3.prems" j by (auto simp: ranges_wf_iff in_range_def)
    finally show ?thesis .
  next
    case False
    then show ?thesis using "3.IH"(2) "3.prems" by (simp add: ranges_wf_Cons)
  qed
qed simp_all

lemma join_ranges_fallback: "\<forall>r\<in>set l. P (r_fallback r) \<Longrightarrow> \<forall>r\<in>set (join_ranges l). P (r_fallback r)"
  by (induction l rule: join_ranges.induct) (auto simp: cand_def)

lemma merge_one_wf: "ranges_wf l1 \<Longrightarrow> ranges_wf l2 \<Longrightarrow> ranges_wf (ucc_coll_score_merge_one l1 l2)"
  by (simp add: ucc_coll_score_merge_one_def join_ranges_wf merge_loop_wf)

lemma merge_one_merged:
  assumes "ranges_wf l1" "ranges_wf l2"
  shows "merged (cand_at l1 m) (cand_at l2 m) (cand_at (ucc_coll_score_merge_one l1 l2) m)"
  using merge_loop_merged [of "ucc_score_list_dup l1" "ucc_score_list_dup l2" m] assms
  by (auto simp: ucc_coll_score_merge_one_def join_ranges_at merge_loop_wf merged_None2)

lemma add_fallback_sorted:
  "fb_sorted (r_fallback rout) \<Longrightarrow> fb_sorted (r_fallback (ucc_msg_range_add_fallback rin rout))"
  by (simp add: ucc_msg_range_add_fallback_def ucc_fallback_copy_def Let_def
      fallback_insert_sorted fallback_foldl_sorted)

lemma fb_sorted_Nil: "fb_sorted []"
  by (simp add: fb_sorted_def)

lemma dup_sorted: "fb_sorted (r_fallback (ucc_msg_range_dup r))"
  by (simp add: ucc_msg_range_dup_def ucc_fallback_copy_def fallback_foldl_sorted fb_sorted_Nil)

lemma merge_loop_sorted:
  assumes "\<forall>r\<in>set l1. fb_sorted (r_fallback r)" "\<forall>r\<in>set l2. fb_sorted (r_fallback r)"
  shows "\<forall>r\<in>set (merge_loop l1 l2). fb_sorted (r_fallback r)"
  using assms
  by (induction l1 l2 rule: merge_loop.induct)
    (auto simp: merge_best_def merge_prefix_def merge_cut_def Let_def add_fallback_sorted dup_sorted
      split: if_splits)

lemma merge_one_sorted: "\<forall>r\<in>set (ucc_coll_score_merge_one l1 l2). fb_sorted (r_fallback r)"
proof -
  have d: "\<forall>r\<in>set (ucc_score_list_dup l). fb_sorted (r_fallback r)" for l
    by (auto simp: ucc_score_list_dup_def dup_sorted)
  have "\<forall>r\<in>set (join_ranges (merge_loop (ucc_score_list_dup l1) (ucc_score_list_dup l2))).
      fb_sorted (r_fallback r)"
    by (rule join_ranges_fallback [where P = fb_sorted]) (rule merge_loop_sorted [OF d d])
  then show ?thesis using d [of l1] d [of l2] by (simp add: ucc_coll_score_merge_one_def)
qed

section \<open>Combining range lists\<close>

text \<open>
  The contract of an operation that combines two well-formed lists: the result is well formed
  and its value at every message size is related to the values of the arguments there.
\<close>

locale range_combine =
  fixes wf :: "'l \<Rightarrow> bool"
    and at :: "'l \<Rightarrow> nat \<Rightarrow> 'c option"
    and comb :: "'l \<Rightarrow> 'l \<Rightarrow> 'l"
    and spec :: "'c option \<Rightarrow> 'c option \<Rightarrow> 'c option \<Rightarrow> bool"
  assumes comb_wf: "wf a \<Longrightarrow> wf b \<Longrightarrow> wf (comb a b)"
    and comb_at: "wf a \<Longrightarrow> wf b \<Longrightarrow> spec (at a m) (at b m) (at (comb a b) m)"
begin

lemma fold_wf: "wf a \<Longrightarrow> \<forall>l\<in>set ls. wf l \<Longrightarrow> wf (foldl comb a ls)"
  by (induction ls arbitrary: a) (auto intro: comb_wf)

end

text \<open>Combinations that keep the greater of two values.\<close>

locale range_max = range_combine wf at comb spec
  for wf :: "'l \<Rightarrow> bool" and at :: "'l \<Rightarrow> nat \<Rightarrow> 'c option" and comb spec +
  fixes sc :: "'c \<Rightarrow> int"
  assumes spec_max: "spec x y z \<Longrightarrow> map_option sc z = max (map_option sc x) (map_option sc y)"
begin

lemma comb_max:
  "wf a \<Longrightarrow> wf b \<Longrightarrow> map_option sc (at (comb a b) m) = max (map_option sc (at a m)) (map_option sc (at b m))"
  by (rule spec_max [OF comb_at])

lemma fold_max:
  assumes "wf a" "\<forall>l\<in>set ls. wf l"
  shows "map_option sc (at (foldl comb a ls) m) = Max (set (map (\<lambda>l. map_option sc (at l m)) (a # ls)))"
  using assms
proof (induction ls arbitrary: a)
  case (Cons l ls)
  have "map_option sc (at (foldl comb a (l # ls)) m)
      = Max (set (map (\<lambda>l. map_option sc (at l m)) (comb a l # ls)))"
    using Cons.IH [of "comb a l"] Cons.prems by (simp add: comb_wf)
  also have "\<dots> = Max (set (map (\<lambda>l. map_option sc (at l m)) (a # l # ls)))"
    using Cons.prems comb_max [of a l m] by (cases "ls = []") (simp_all add: max.assoc)
  finally show ?case .
qed simp

end

lemma merged_max:
  "merged x y z \<Longrightarrow> map_option cand_score z = max (map_option cand_score x) (map_option cand_score y)"
  by (cases x; cases y) (auto simp: max_def merge_pick_def cand_score_def)

interpretation score_merge: range_max ranges_wf cand_at ucc_coll_score_merge_one merged cand_score
  by unfold_locales (auto intro: merge_one_wf merge_one_merged merged_max)

section \<open>Properties\<close>

lemma merge_at_types:
  assumes "ct \<in> set coll_types" "mt \<in> set mem_types"
  shows "ucc_coll_score_merge s1 s2 ct mt = ucc_coll_score_merge_one (s1 ct mt) (s2 ct mt)"
  using assms by (simp add: ucc_coll_score_merge_def)

lemma merge_fold_types:
  assumes "ct \<in> set coll_types" "mt \<in> set mem_types"
  shows "foldl ucc_coll_score_merge s ss ct mt
    = foldl ucc_coll_score_merge_one (s ct mt) (map (\<lambda>t. t ct mt) ss)"
  by (induction ss arbitrary: s) (simp_all add: merge_at_types [OF assms])

definition entry :: "int \<Rightarrow> nat \<Rightarrow> nat \<Rightarrow> ucc_coll_entry" where
  "entry sc f t = \<lparr>ce_score = sc, ce_init = Some f, ce_team = t\<rparr>"

definition example_scores :: "int \<Rightarrow> nat \<Rightarrow> nat \<Rightarrow> nat \<Rightarrow> ucc_coll_score" where
  "example_scores sc f s e =
     (\<lambda>ct mt. [\<lparr>r_super = entry sc f f, r_fallback = [], r_start = s, r_end = e\<rparr>])"

lemma example_scores_wf: "s < e \<Longrightarrow> ranges_wf (example_scores sc f s e ct mt)"
  by (simp add: example_scores_def ranges_wf_Cons)

lemma example_types: "UCC_COLL_TYPE_BCAST \<in> set coll_types" "UCC_MEMORY_TYPE_HOST \<in> set mem_types"
  by (simp_all add: coll_types_def mem_types_def)

text \<open>
  C10: merging two score tables gives, for every collective and memory type, a sorted list of
  non-overlapping ranges; at every message size the entry with the greater score of the two is
  selected, and the other one and the fallbacks of both are its fallbacks unless both have the
  same init function and team.
\<close>

theorem coll_score_merge_selects:
  assumes "ct \<in> set coll_types" "mt \<in> set mem_types"
    and "ranges_wf (s1 ct mt)" "ranges_wf (s2 ct mt)"
  shows "ranges_wf (ucc_coll_score_merge s1 s2 ct mt)
    \<and> merged (cand_at (s1 ct mt) m) (cand_at (s2 ct mt) m) (cand_at (ucc_coll_score_merge s1 s2 ct mt) m)"
  using score_merge.comb_wf [OF assms(3,4)] score_merge.comb_at [OF assms(3,4), of m]
  by (simp add: merge_at_types [OF assms(1,2)])

theorem coll_score_merge_selects_witness:
  "merged (Some (entry 10 1 1, {})) (Some (entry 20 2 2, {}))
    (cand_at (ucc_coll_score_merge (example_scores 10 1 0 100) (example_scores 20 2 50 200)
       UCC_COLL_TYPE_BCAST UCC_MEMORY_TYPE_HOST) 60)"
  using coll_score_merge_selects [OF example_types, of "example_scores 10 1 0 100"
      "example_scores 20 2 50 200" 60] example_scores_wf
  by (simp add: example_scores_def in_range_def cand_def)

text \<open>
  merging the tables of any number of components one after the other selects, at every
  message size, an entry with the greatest score any of them offers there, and none exactly when
  none of them covers it.
\<close>

theorem coll_score_merge_all_max:
  assumes "ct \<in> set coll_types" "mt \<in> set mem_types" "\<forall>t\<in>set (s # ss). ranges_wf (t ct mt)"
  shows "map_option cand_score (cand_at (foldl ucc_coll_score_merge s ss ct mt) m)
    = Max (set (map (\<lambda>t. map_option cand_score (cand_at (t ct mt) m)) (s # ss)))"
  using score_merge.fold_max [of "s ct mt" "map (\<lambda>t. t ct mt) ss" m] assms(3)
  by (simp add: merge_fold_types [OF assms(1,2)] image_image)

theorem coll_score_merge_all_max_witness:
  "map_option cand_score (cand_at (foldl ucc_coll_score_merge (example_scores 10 1 0 100)
       [example_scores 20 2 50 200, example_scores 15 3 0 90]
       UCC_COLL_TYPE_BCAST UCC_MEMORY_TYPE_HOST) 40) = Some 15"
  using coll_score_merge_all_max [OF example_types, of "example_scores 10 1 0 100"
      "[example_scores 20 2 50 200, example_scores 15 3 0 90]" 40] example_scores_wf
  by (simp add: example_scores_def in_range_def cand_def cand_score_def entry_def)

text \<open>
  in a merged table the fallbacks of every range are in order of decreasing score, whatever
  the order of the fallbacks in the inputs.
\<close>

theorem coll_score_merge_fallbacks_sorted:
  assumes "r \<in> set (ucc_coll_score_merge s1 s2 ct mt)"
  shows "sorted_wrt (\<lambda>a b. ce_score b \<le> ce_score a) (r_fallback r)"
proof (cases "ct \<in> set coll_types \<and> mt \<in> set mem_types")
  case True
  then show ?thesis
    using assms merge_one_sorted by (auto simp: merge_at_types fb_sorted_def)
next
  case False
  then show ?thesis using assms by (auto simp: ucc_coll_score_merge_def ucc_coll_score_alloc_def)
qed

theorem coll_score_merge_fallbacks_sorted_witness:
  "\<exists>r. r \<in> set (ucc_coll_score_merge (example_scores 10 1 0 100) (example_scores 20 2 0 100)
       UCC_COLL_TYPE_BCAST UCC_MEMORY_TYPE_HOST)
    \<and> r_fallback r = [entry 10 1 1] \<and> sorted_wrt (\<lambda>a b. ce_score b \<le> ce_score a) (r_fallback r)"
proof -
  let ?r = "\<lparr>r_super = entry 20 2 2, r_fallback = [entry 10 1 1], r_start = 0, r_end = 100\<rparr>"
  have "?r \<in> set (ucc_coll_score_merge (example_scores 10 1 0 100) (example_scores 20 2 0 100)
       UCC_COLL_TYPE_BCAST UCC_MEMORY_TYPE_HOST)"
    by (simp add: merge_at_types example_types ucc_coll_score_merge_one_def example_scores_def
        ucc_score_list_dup_def ucc_msg_range_dup_def ucc_fallback_copy_def merge_best_def
        ucc_msg_range_add_fallback_def same_entry_fn_def entry_def)
  then show ?thesis
    using coll_score_merge_fallbacks_sorted [of ?r] by (intro exI [of _ ?r]) simp
qed

end
