(* ===== verification/Score_Update.thy ===== *)
theory Score_Update
  imports Score_Merge
begin

text \<open>
  What updating a score table does: at every message size the range of the update overrides
  the score and the init function of the range it meets, adds a range of its own where there
  was none and it names an init function, and a range whose score becomes 0 disappears.
\<close>

section \<open>The specification of an update\<close>

definition upd_new_score :: "ucc_coll_entry \<Rightarrow> int \<Rightarrow> int" where
  "upd_new_score e old = (if ce_score e = UCC_SCORE_INVALID then old else ce_score e)"

text \<open>
  The entry of the update and the set of fallbacks at one message size, for an update entry
  that meets a range of the table. The overridden entry is kept as a fallback with its old or
  with the new score.
\<close>

definition upd_meets :: "cand \<Rightarrow> cand \<Rightarrow> cand \<Rightarrow> bool" where
  "upd_meets cs cd c \<longleftrightarrow>
     (let e = fst cs; e0 = fst cd; sc = upd_new_score e (ce_score e0)
      in if ce_init e = None then c = (e0\<lparr>ce_score := sc\<rparr>, snd cd)
         else fst c = \<lparr>ce_score = sc, ce_init = ce_init e, ce_team = ce_team e\<rparr>
           \<and> (if ce_init e = ce_init e0 then snd c = snd cd
              else snd c = insert e0 (snd cd) \<or> snd c = insert (e0\<lparr>ce_score := sc\<rparr>) (snd cd)))"

fun upd_spec :: "int \<Rightarrow> cand option \<Rightarrow> cand option \<Rightarrow> cand option \<Rightarrow> bool" where
  "upd_spec ds None cd c = (c = cd)"
| "upd_spec ds (Some (e, fs)) None c =
     (c = (if ce_init e = None then None
           else Some (e\<lparr>ce_score := upd_new_score e ds\<rparr>, fs)))"
| "upd_spec ds (Some cs) (Some cd) c = (\<exists>x. c = Some x \<and> upd_meets cs cd x)"

lemma upd_spec_no_src [simp]: "upd_spec ds None cd c \<longleftrightarrow> c = cd"
  by simp

lemma upd_meets_in_place: "upd_meets (cand rs) (cand rd) (cand (upd_in_place rs rd))"
  by (auto simp: upd_meets_def upd_in_place_def upd_init_def upd_score_def cand_def Let_def
      upd_new_score_def)

lemma upd_meets_dup: "upd_meets (cand rs) (cand rd) (cand (upd_dup rs rd))"
proof -
  have "set (r_fallback (ucc_msg_range_dup rd)) = set (r_fallback rd)"
    using cand_dup [of rd] by (simp add: cand_def)
  then show ?thesis
    by (auto simp: upd_meets_def upd_dup_def upd_init_def upd_score_def cand_def Let_def
        upd_new_score_def)
qed

lemma cand_fill: "cand (upd_fill ds rs) = ((r_super rs)\<lparr>ce_score := upd_new_score (r_super rs) ds\<rparr>, set (r_fallback rs))"
proof -
  have "set (r_fallback (ucc_msg_range_dup rs)) = set (r_fallback rs)"
    using cand_dup [of rs] by (simp add: cand_def)
  then show ?thesis by (simp add: upd_fill_def Let_def cand_def upd_new_score_def)
qed

lemma upd_fields [simp]:
  "r_start (upd_in_place rs rd) = r_start rd" "r_end (upd_in_place rs rd) = r_end rd"
  "r_start (upd_dup rs rd) = r_start rd" "r_end (upd_dup rs rd) = r_end rs"
  "r_start (upd_fill ds rs) = r_start rs" "r_end (upd_fill ds rs) = r_end rs"
  by (simp_all add: upd_in_place_def upd_dup_def upd_init_def upd_score_def upd_fill_def Let_def)

section \<open>The update loop meets the specification\<close>

text \<open>\<open>from_at k l' l\<close>: the list \<open>l'\<close> is \<open>l\<close> from message size \<open>k\<close> on.\<close>

definition from_at :: "nat \<Rightarrow> ucc_msg_range list \<Rightarrow> ucc_msg_range list \<Rightarrow> bool" where
  "from_at k l' l \<longleftrightarrow> (\<forall>m<k. cand_at l' m = None) \<and> (\<forall>m\<ge>k. cand_at l' m = cand_at l m)"

lemma from_at_tl: "ranges_wf (r # l) \<Longrightarrow> from_at (r_end r) l (r # l)"
  unfolding from_at_def by (auto simp: in_range_def cand_at_tl_None)

lemma from_at_start:
  assumes "ranges_wf (r # l)" "r_start r \<le> k" "k < r_end r"
  shows "from_at k (r\<lparr>r_start := k\<rparr> # l) (r # l)"
  unfolding from_at_def
  using cand_at_before [OF ranges_wf_start [OF assms(1,3)]] cand_at_start [OF assms(2)]
  by (simp del: cand_at.simps)

abbreviation fill_list :: "int \<Rightarrow> ucc_msg_range \<Rightarrow> nat \<Rightarrow> ucc_msg_range list" where
  "fill_list ds rs e \<equiv> (if ce_init (r_super rs) \<noteq> None then [(upd_fill ds rs)\<lparr>r_end := e\<rparr>] else [])"

lemma fill_whole: "(upd_fill ds rs)\<lparr>r_end := r_end rs\<rparr> = upd_fill ds rs"
  using upd_fields(6) [of ds rs] by simp

lemma upd_step_fill:
  assumes "ranges_wf (rs # sl)" "e \<le> r_end rs" "r_start rs \<le> e"
    and dl: "\<forall>m<e. cand_at dl m = None"
    and sl: "from_at e sl' (rs # sl)"
    and "upd_spec ds (cand_at sl' m) (cand_at dl m) (cand_at rest m)"
  shows "upd_spec ds (cand_at (rs # sl) m) (cand_at dl m) (cand_at (fill_list ds rs e @ rest) m)"
proof (cases "m < e")
  case True
  then have r: "cand_at rest m = None" using assms(6) dl sl by (simp add: from_at_def)
  show ?thesis
  proof (cases "r_start rs \<le> m")
    case True
    then show ?thesis
      using \<open>m < e\<close> assms(2) dl r cand_fill [of ds rs] by (simp add: in_range_def cand_def [of rs])
  next
    case False
    then show ?thesis
      using \<open>m < e\<close> dl r cand_at_before [OF assms(1), of m] by (simp add: in_range_def)
  qed
next
  case False
  then show ?thesis using assms(6) sl by (auto simp: in_range_def from_at_def split: if_splits)
qed

lemma upd_step_skip:
  assumes "ranges_wf (rs # sl)" "r_end rd \<le> r_start rs"
    and "upd_spec ds (cand_at (rs # sl) m) (cand_at dl m) (cand_at rest m)"
  shows "upd_spec ds (cand_at (rs # sl) m) (cand_at (rd # dl) m) (cand_at (rd # rest) m)"
proof (cases "in_range rd m")
  case True
  then have "cand_at (rs # sl) m = None"
    using assms(2) cand_at_before [OF assms(1), of m] by (simp add: in_range_def)
  then show ?thesis using True by simp
qed (use assms(3) in simp)

lemma upd_step_cut:
  assumes "ranges_wf (rs # sl)" "ranges_wf (rd # dl)" "r_start rd < r_start rs" "r_start rs < r_end rd"
    and "upd_spec ds (cand_at (rs # sl) m) (cand_at (rd\<lparr>r_start := r_start rs\<rparr> # dl) m) (cand_at rest m)"
  shows "upd_spec ds (cand_at (rs # sl) m) (cand_at (rd # dl) m)
    (cand_at ((ucc_msg_range_dup rd)\<lparr>r_end := r_start rs\<rparr> # rest) m)"
proof (cases "m < r_start rs")
  case True
  have wf': "ranges_wf (rd\<lparr>r_start := r_start rs\<rparr> # dl)" by (rule ranges_wf_start [OF assms(2,4)])
  have n: "cand_at (rs # sl) m = None" "cand_at (rd\<lparr>r_start := r_start rs\<rparr> # dl) m = None"
    using True cand_at_before [OF assms(1), of m] cand_at_before [OF wf', of m] by simp_all
  then have "cand_at rest m = None" using assms(5) by simp
  then show ?thesis
    using True n assms(3,4) cand_at_before [OF assms(2), of m] by (auto simp: in_range_def)
next
  case False
  then show ?thesis
    using assms(3,5) cand_at_start [of rd "r_start rs" m dl] by (simp add: in_range_def)
qed

text \<open>The three branches of equal starts: \<open>x\<close> covers up to the smaller end \<open>e\<close>.\<close>

lemma upd_step_meet:
  assumes wf: "ranges_wf (rs # sl)" "ranges_wf (rd # dl)" and eq: "r_start rs = r_start rd"
    and x: "upd_meets (cand rs) (cand rd) (cand x)" "r_start x = r_start rd" "r_end x = e"
    and e: "e \<le> r_end rs" "e \<le> r_end rd"
    and sl: "from_at e sl' (rs # sl)" and dl: "from_at e dl' (rd # dl)"
    and rest: "upd_spec ds (cand_at sl' m) (cand_at dl' m) (cand_at rest m)"
  shows "upd_spec ds (cand_at (rs # sl) m) (cand_at (rd # dl) m) (cand_at (x # rest) m)"
proof (cases "m < e")
  case True
  show ?thesis
  proof (cases "r_start rd \<le> m")
    case in_both: True
    then show ?thesis using True x e eq by (simp add: in_range_def)
  next
    case False
    then show ?thesis
      using True rest sl dl x eq cand_at_before [OF wf(1), of m] cand_at_before [OF wf(2), of m]
      by (simp add: in_range_def from_at_def)
  qed
next
  case False
  then show ?thesis using rest sl dl x by (simp add: in_range_def from_at_def)
qed

lemma update_loop_spec:
  assumes "ranges_wf sl" "ranges_wf dl"
  shows "upd_spec ds (cand_at sl m) (cand_at dl m) (cand_at (update_loop ds sl dl) m)"
  using assms
proof (induction ds sl dl rule: update_loop.induct)
  case (2 ds rs sl)
  have w: "r_start rs < r_end rs" "ranges_wf sl" using "2.prems"(1) by (simp_all add: ranges_wf_Cons)
  have "upd_spec ds (cand_at (rs # sl) m) (cand_at [] m)
      (cand_at (fill_list ds rs (r_end rs) @ update_loop ds sl []) m)"
    using "2.IH" w by (intro upd_step_fill [OF "2.prems"(1) _ _ _ from_at_tl [OF "2.prems"(1)]]) simp_all
  then show ?case unfolding fill_whole by (simp only: update_loop.simps)
next
  case (3 ds rs sl rd dl)
  have w: "r_start rs < r_end rs" "r_start rd < r_end rd" "ranges_wf sl" "ranges_wf dl"
    using "3.prems" by (simp_all add: ranges_wf_Cons)
  note eq = update_loop.simps(3) [of ds rs sl rd dl]
  note ws = "3.prems"(1) and wd = "3.prems"(2)
  note wst = ranges_wf_start [OF ws] and wdt = ranges_wf_start [OF wd]
  consider "r_end rs \<le> r_start rd" | "r_end rd \<le> r_start rs" "r_start rd < r_end rs"
    | "r_start rd < r_start rs" "r_start rs < r_end rd" | "r_start rs < r_start rd" "r_start rd < r_end rs"
    | "r_start rs = r_start rd" "r_end rd < r_end rs" | "r_start rs = r_start rd" "r_end rs < r_end rd"
    | "r_start rs = r_start rd" "r_end rs = r_end rd"
    using w by linarith
  then show ?case
  proof cases
    case 1
    have "\<forall>m<r_end rs. cand_at (rd # dl) m = None" using 1 cand_at_before [OF wd] by auto
    then show ?thesis
      using 1 w wd upd_step_fill [OF ws _ _ _ from_at_tl [OF ws] "3.IH"(1)]
      unfolding eq fill_whole by (simp del: cand_at.simps update_loop.simps)
  next
    case 2
    then show ?thesis
      using w ws upd_step_skip [OF ws _ "3.IH"(2)] unfolding eq
      by (simp del: cand_at.simps update_loop.simps)
  next
    case 3
    then show ?thesis
      using w ws wdt upd_step_cut [OF ws wd _ _ "3.IH"(3)] unfolding eq
      by (simp del: cand_at.simps update_loop.simps)
  next
    case 4
    have "\<forall>m<r_start rd. cand_at (rd # dl) m = None" using cand_at_before [OF wd] by auto
    then show ?thesis
      using 4 w wd wst upd_step_fill [OF ws _ _ _ from_at_start [OF ws] "3.IH"(4)] unfolding eq
      by (simp del: cand_at.simps update_loop.simps)
  next
    case 5
    then show ?thesis
      using w wst upd_step_meet [OF ws wd _ upd_meets_in_place _ _ _ _ from_at_start [OF ws]
          from_at_tl [OF wd] "3.IH"(5)] unfolding eq
      by (simp del: cand_at.simps update_loop.simps)
  next
    case 6
    then show ?thesis
      using w wdt upd_step_meet [OF ws wd _ upd_meets_dup _ _ _ _ from_at_tl [OF ws]
          from_at_start [OF wd] "3.IH"(6)] unfolding eq
      by (simp del: cand_at.simps update_loop.simps)
  next
    case 7
    then have f: "from_at (r_end rd) sl (rs # sl)" using from_at_tl [OF ws] by simp
    show ?thesis
      using 7 w upd_step_meet [OF ws wd _ upd_meets_in_place _ _ _ _ f from_at_tl [OF wd] "3.IH"(7)]
      unfolding eq by (simp del: cand_at.simps update_loop.simps)
  qed
qed simp

lemma update_loop_starts_from:
  assumes "ranges_wf sl" "ranges_wf dl" "starts_from k sl" "starts_from k dl"
  shows "starts_from k (update_loop ds sl dl)"
  using assms
proof (induction ds sl dl rule: update_loop.induct)
  case (3 ds rs sl rd dl)
  have w: "r_start rs < r_end rs" "r_start rd < r_end rd" "ranges_wf sl" "ranges_wf dl"
    using "3.prems" by (simp_all add: ranges_wf_Cons)
  note s1 = ranges_wf_start [OF "3.prems"(1)] and s2 = ranges_wf_start [OF "3.prems"(2)]
  show ?case
    unfolding update_loop.simps(3) [of ds rs sl rd dl]
    using "3.IH" "3.prems" w s1 s2 by (simp del: update_loop.simps)
qed (simp_all add: ranges_wf_Cons)

lemma ranges_wf_fill:
  assumes "r_start rs < e" "starts_from e l" "ranges_wf l"
  shows "ranges_wf (fill_list ds rs e @ l)"
  using assms by (simp add: ranges_wf_iff)

lemma update_loop_wf:
  assumes "ranges_wf sl" "ranges_wf dl"
  shows "ranges_wf (update_loop ds sl dl)"
  using assms
proof (induction ds sl dl rule: update_loop.induct)
  case (2 ds rs sl)
  then show ?case
    using ranges_wf_fill [of rs "r_end rs" "update_loop ds sl []" ds]
      update_loop_starts_from [of sl "[]" "r_end rs" ds]
    by (simp add: ranges_wf_iff fill_whole)
next
  case (3 ds rs sl rd dl)
  have w: "r_start rs < r_end rs" "r_start rd < r_end rd" "ranges_wf sl" "ranges_wf dl"
    and f: "starts_from (r_end rs) sl" "starts_from (r_end rd) dl"
    using "3.prems" by (simp_all add: ranges_wf_iff)
  note s1 = ranges_wf_start [OF "3.prems"(1)] and s2 = ranges_wf_start [OF "3.prems"(2)]
    and fr = update_loop_starts_from starts_from_mono [OF f(1)] starts_from_mono [OF f(2)]
  show ?case
    unfolding update_loop.simps(3) [of ds rs sl rd dl]
    using "3.IH" "3.prems" w f s1 s2
    by (auto simp: ranges_wf_iff [of _ "update_loop _ _ _"] simp del: update_loop.simps intro!: fr)
qed simp

text \<open>The final value: a range whose score is 0 is gone.\<close>

definition drop_zero :: "cand option \<Rightarrow> cand option" where
  "drop_zero c = (case c of None \<Rightarrow> None | Some x \<Rightarrow> if cand_score x = 0 then None else Some x)"

definition updated :: "int \<Rightarrow> cand option \<Rightarrow> cand option \<Rightarrow> cand option \<Rightarrow> bool" where
  "updated ds cd cs c \<longleftrightarrow> (\<exists>c0. upd_spec ds cs cd c0 \<and> c = drop_zero c0)"

lemma ranges_wf_filter: "ranges_wf l \<Longrightarrow> ranges_wf (filter P l)"
  by (induction l) (auto simp: ranges_wf_Cons)

lemma cand_at_filter_zero:
  "ranges_wf l \<Longrightarrow> cand_at (filter (\<lambda>r. ce_score (r_super r) \<noteq> 0) l) m = drop_zero (cand_at l m)"
proof (induction l)
  case (Cons r l)
  have wf: "ranges_wf l" using Cons.prems by (simp add: ranges_wf_Cons)
  have "cand_at l m = None" if "in_range r m"
    using that cand_at_tl_None [OF Cons.prems, of m] by (simp add: in_range_def)
  then show ?case
    using Cons.IH [OF wf] by (auto simp: drop_zero_def cand_score_def cand_def)
qed (simp add: drop_zero_def)

lemma update_one_wf: "ranges_wf dl \<Longrightarrow> ranges_wf sl \<Longrightarrow> ranges_wf (ucc_coll_score_update_one dl sl ds)"
  by (simp add: ucc_coll_score_update_one_def join_ranges_wf ranges_wf_filter update_loop_wf)

lemma update_one_updated:
  assumes "ranges_wf dl" "ranges_wf sl"
  shows "updated ds (cand_at dl m) (cand_at sl m) (cand_at (ucc_coll_score_update_one dl sl ds) m)"
proof -
  let ?l = "update_loop ds sl dl"
  have wf: "ranges_wf ?l" using assms by (simp add: update_loop_wf)
  have "cand_at (join_ranges (filter (\<lambda>r. ce_score (r_super r) \<noteq> 0) ?l)) m = drop_zero (cand_at ?l m)"
    unfolding join_ranges_at [OF ranges_wf_filter [OF wf]] cand_at_filter_zero [OF wf] ..
  moreover have "ucc_coll_score_update_one dl sl ds = join_ranges (filter (\<lambda>r. ce_score (r_super r) \<noteq> 0) ?l)"
    by (simp add: ucc_coll_score_update_one_def)
  ultimately show ?thesis
    using update_loop_spec [OF assms(2,1), of ds m] by (auto simp: updated_def)
qed

interpretation score_update: range_combine ranges_wf cand_at
  "\<lambda>dl sl. ucc_coll_score_update_one dl sl ds" "updated ds" for ds
  by unfold_locales (auto intro: update_one_wf update_one_updated)

section \<open>Properties\<close>

lemma update_fold:
  assumes "distinct ps"
  shows "foldl (\<lambda>s (ct, mt). score_put s ct mt (ucc_coll_score_update_one (s ct mt) (u ct mt) ds)) s ps ct mt
    = (if (ct, mt) \<in> set ps then ucc_coll_score_update_one (s ct mt) (u ct mt) ds else s ct mt)"
  using assms by (induction ps arbitrary: s) (auto simp: score_put_def split: if_splits)

lemma distinct_coll_types: "distinct coll_types" "distinct mem_types"
  by (simp_all add: coll_types_def mem_types_def)

lemma update_at_types:
  assumes "distinct (update_mtypes mtypes mt_n)"
  shows "ucc_coll_score_update s u ds mtypes mt_n colls ct mt
    = (if ct \<in> set (colls_of_mask colls) \<and> mt \<in> set (update_mtypes mtypes mt_n)
       then ucc_coll_score_update_one (s ct mt) (u ct mt) ds else s ct mt)"
proof -
  have "distinct (List.product (colls_of_mask colls) (update_mtypes mtypes mt_n))"
    using assms by (simp add: distinct_product colls_of_mask_def distinct_coll_types)
  then show ?thesis unfolding ucc_coll_score_update_def by (subst update_fold) auto
qed

text \<open>
  C11: updating a table gives well-formed lists for the collectives and memory types it is
  applied to, and at every message size the entry is the updated one: the update's score unless
  it leaves the score alone, its init function and team if it has one with the overridden entry
  among the fallbacks, a new range where there was none, and nothing where the score is 0. All
  other lists are unchanged.
\<close>

theorem coll_score_update_overrides:
  assumes "distinct (update_mtypes mtypes mt_n)"
    and "ranges_wf (s ct mt)" "ranges_wf (u ct mt)"
  shows "ranges_wf (ucc_coll_score_update s u ds mtypes mt_n colls ct mt)
    \<and> (if ct \<in> set (colls_of_mask colls) \<and> mt \<in> set (update_mtypes mtypes mt_n)
       then updated ds (cand_at (s ct mt) m) (cand_at (u ct mt) m)
         (cand_at (ucc_coll_score_update s u ds mtypes mt_n colls ct mt) m)
       else ucc_coll_score_update s u ds mtypes mt_n colls ct mt = s ct mt)"
  using score_update.comb_wf [OF assms(2,3), of ds] score_update.comb_at [OF assms(2,3), of ds m] assms(2)
  by (simp add: update_at_types [OF assms(1)])

theorem coll_score_update_overrides_witness:
  "updated 7 (Some (entry 10 1 1, {})) (Some (entry 20 2 2, {}))
    (cand_at (ucc_coll_score_update (example_scores 10 1 0 100) (example_scores 20 2 50 200) 7 None 0 64
       UCC_COLL_TYPE_BCAST UCC_MEMORY_TYPE_HOST) 60)"
proof -
  have "distinct (update_mtypes None 0)" "UCC_COLL_TYPE_BCAST \<in> set (colls_of_mask 64)"
    "UCC_MEMORY_TYPE_HOST \<in> set (update_mtypes None 0)"
    by (simp_all add: update_mtypes_def distinct_coll_types colls_of_mask_def example_types ucc_bit_set_def)
  then show ?thesis
    using coll_score_update_overrides [of None 0 "example_scores 10 1 0 100" UCC_COLL_TYPE_BCAST
        UCC_MEMORY_TYPE_HOST "example_scores 20 2 50 200" 7 64 60] example_scores_wf
    by (simp add: example_scores_def in_range_def cand_def)
qed



end
