(* ===== verification/Score_Map.thy ===== *)
theory Score_Map
  imports Score_Update
begin

text \<open>
  The score map of \<open>src/coll_score/ucc_coll_score_map.c\<close>: resolving shared boundaries, the
  lookup of a collective and the walk through the fallbacks of the range found.
\<close>

section \<open>Resolving boundaries\<close>

text \<open>The ranges of a list that contain a message size, both ends included.\<close>

definition closed_at :: "ucc_msg_range list \<Rightarrow> nat \<Rightarrow> ucc_msg_range set" where
  "closed_at l m = {r \<in> set l. r_start r \<le> m \<and> m \<le> r_end r}"

definition same_range_entry :: "ucc_msg_range \<Rightarrow> ucc_msg_range \<Rightarrow> bool" where
  "same_range_entry a b \<longleftrightarrow> r_super a = r_super b \<and> r_fallback a = r_fallback b"

text \<open>\<open>best_at l m o\<close>: \<open>o\<close> is a range with the greatest score among those that contain \<open>m\<close>.\<close>

definition best_at :: "ucc_msg_range list \<Rightarrow> nat \<Rightarrow> ucc_msg_range option \<Rightarrow> bool" where
  "best_at l m o' \<longleftrightarrow>
     (case o' of
        None \<Rightarrow> closed_at l m = {}
      | Some r' \<Rightarrow> \<exists>r\<in>closed_at l m. same_range_entry r r'
          \<and> (\<forall>q\<in>closed_at l m. ce_score (r_super q) \<le> ce_score (r_super r)))"

text \<open>
  The loop may leave the head of the remaining list with its start moved up to its end; the
  other ranges are untouched.
\<close>

definition ranges_from :: "ucc_msg_range list \<Rightarrow> bool" where
  "ranges_from l \<longleftrightarrow> (\<forall>r\<in>set l. r_start r \<le> r_end r \<and> 0 < r_end r \<and> r_end r < 2 ^ 64)
     \<and> (\<forall>r\<in>set (tl l). r_start r < r_end r) \<and> sorted_wrt (\<lambda>a b. r_end a \<le> r_start b) l"

lemma closed_at_Cons:
  "closed_at (r # l) m = (if r_start r \<le> m \<and> m \<le> r_end r then {r} else {}) \<union> closed_at l m"
  by (auto simp: closed_at_def)

lemma closed_at_above: "\<forall>r\<in>set l. m < r_start r \<Longrightarrow> closed_at l m = {}"
  by (auto simp: closed_at_def)

lemma best_at_cong: "closed_at l m = closed_at l' m \<Longrightarrow> best_at l m o' = best_at l' m o'"
  unfolding best_at_def by (erule ssubst) (rule refl)

lemma best_at_head:
  assumes "r_start r \<le> m" "m \<le> r_end r" "same_range_entry r r'"
    and "\<forall>q\<in>closed_at l m. ce_score (r_super q) \<le> ce_score (r_super r)"
  shows "best_at (r # l) m (Some r')"
  using assms by (auto simp: best_at_def closed_at_Cons)

lemma best_at_skip:
  assumes "\<not> (r_start r \<le> m \<and> m \<le> r_end r)" "best_at l m o'"
  shows "best_at (r # l) m o'"
proof -
  have "closed_at (r # l) m = closed_at l m" using assms(1) by (auto simp: closed_at_Cons)
  then show ?thesis using assms(2) best_at_cong by blast
qed

lemma best_at_start:
  assumes "k \<noteq> m" "r_start r = k" "best_at (r\<lparr>r_start := k + 1\<rparr> # l) m o'"
  shows "best_at (r # l) m o'"
proof (cases "r_start r \<le> m \<and> m \<le> r_end r")
  case True
  have "best_at (r\<lparr>r_start := k + 1\<rparr> # l) m o' \<longleftrightarrow> best_at (r # l) m o'"
  proof -
    let ?r = "r\<lparr>r_start := k + 1\<rparr>"
    have "closed_at (?r # l) m = insert ?r (closed_at l m)" "closed_at (r # l) m = insert r (closed_at l m)"
      using True assms(1,2) by (auto simp: closed_at_Cons)
    then show ?thesis
      by (auto simp: best_at_def same_range_entry_def split: option.splits)
  qed
  then show ?thesis using assms(3) by simp
next
  case False
  then have "closed_at (r\<lparr>r_start := k + 1\<rparr> # l) m = closed_at (r # l) m"
    using assms(2) by (auto simp: closed_at_Cons)
  then show ?thesis using assms(3) best_at_cong by blast
qed

lemma ranges_from_tl: "ranges_from (r # l) \<Longrightarrow> ranges_from l"
  by (cases l) (auto simp: ranges_from_def)

lemma ranges_from_start:
  "ranges_from (r # n # l) \<Longrightarrow> ranges_from (n\<lparr>r_start := r_start n + 1\<rparr> # l)"
  by (auto simp: ranges_from_def)

lemma resolve_boundaries_best:
  "ranges_from l \<Longrightarrow> best_at l m (find_range m (resolve_boundaries l))"
proof (induction l rule: resolve_boundaries.induct)
  case 1
  then show ?case by (simp add: best_at_def closed_at_def)
next
  case (2 rg)
  then show ?case by (auto simp: best_at_def closed_at_def same_range_entry_def)
next
  case (3 rg nxt rs)
  have wf: "r_start rg \<le> r_end rg" "0 < r_end rg" "r_end rg < 2 ^ 64" "r_end rg \<le> r_start nxt"
      "r_start nxt < r_end nxt" "r_end nxt < 2 ^ 64" "\<forall>x\<in>set rs. r_end nxt \<le> r_start x"
    using "3.prems" by (auto simp: ranges_from_def)
  have rs0: "closed_at rs m = {}" if "m \<le> r_end rg"
    using wf that by (intro closed_at_above) fastforce
  show ?case
  proof (cases "r_end rg = r_start nxt")
    case eq: True
    show ?thesis
    proof (cases "ce_score (r_super rg) > ce_score (r_super nxt)")
      case True
      have u: "u64 (r_start nxt + 1) = r_start nxt + 1" using wf by (intro u64_id) linarith
      have IH: "best_at (nxt\<lparr>r_start := r_start nxt + 1\<rparr> # rs) m
          (find_range m (resolve_boundaries (nxt\<lparr>r_start := r_start nxt + 1\<rparr> # rs)))"
        using "3.IH"(1) [OF eq True] ranges_from_start [OF "3.prems"] u by simp
      show ?thesis
      proof (cases "r_start rg \<le> m \<and> m \<le> r_end rg")
        case in_rg: True
        then have "best_at (rg # nxt # rs) m (Some rg)"
          using True rs0 by (intro best_at_head) (auto simp: same_range_entry_def closed_at_Cons)
        then show ?thesis using eq True in_rg u by simp
      next
        case False
        then have "best_at (nxt # rs) m (find_range m (resolve_boundaries (nxt\<lparr>r_start := r_start nxt + 1\<rparr> # rs)))"
          using eq wf by (intro best_at_start [OF _ refl IH]) auto
        then show ?thesis using eq True False u by (auto intro: best_at_skip)
      qed
    next
      case False
      have s: "sub64 (r_end rg) 1 = r_end rg - 1" using wf by (intro sub64_id) simp_all
      have IH: "best_at (nxt # rs) m (find_range m (resolve_boundaries (nxt # rs)))"
        using "3.IH"(2) [OF eq False] ranges_from_tl [OF "3.prems"] by simp
      show ?thesis
      proof (cases "r_start rg \<le> m \<and> m \<le> r_end rg - 1")
        case in_rg: True
        then have "best_at (rg # nxt # rs) m (Some (rg\<lparr>r_end := r_end rg - 1\<rparr>))"
          using eq wf rs0 by (intro best_at_head) (auto simp: same_range_entry_def closed_at_Cons)
        then show ?thesis using eq False in_rg s by simp
      next
        case out: False
        have "best_at (rg # nxt # rs) m (find_range m (resolve_boundaries (nxt # rs)))"
        proof (cases "m = r_end rg")
          case True
          have c: "closed_at (nxt # rs) m = {nxt}" "closed_at (rg # nxt # rs) m = {rg, nxt}"
            using True eq wf rs0 by (auto simp: closed_at_Cons)
          show ?thesis
            using IH False unfolding best_at_def c by (auto split: option.splits)
        next
          case ne: False
          show ?thesis by (rule best_at_skip [OF _ IH]) (use out ne in auto)
        qed
        then show ?thesis using eq False out s by auto
      qed
    qed
  next
    case ne: False
    have IH: "best_at (nxt # rs) m (find_range m (resolve_boundaries (nxt # rs)))"
      using "3.IH"(3) [OF ne] ranges_from_tl [OF "3.prems"] by simp
    show ?thesis
    proof (cases "r_start rg \<le> m \<and> m \<le> r_end rg")
      case True
      then have "best_at (rg # nxt # rs) m (Some rg)"
        using ne wf rs0 by (intro best_at_head) (auto simp: same_range_entry_def closed_at_Cons)
      then show ?thesis using ne True by simp
    next
      case False
      then show ?thesis using ne IH by (auto intro: best_at_skip)
    qed
  qed
qed

section \<open>The walk through the fallbacks\<close>

definition retry_status :: "ucc_status \<Rightarrow> bool" where
  "retry_status st \<longleftrightarrow> st = UCC_ERR_NOT_SUPPORTED \<or> st = UCC_ERR_NOT_IMPLEMENTED"

lemma fallback_loop_first:
  "\<exists>pre e post. e0 # fbs = pre @ e # post
    \<and> fallback_loop call fbs (call (ce_init e0) (ce_team e0)) = call (ce_init e) (ce_team e)
    \<and> (\<forall>p\<in>set pre. retry_status (fst (call (ce_init p) (ce_team p))))
    \<and> (post = [] \<or> \<not> retry_status (fst (call (ce_init e) (ce_team e))))"
proof (induction fbs arbitrary: e0)
  case Nil
  show ?case by (rule exI [of _ "[]"]) auto
next
  case (Cons fb fbs)
  show ?case
  proof (cases "retry_status (fst (call (ce_init e0) (ce_team e0)))")
    case True
    obtain pre e post where "fb # fbs = pre @ e # post"
      "fallback_loop call fbs (call (ce_init fb) (ce_team fb)) = call (ce_init e) (ce_team e)"
      "\<forall>p\<in>set pre. retry_status (fst (call (ce_init p) (ce_team p)))"
      "post = [] \<or> \<not> retry_status (fst (call (ce_init e) (ce_team e)))"
      using Cons.IH [of fb] by blast
    moreover have "fallback_loop call (fb # fbs) (call (ce_init e0) (ce_team e0))
        = fallback_loop call fbs (call (ce_init fb) (ce_team fb))"
      using True by (simp add: retry_status_def)
    ultimately have "e0 # fb # fbs = (e0 # pre) @ e # post
        \<and> fallback_loop call (fb # fbs) (call (ce_init e0) (ce_team e0)) = call (ce_init e) (ce_team e)
        \<and> (\<forall>p\<in>set (e0 # pre). retry_status (fst (call (ce_init p) (ce_team p))))
        \<and> (post = [] \<or> \<not> retry_status (fst (call (ce_init e) (ce_team e))))"
      using True by simp
    then show ?thesis by blast
  next
    case False
    then have "e0 # fb # fbs = [] @ e0 # (fb # fbs)
        \<and> fallback_loop call (fb # fbs) (call (ce_init e0) (ce_team e0)) = call (ce_init e0) (ce_team e0)"
      by (simp add: retry_status_def)
    then show ?thesis using False by (metis empty_iff empty_set)
  qed
qed

section \<open>Adding a range\<close>

definition disjoint_from :: "ucc_msg_range \<Rightarrow> ucc_msg_range list \<Rightarrow> bool" where
  "disjoint_from r l \<longleftrightarrow> (\<forall>x\<in>set l. r_end r \<le> r_start x \<or> r_end x \<le> r_start r)"

lemma range_insert_iff:
  assumes "ranges_wf l" "r_start r < r_end r"
  shows "(range_insert r l \<noteq> None) = disjoint_from r l"
  using assms(1)
proof (induction l)
  case (Cons x l)
  have wf: "ranges_wf l" "r_start x < r_end x" "\<forall>y\<in>set l. r_end x \<le> r_start y"
    using Cons.prems by (simp_all add: ranges_wf_Cons)
  have d: "disjoint_from r (x # l) \<longleftrightarrow>
      (r_end r \<le> r_start x \<or> r_end x \<le> r_start r) \<and> disjoint_from r l"
    by (simp add: disjoint_from_def)
  have "disjoint_from r l" if "r_end r \<le> r_start x"
    using that wf(2,3) by (force simp: disjoint_from_def)
  then show ?case using Cons.IH [OF wf(1)] wf(2) unfolding d by auto
qed (simp add: disjoint_from_def)

lemma range_insert_props:
  assumes "ranges_wf l" "r_start r < r_end r" "range_insert r l = Some l'"
  shows "ranges_wf l' \<and> set l' = insert r (set l)
    \<and> (\<forall>m. cand_at l' m = (if in_range r m then Some (cand r) else cand_at l m))"
  using assms(1,3)
proof (induction l arbitrary: l')
  case (Cons x l)
  have wf: "ranges_wf l" "r_start x < r_end x" "\<forall>y\<in>set l. r_end x \<le> r_start y"
    using Cons.prems(1) by (simp_all add: ranges_wf_Cons)
  show ?case
  proof (cases "r_start r \<ge> r_end x")
    case True
    then obtain l1 where l1: "range_insert r l = Some l1" "l' = x # l1" using Cons.prems(2) by auto
    note IH = Cons.IH [OF wf(1) l1(1)]
    have "\<not> (in_range x m \<and> in_range r m)" for m using True by (auto simp: in_range_def)
    then show ?thesis using IH True wf l1(2) by (auto simp: ranges_wf_Cons)
  next
    case False
    then have l': "l' = r # x # l" "r_end r \<le> r_start x" using Cons.prems(2) by (auto split: if_splits)
    then show ?thesis using Cons.prems(1) assms(2) wf by (fastforce simp: ranges_wf_Cons)
  qed
qed (use assms(2) in \<open>auto simp: ranges_wf_Cons\<close>)

section \<open>Properties\<close>

definition map_mem_type :: "ucc_coll_args \<Rightarrow> ucc_rank \<Rightarrow> ucc_memory_type" where
  "map_mem_type args rank =
     (let mt = ucc_coll_args_mem_type args rank
      in if mt = UCC_MEMORY_TYPE_NOT_APPLY then UCC_MEMORY_TYPE_HOST else mt)"

lemma wf_ranges_from:
  assumes "ranges_wf l" "\<forall>r\<in>set l. r_end r < 2 ^ 64"
  shows "ranges_from l"
  using assms by (cases l) (auto simp: ranges_wf_def ranges_from_def dest: order_less_imp_le gr_implies_not0)

text \<open>
  C13: the map built from a well-formed table finds, for the message size of a collective, a
  range with the greatest score among all ranges whose closed interval contains the size; it
  reports that the collective is not supported exactly when there is none.
\<close>

theorem score_map_lookup_best:
  assumes "\<forall>ct mt. ranges_wf (score ct mt) \<and> (\<forall>r\<in>set (score ct mt). r_end r < 2 ^ 64)"
    and "m = ucc_coll_score_build_map team_params score"
    and "ucc_coll_args_msgsize args (sm_team_rank m) (sm_team_size m) = Some msgsize"
    and "coll_type args \<in> set coll_types" "map_mem_type args (sm_team_rank m) \<in> set mem_types"
  shows "\<exists>res. best_at (score (coll_type args) (map_mem_type args (sm_team_rank m)))
      (lookup_msgsize msgsize) res
    \<and> ucc_coll_score_map_lookup m args
      = Some (case res of None \<Rightarrow> Inl UCC_ERR_NOT_SUPPORTED | Some r \<Rightarrow> Inr r)"
proof -
  let ?l = "score (coll_type args) (map_mem_type args (sm_team_rank m))"
  let ?res = "find_range (lookup_msgsize msgsize) (resolve_boundaries ?l)"
  have "ranges_from ?l" using assms(1) by (intro wf_ranges_from) auto
  then have "best_at ?l (lookup_msgsize msgsize) ?res" by (rule resolve_boundaries_best)
  moreover have "sm_score m (coll_type args) (map_mem_type args (sm_team_rank m)) = resolve_boundaries ?l"
    using assms(2,4,5) by (simp add: ucc_coll_score_build_map_def split: prod.splits)
  ultimately show ?thesis
    using assms(3) unfolding ucc_coll_score_map_lookup_def map_mem_type_def Let_def
    by (intro exI [of _ ?res])
      (simp split: option.splits del: ucc_coll_args_mem_type.simps ucc_coll_args_msgsize.simps
        add: map_mem_type_def Let_def)
qed

definition example_bcast :: ucc_coll_args where
  "example_bcast = example_v_args\<lparr>coll_type := UCC_COLL_TYPE_BCAST,
     args_src := (args_src example_v_args)
       \<lparr>info := (info (args_src example_v_args))\<lparr>buf_count := 15, mem_type := UCC_MEMORY_TYPE_HOST\<rparr>\<rparr>\<rparr>"

lemma example_bcast_facts:
  "coll_type example_bcast = UCC_COLL_TYPE_BCAST" "map_mem_type example_bcast r = UCC_MEMORY_TYPE_HOST"
  "ucc_coll_args_msgsize example_bcast r n = Some 60"
  by (simp_all add: example_bcast_def example_v_args_def map_mem_type_def Let_def info_bytes_def
      ucc_dt_predefined_sizes_def u64_def)

theorem score_map_lookup_best_witness:
  "\<exists>res. best_at (example_scores 10 1 0 60 UCC_COLL_TYPE_BCAST UCC_MEMORY_TYPE_HOST) 60 res
    \<and> ucc_coll_score_map_lookup (ucc_coll_score_build_map (\<lambda>t. (4, 0)) (example_scores 10 1 0 60)) example_bcast
      = Some (case res of None \<Rightarrow> Inl UCC_ERR_NOT_SUPPORTED | Some r \<Rightarrow> Inr r)"
proof -
  have "\<forall>ct mt. ranges_wf (example_scores 10 1 0 60 ct mt)
      \<and> (\<forall>r\<in>set (example_scores 10 1 0 60 ct mt). r_end r < 2 ^ 64)"
    using example_scores_wf by (simp add: example_scores_def)
  then show ?thesis
    using score_map_lookup_best [of "example_scores 10 1 0 60" _ "\<lambda>t. (4, 0)" example_bcast 60]
      example_types by (simp add: example_bcast_facts lookup_msgsize_def UCC_MSG_SIZE_INVALID_def
        UCC_MSG_SIZE_ASYMMETRIC_def del: ucc_coll_args_msgsize.simps)
qed

text \<open>
  C14: initialising a collective calls the init function of the range found and then those of
  its fallbacks in order; it stops at the first that does not answer that the collective is
  unsupported or unimplemented, and the result is that of the last call made.
\<close>

theorem coll_init_first_supported:
  assumes "ucc_coll_score_map_lookup m args = Some (Inr r)"
  shows "\<exists>pre e post. r_super r # r_fallback r = pre @ e # post
    \<and> ucc_coll_init call no_task m args = Some (call (ce_init e) (ce_team e))
    \<and> (\<forall>p\<in>set pre. retry_status (fst (call (ce_init p) (ce_team p))))
    \<and> (post = [] \<or> \<not> retry_status (fst (call (ce_init e) (ce_team e))))"
proof (cases "fst (call (ce_init (r_super r)) (ce_team (r_super r))) = UCC_OK")
  case True
  then have "r_super r # r_fallback r = [] @ r_super r # r_fallback r
      \<and> ucc_coll_init call no_task m args = Some (call (ce_init (r_super r)) (ce_team (r_super r)))
      \<and> \<not> retry_status (fst (call (ce_init (r_super r)) (ce_team (r_super r))))"
    using assms by (simp add: ucc_coll_init_def retry_status_def)
  then show ?thesis by (metis empty_iff empty_set)
next
  case False
  then show ?thesis
    using assms fallback_loop_first [of "r_super r" "r_fallback r" call]
    by (simp add: ucc_coll_init_def Let_def)
qed

text \<open>A call that is supported by team 2 only; team 1 is found first.\<close>

definition example_call :: "nat option \<Rightarrow> nat \<Rightarrow> ucc_status \<times> nat" where
  "example_call f t = (if t = 2 then (UCC_OK, t) else (UCC_ERR_NOT_SUPPORTED, 0))"

definition example_map2 :: ucc_score_map where
  "example_map2 = \<lparr>sm_score = (\<lambda>ct mt. [\<lparr>r_super = entry 20 1 1, r_fallback = [entry 10 2 2],
       r_start = 0, r_end = 100\<rparr>]), sm_team_size = 4, sm_team_rank = 0\<rparr>"

theorem coll_init_first_supported_witness:
  "\<exists>pre e post. [entry 20 1 1, entry 10 2 2] = pre @ e # post
    \<and> ucc_coll_init example_call 0 example_map2 example_bcast = Some (example_call (ce_init e) (ce_team e))
    \<and> (post = [] \<or> \<not> retry_status (fst (example_call (ce_init e) (ce_team e))))"
proof -
  have "ucc_coll_score_map_lookup example_map2 example_bcast
      = Some (Inr \<lparr>r_super = entry 20 1 1, r_fallback = [entry 10 2 2], r_start = 0, r_end = 100\<rparr>)"
    unfolding ucc_coll_score_map_lookup_def Let_def
    by (simp add: example_bcast_facts example_map2_def lookup_msgsize_def
        UCC_MSG_SIZE_INVALID_def UCC_MSG_SIZE_ASYMMETRIC_def
        del: ucc_coll_args_msgsize.simps ucc_coll_args_mem_type.simps)
  from coll_init_first_supported [OF this, of example_call 0] show ?thesis
    by (simp del: append_eq_Cons_conv) blast
qed

text \<open>
  adding a range to a well-formed table succeeds exactly when the range is not empty and
  meets no range of its list; then the table maps the sizes of the range to the new entry and is
  otherwise unchanged. A refused range leaves the table as it was.
\<close>

theorem coll_score_add_range_correct:
  assumes "ranges_wf (s ct mt)" "coll_score_add_range s ct mt b e sc f t = (st, s')"
  shows "if b < e \<and> (\<forall>x\<in>set (s ct mt). e \<le> r_start x \<or> r_end x \<le> b)
    then st = UCC_OK \<and> ranges_wf (s' ct mt)
      \<and> (\<forall>m. cand_at (s' ct mt) m = (if b \<le> m \<and> m < e
          then Some (\<lparr>ce_score = sc, ce_init = f, ce_team = t\<rparr>, {}) else cand_at (s ct mt) m))
      \<and> (\<forall>ct' mt'. (ct', mt') \<noteq> (ct, mt) \<longrightarrow> s' ct' mt' = s ct' mt')
    else st = UCC_ERR_INVALID_PARAM \<and> s' = s"
proof (cases "b < e")
  case True
  let ?r = "\<lparr>r_super = \<lparr>ce_score = sc, ce_init = f, ce_team = t\<rparr>, r_fallback = [], r_start = b, r_end = e\<rparr>"
  have lt: "r_start ?r < r_end ?r" using True by simp
  show ?thesis
  proof (cases "range_insert ?r (s ct mt)")
    case None
    then have "\<not> disjoint_from ?r (s ct mt)" using range_insert_iff [OF assms(1) lt] by simp
    then show ?thesis
      using None True assms(2) by (auto simp: coll_score_add_range_def disjoint_from_def)
  next
    case (Some l)
    then have "disjoint_from ?r (s ct mt)" using range_insert_iff [OF assms(1) lt] by simp
    then show ?thesis
      using Some True assms(2) range_insert_props [OF assms(1) lt Some]
      by (auto simp: coll_score_add_range_def disjoint_from_def score_put_def in_range_def cand_def)
  qed
qed (use assms(2) in \<open>auto simp: coll_score_add_range_def\<close>)

theorem coll_score_add_range_correct_witness:
  "\<exists>s'. coll_score_add_range (example_scores 10 1 0 60) UCC_COLL_TYPE_BCAST UCC_MEMORY_TYPE_HOST
        60 90 5 None 2 = (UCC_OK, s')
    \<and> cand_at (s' UCC_COLL_TYPE_BCAST UCC_MEMORY_TYPE_HOST) 70
      = Some (\<lparr>ce_score = 5, ce_init = None, ce_team = 2\<rparr>, {})"
proof -
  obtain st s' where a: "coll_score_add_range (example_scores 10 1 0 60) UCC_COLL_TYPE_BCAST
      UCC_MEMORY_TYPE_HOST 60 90 5 None 2 = (st, s')"
    by (cases "coll_score_add_range (example_scores 10 1 0 60) UCC_COLL_TYPE_BCAST
      UCC_MEMORY_TYPE_HOST 60 90 5 None 2") auto
  have "\<forall>x\<in>set (example_scores 10 1 0 60 UCC_COLL_TYPE_BCAST UCC_MEMORY_TYPE_HOST).
      90 \<le> r_start x \<or> r_end x \<le> 60"
    by (simp add: example_scores_def)
  then show ?thesis
    using coll_score_add_range_correct [OF example_scores_wf a] a by simp
qed

end
