(* ===== verification/Knomial.thy ===== *)
theory Knomial
  imports Ep_Map "HOL-Library.Multiset"
begin

text \<open>
  The recursive k-nomial pattern of \<open>src/coll_patterns/recursive_knomial.h\<close>: a team of
  \<open>size\<close> ranks is cut into full subtrees of \<open>radix ^ k\<close> ranks; the ranks left over are extras,
  each served by a proxy, and the others exchange data with \<open>radix - 1\<close> peers per iteration.
\<close>

section \<open>The pattern\<close>

datatype kn_node = KN_NODE_BASE | KN_NODE_PROXY | KN_NODE_EXTRA

datatype kn_pattern_type =
    KN_PATTERN_NONE
  | KN_PATTERN_REDUCE_SCATTER
  | KN_PATTERN_REDUCE_SCATTERX
  | KN_PATTERN_REDUCE_SCATTERV
  | KN_PATTERN_ALLGATHER
  | KN_PATTERN_ALLGATHERV
  | KN_PATTERN_ALLGATHERX
  | KN_PATTERN_GATHER
  | KN_PATTERN_GATHERX

record ucc_knomial_pattern =
  kp_radix :: nat
  kp_type :: kn_pattern_type
  kp_iteration :: nat
  kp_n_iters :: nat
  kp_pow_radix_sup :: nat
  kp_node_type :: kn_node
  kp_backward :: bool
  kp_radix_pow :: nat
  kp_full_pow_size :: nat
  kp_size :: nat
  kp_rank :: nat
  kp_n_extra :: nat
  kp_block_size_counts :: nat
  kp_count :: nat
  kp_counts :: "nat list"
  kp_block_size :: nat
  kp_block_offset :: int
  kp_is64 :: bool

definition UCC_KN_PEER_NULL :: nat where "UCC_KN_PEER_NULL = 2 ^ 32 - 1"

definition ucc_kn_pattern_n_full :: "ucc_knomial_pattern \<Rightarrow> nat" where
  "ucc_kn_pattern_n_full p = kp_size p div kp_full_pow_size p"

definition ucc_kn_pattern_radix_pow_init :: "ucc_knomial_pattern \<Rightarrow> bool \<Rightarrow> nat" where
  "ucc_kn_pattern_radix_pow_init p backward =
     (let n_full = ucc_kn_pattern_n_full p
      in if backward then
           (if n_full = 1 then kp_full_pow_size p div kp_radix p else kp_full_pow_size p)
         else 1)"

text \<open>The loop that finds the first power of the radix that reaches the size.\<close>

partial_function (option) kn_pow_loop :: "nat \<Rightarrow> nat \<Rightarrow> nat \<Rightarrow> nat \<Rightarrow> (nat \<times> nat) option" where
  "kn_pow_loop n radix prs fs =
     (if fs < n then kn_pow_loop n radix (u8 (prs + 1)) (u32 (fs * radix)) else Some (prs, fs))"

text \<open>
  \<open>ucc_knomial_pattern_init_impl\<close> sets the fields of \<open>p\<close> in order; the fields the routine does
  not set keep their values.
\<close>

definition ucc_knomial_pattern_init_impl ::
    "nat \<Rightarrow> ucc_rank \<Rightarrow> nat \<Rightarrow> ucc_knomial_pattern \<Rightarrow> bool \<Rightarrow> bool \<Rightarrow> ucc_knomial_pattern option" where
  "ucc_knomial_pattern_init_impl n rank radix p backward has_extra =
     (case kn_pow_loop n radix 1 radix of
        None \<Rightarrow> None
      | Some (prs, fs) \<Rightarrow>
          let p1 = p\<lparr>kp_pow_radix_sup := prs,
                     kp_full_pow_size := (if fs \<noteq> n then fs div radix else fs),
                     kp_radix := radix, kp_size := n, kp_rank := rank, kp_backward := backward,
                     kp_iteration := 0\<rparr>;
              n_full_subtrees = ucc_kn_pattern_n_full p1;
              n_extra = (if has_extra then sub32 n (u32 (n_full_subtrees * kp_full_pow_size p1)) else 0);
              p2 = p1\<lparr>kp_n_extra := n_extra,
                      kp_n_iters := (if n_extra \<noteq> 0 \<and> n_full_subtrees = 1 then prs - 1 else prs)\<rparr>;
              p3 = p2\<lparr>kp_radix_pow := ucc_kn_pattern_radix_pow_init p2 backward\<rparr>
          in Some (p3\<lparr>kp_node_type :=
                 (if rank < u32 (n_extra * 2)
                  then (if rank mod 2 \<noteq> 0 then KN_NODE_EXTRA else KN_NODE_PROXY)
                  else KN_NODE_BASE)\<rparr>))"

definition ucc_knomial_pattern_init_backward ::
    "nat \<Rightarrow> ucc_rank \<Rightarrow> nat \<Rightarrow> ucc_knomial_pattern \<Rightarrow> ucc_knomial_pattern option" where
  "ucc_knomial_pattern_init_backward n rank radix p = ucc_knomial_pattern_init_impl n rank radix p True True"

definition ucc_knomial_pattern_init ::
    "nat \<Rightarrow> ucc_rank \<Rightarrow> nat \<Rightarrow> ucc_knomial_pattern \<Rightarrow> ucc_knomial_pattern option" where
  "ucc_knomial_pattern_init n rank radix p = ucc_knomial_pattern_init_impl n rank radix p False True"

definition ucc_knomial_pattern_init_no_extra ::
    "nat \<Rightarrow> ucc_rank \<Rightarrow> nat \<Rightarrow> ucc_knomial_pattern \<Rightarrow> ucc_knomial_pattern option" where
  "ucc_knomial_pattern_init_no_extra n rank radix p = ucc_knomial_pattern_init_impl n rank radix p False False"

definition ucc_knomial_pattern_get_proxy :: "ucc_knomial_pattern \<Rightarrow> ucc_rank \<Rightarrow> ucc_rank" where
  "ucc_knomial_pattern_get_proxy p rank = sub32 rank 1"

definition ucc_knomial_pattern_get_extra :: "ucc_knomial_pattern \<Rightarrow> ucc_rank \<Rightarrow> ucc_rank" where
  "ucc_knomial_pattern_get_extra p rank = u32 (rank + 1)"

definition ucc_knomial_pattern_loop_done :: "ucc_knomial_pattern \<Rightarrow> bool" where
  "ucc_knomial_pattern_loop_done p = (kp_iteration p = kp_n_iters p)"

definition ucc_knomial_pattern_loop_first_iteration :: "ucc_knomial_pattern \<Rightarrow> bool" where
  "ucc_knomial_pattern_loop_first_iteration p = (kp_iteration p = 0)"

definition ucc_knomial_pattern_loop_last_iteration :: "ucc_knomial_pattern \<Rightarrow> bool" where
  "ucc_knomial_pattern_loop_last_iteration p = (int (kp_iteration p) = int (kp_n_iters p) - 1)"

definition ucc_knomial_pattern_loop_rank :: "ucc_knomial_pattern \<Rightarrow> ucc_rank \<Rightarrow> ucc_rank" where
  "ucc_knomial_pattern_loop_rank p rank =
     (if rank < u32 (kp_n_extra p * 2) then rank div 2 else sub32 rank (kp_n_extra p))"

definition ucc_knomial_pattern_loop_rank_inv :: "ucc_knomial_pattern \<Rightarrow> ucc_rank \<Rightarrow> ucc_rank" where
  "ucc_knomial_pattern_loop_rank_inv p rank =
     (if rank < kp_n_extra p then u32 (rank * 2) else u32 (rank + kp_n_extra p))"

definition kn_step_size :: "ucc_knomial_pattern \<Rightarrow> nat" where
  "kn_step_size p = u32 (kp_radix_pow p * kp_radix p)"

definition ucc_knomial_pattern_get_loop_peer :: "ucc_knomial_pattern \<Rightarrow> ucc_rank \<Rightarrow> nat \<Rightarrow> ucc_rank" where
  "ucc_knomial_pattern_get_loop_peer p rank loop_step =
     (let loop_rank = ucc_knomial_pattern_loop_rank p rank;
          step_size = kn_step_size p;
          peer = u32 (u32 (loop_rank + u32 (loop_step * kp_radix_pow p)) mod step_size
                   + ucc_align_down loop_rank step_size)
      in if peer \<ge> sub32 (kp_size p) (kp_n_extra p) then UCC_KN_PEER_NULL
         else ucc_knomial_pattern_loop_rank_inv p peer)"

definition ucc_knomial_pattern_get_base_rank :: "ucc_knomial_pattern \<Rightarrow> ucc_rank \<Rightarrow> ucc_rank" where
  "ucc_knomial_pattern_get_base_rank p rank =
     (let step_size = kn_step_size p;
          lrank = ucc_knomial_pattern_loop_rank p rank;
          s = u16 (sub32 (u32 (sub32 step_size (lrank mod step_size) + kp_radix_pow p)) 1 div kp_radix_pow p)
      in if s = kp_radix p then rank else ucc_knomial_pattern_get_loop_peer p rank s)"

definition ucc_knomial_pattern_next_iteration :: "ucc_knomial_pattern \<Rightarrow> ucc_knomial_pattern" where
  "ucc_knomial_pattern_next_iteration p =
     p\<lparr>kp_iteration := u8 (kp_iteration p + 1), kp_radix_pow := u32 (kp_radix_pow p * kp_radix p)\<rparr>"

definition ucc_knomial_pattern_prev_iteration :: "ucc_knomial_pattern \<Rightarrow> ucc_knomial_pattern" where
  "ucc_knomial_pattern_prev_iteration p =
     p\<lparr>kp_iteration := u8 (kp_iteration p + 255), kp_radix_pow := kp_radix_pow p div kp_radix p\<rparr>"

definition ucc_knomial_pattern_next_iteration_backward :: "ucc_knomial_pattern \<Rightarrow> ucc_knomial_pattern" where
  "ucc_knomial_pattern_next_iteration_backward p =
     p\<lparr>kp_iteration := u8 (kp_iteration p + 1), kp_radix_pow := kp_radix_pow p div kp_radix p\<rparr>"

section \<open>Choosing a radix\<close>

definition ucc_knomial_pattern_get_min_radix :: "nat \<Rightarrow> nat \<Rightarrow> nat \<Rightarrow> nat" where
  "ucc_knomial_pattern_get_min_radix cfg_radix team_size cnt =
     (let radix = u16 (min cfg_radix team_size)
      in if u64 (u64 (sub64 (u64 (cnt + radix)) 1 div radix) * (radix - 1)) > cnt \<or> radix - 1 > cnt
         then 2 else radix)"

text \<open>
  The loops end or run forever as the source's do; the distance and the powers are 32-bit.
\<close>

partial_function (option) recv_dist_loop :: "nat \<Rightarrow> ucc_rank \<Rightarrow> nat \<Rightarrow> nat \<Rightarrow> nat option" where
  "recv_dist_loop team_size rank radix dist =
     (if dist \<le> team_size then
        if rank < u32 (0 + u32 (radix * dist)) then Some dist
        else recv_dist_loop team_size rank radix (u32 (dist * radix))
      else Some dist)"

definition ucc_knomial_calc_recv_dist :: "nat \<Rightarrow> ucc_rank \<Rightarrow> nat \<Rightarrow> ucc_rank \<Rightarrow> nat option" where
  "ucc_knomial_calc_recv_dist team_size rank radix root =
     (if rank = root then Some 0 else recv_dist_loop team_size rank radix 1)"

partial_function (option) opt_pow_loop :: "nat \<Rightarrow> nat \<Rightarrow> nat \<Rightarrow> nat option" where
  "opt_pow_loop team_size r fs =
     (if fs < team_size then opt_pow_loop team_size r (u32 (fs * r)) else Some fs)"

partial_function (option) opt_radix_loop :: "nat \<Rightarrow> nat \<Rightarrow> nat \<Rightarrow> nat \<Rightarrow> nat \<Rightarrow> nat option" where
  "opt_radix_loop team_size max_r r min_val min_i =
     (if r \<le> max_r then
        Option.bind (opt_pow_loop team_size r r) (\<lambda>fs0.
          let fs = (if fs0 = team_size then fs0 else fs0 div r);
              n_extra = sub32 team_size (u32 (team_size div fs * fs))
          in if n_extra = 0 then Some r
             else if n_extra < min_val then opt_radix_loop team_size max_r (u16 (r + 1)) n_extra r
             else opt_radix_loop team_size max_r (u16 (r + 1)) min_val min_i)
      else Some min_i)"

definition ucc_kn_get_opt_radix :: "nat \<Rightarrow> nat \<Rightarrow> nat \<Rightarrow> nat option" where
  "ucc_kn_get_opt_radix team_size min_radix max_radix =
     opt_radix_loop team_size (max max_radix min_radix) min_radix team_size min_radix"

section \<open>Initialisation\<close>

text \<open>The team sizes and radices for which the powers stay inside 32 bits.\<close>

definition kn_args_ok :: "nat \<Rightarrow> nat \<Rightarrow> bool" where
  "kn_args_ok n radix \<longleftrightarrow> 2 \<le> radix \<and> radix < 2 ^ 16 \<and> 1 \<le> n \<and> n * radix < 2 ^ 32"

lemma pow_lt_imp_exp:
  fixes R k n :: nat
  assumes "2 \<le> R" "R ^ k < n" "n < 2 ^ 32"
  shows "k < 32"
proof (rule ccontr)
  assume "\<not> k < 32"
  then have "(2::nat) ^ 32 \<le> 2 ^ k" by (intro power_increasing) simp_all
  also have "\<dots> \<le> R ^ k" using assms(1) by (simp add: power_mono)
  finally show False using assms(2,3) by linarith
qed

lemma kn_args_lt: "kn_args_ok n radix \<Longrightarrow> n < 2 ^ 32"
proof -
  assume a: "kn_args_ok n radix"
  then have "n * 2 \<le> n * radix" by (simp add: kn_args_ok_def)
  then show ?thesis using a unfolding kn_args_ok_def by linarith
qed

lemma pow_mult_lt:
  assumes "kn_args_ok n radix" "x < n"
  shows "x * radix < 2 ^ 32"
proof -
  have "x * radix \<le> n * radix" using assms(2) by (intro mult_le_mono1) simp
  then show ?thesis using assms(1) unfolding kn_args_ok_def by linarith
qed

lemma kn_pow_loop_returns:
  assumes ok: "kn_args_ok n radix"
    and k: "1 \<le> k" "k = 1 \<or> radix ^ (k - 1) < n"
  shows "\<exists>j\<ge>k. kn_pow_loop n radix k (radix ^ k) = Some (j, radix ^ j) \<and> n \<le> radix ^ j
    \<and> (j = 1 \<or> radix ^ (j - 1) < n)"
  using k
proof (induction "n - radix ^ k" arbitrary: k rule: less_induct)
  case less
  have R: "2 \<le> radix" using ok by (simp add: kn_args_ok_def)
  show ?case
  proof (cases "radix ^ k < n")
    case True
    have "k < 32" by (rule pow_lt_imp_exp [OF R True kn_args_lt [OF ok]])
    then have u: "u8 (k + 1) = k + 1" "u32 (radix ^ k * radix) = radix ^ (k + 1)"
      using pow_mult_lt [OF ok True] by (simp_all add: u8_id u32_id mult.commute)
    have "radix ^ k < radix ^ (k + 1)" using R by simp
    then have "n - radix ^ (k + 1) < n - radix ^ k" using True by linarith
    from less.hyps [OF this] True
    obtain j where j: "j \<ge> k + 1" "kn_pow_loop n radix (k + 1) (radix ^ (k + 1)) = Some (j, radix ^ j)"
      "n \<le> radix ^ j" "j = 1 \<or> radix ^ (j - 1) < n"
      by auto
    have "kn_pow_loop n radix k (radix ^ k) = kn_pow_loop n radix (k + 1) (radix ^ (k + 1))"
      by (subst kn_pow_loop.simps) (simp only: True u if_True)
    then show ?thesis using j by (intro exI [of _ j]) auto
  next
    case False
    then show ?thesis using less.prems by (intro exI [of _ k]) (auto simp: kn_pow_loop.simps)
  qed
qed

text \<open>
  What the initialisation establishes: the full subtree size is the greatest power of the radix
  that is at most the team size, the extras are the remainder, and the number of iterations is
  the least that covers the ranks of the main loop.
\<close>

definition kn_pattern_wf :: "ucc_knomial_pattern \<Rightarrow> nat \<Rightarrow> bool" where
  "kn_pattern_wf p e \<longleftrightarrow>
     (let R = kp_radix p; n = kp_size p
      in kn_args_ok n R \<and> kp_full_pow_size p = R ^ e \<and> R ^ e \<le> n \<and> n < R ^ (e + 1)
       \<and> kp_n_extra p = n mod R ^ e
       \<and> n - kp_n_extra p \<le> R ^ kp_n_iters p \<and> kp_n_iters p \<le> e + 1
       \<and> kp_n_iters p < 256
       \<and> (2 \<le> n \<longrightarrow> kp_n_iters p = (if n div R ^ e = 1 then e else e + 1)))"

lemma kn_n_iters_exact:
  fixes n R j e :: nat
  assumes R: "2 \<le> R" "2 \<le> n" and j: "1 \<le> j" "j = 1 \<or> R ^ (j - 1) < n"
    and e: "e = (if R ^ j = n then j else j - 1)"
  shows "(if n mod R ^ e \<noteq> 0 \<and> n div R ^ e = 1 then j - 1 else j) = (if n div R ^ e = 1 then e else e + 1)"
proof (cases "R ^ j = n")
  case True
  have "n div R ^ e = 1" using True R by (simp add: e)
  then show ?thesis using True by (simp add: e)
next
  case False
  then have e': "e = j - 1" by (simp add: e)
  have "n mod R ^ e \<noteq> 0" if one: "n div R ^ e = 1"
  proof
    assume "n mod R ^ e = 0"
    then have "n = R ^ e" using one div_mult_mod_eq [of n "R ^ e"] by simp
    then show False using j(2) R(2) by (auto simp: e')
  qed
  then show ?thesis using e' j(1) by auto
qed

lemma kn_init_returns:
  assumes ok: "kn_args_ok n radix"
  obtains p' e where "ucc_knomial_pattern_init_impl n rank radix p backward True = Some p'"
    "kn_pattern_wf p' e" "kp_size p' = n" "kp_radix p' = radix" "kp_rank p' = rank"
    "kp_iteration p' = 0" "kp_backward p' = backward"
    "kp_radix_pow p' = (if backward then (if n div radix ^ e = 1 then radix ^ e div radix else radix ^ e) else 1)"
    "kp_node_type p' = (if rank < 2 * kp_n_extra p'
       then (if odd rank then KN_NODE_EXTRA else KN_NODE_PROXY) else KN_NODE_BASE)"
proof -
  have R: "2 \<le> radix" "1 \<le> n" using ok by (simp_all add: kn_args_ok_def)
  obtain j where j: "j \<ge> 1" "kn_pow_loop n radix 1 radix = Some (j, radix ^ j)" "n \<le> radix ^ j"
    "j = 1 \<or> radix ^ (j - 1) < n"
    using kn_pow_loop_returns [OF ok, of 1] by auto
  define e where "e = (if radix ^ j = n then j else j - 1)"
  have pos: "0 < radix ^ e" using R by simp
  have full: "(if radix ^ j \<noteq> n then radix ^ j div radix else radix ^ j) = radix ^ e"
    using j(1) R by (cases j) (auto simp: e_def)
  have le: "radix ^ e \<le> n" using j(3,4) R by (auto simp: e_def)
  have lt: "n < radix ^ (e + 1)"
    using j(1,3) R by (cases j) (auto simp: e_def)
  have extra: "sub32 n (u32 (n div radix ^ e * radix ^ e)) = n mod radix ^ e"
  proof -
    have le1: "n div radix ^ e * radix ^ e \<le> n" by (rule div_times_less_eq_dividend)
    have "u32 (n div radix ^ e * radix ^ e) = n div radix ^ e * radix ^ e"
      using le1 kn_args_lt [OF ok] by (intro u32_id) linarith
    then show ?thesis using sub32_id [OF le1 kn_args_lt [OF ok]] by (simp add: minus_div_mult_eq_mod)
  qed
  have mod_lt: "n mod radix ^ e * 2 \<le> n"
  proof -
    have "n mod radix ^ e < radix ^ e" using pos by simp
    moreover have "n = n div radix ^ e * radix ^ e + n mod radix ^ e"
      by (rule div_mult_mod_eq [symmetric])
    moreover have "1 * radix ^ e \<le> n div radix ^ e * radix ^ e"
      using le pos by (intro mult_le_mono1) (simp add: Suc_le_eq div_greater_zero_iff)
    ultimately show ?thesis by linarith
  qed
  have u2: "u32 (n mod radix ^ e * 2) = n mod radix ^ e * 2"
    using mod_lt kn_args_lt [OF ok] by (intro u32_id) linarith
  let ?iters = "if n mod radix ^ e \<noteq> 0 \<and> n div radix ^ e = 1 then j - 1 else j"
  have sub: "n - n mod radix ^ e = n div radix ^ e * radix ^ e" by (simp add: minus_mod_eq_div_mult)
  have iters: "n - n mod radix ^ e \<le> radix ^ ?iters" "?iters \<le> e + 1"
    using j(1,3) sub by (auto simp: e_def split: if_splits)
  have "j < 256"
  proof (cases "j = 1")
    case False
    then have "j - 1 < 32" using j(4) pow_lt_imp_exp [OF R(1) _ kn_args_lt [OF ok]] by auto
    then show ?thesis by simp
  qed simp
  note j256 = this
  define p1 where "p1 = p\<lparr>kp_pow_radix_sup := j, kp_full_pow_size := radix ^ e, kp_radix := radix,
      kp_size := n, kp_rank := rank, kp_backward := backward, kp_iteration := 0\<rparr>"
  define p2 where "p2 = p1\<lparr>kp_n_extra := n mod radix ^ e, kp_n_iters := ?iters\<rparr>"
  define p3 where "p3 = p2\<lparr>kp_radix_pow := ucc_kn_pattern_radix_pow_init p2 backward\<rparr>"
  define p4 where "p4 = p3\<lparr>kp_node_type := (if rank < n mod radix ^ e * 2
      then (if rank mod 2 \<noteq> 0 then KN_NODE_EXTRA else KN_NODE_PROXY) else KN_NODE_BASE)\<rparr>"
  have nf: "ucc_kn_pattern_n_full p1 = n div radix ^ e" "kp_full_pow_size p1 = radix ^ e"
    by (simp_all add: p1_def ucc_kn_pattern_n_full_def)
  have init: "ucc_knomial_pattern_init_impl n rank radix p backward True = Some p4"
    by (simp only: ucc_knomial_pattern_init_impl_def j(2) option.case prod.case full Let_def if_True
        p1_def [symmetric] nf extra p2_def [symmetric] p3_def [symmetric] u2 p4_def)
  have fields: "kp_radix p4 = radix" "kp_size p4 = n" "kp_rank p4 = rank" "kp_iteration p4 = 0"
      "kp_backward p4 = backward" "kp_full_pow_size p4 = radix ^ e" "kp_n_extra p4 = n mod radix ^ e"
      "kp_n_iters p4 = ?iters"
    unfolding p4_def p3_def p2_def p1_def by (simp_all split del: if_split)
  have "?iters < 256" using j256 by (cases j) auto
  moreover have "?iters = (if n div radix ^ e = 1 then e else e + 1)" if "2 \<le> n"
    using kn_n_iters_exact [OF R(1) that j(1,4) e_def] .
  ultimately have "kn_pattern_wf p4 e"
    unfolding kn_pattern_wf_def Let_def fields using ok le lt iters by (simp split del: if_split)
  then show thesis
    by (rule that [OF init]) (simp_all add: fields p4_def p3_def p2_def p1_def mult.commute
        odd_iff_mod_2_eq_one ucc_kn_pattern_radix_pow_init_def ucc_kn_pattern_n_full_def)
qed

section \<open>Loop ranks\<close>

text \<open>The ranks of the main loop: all but the extras. Their number is a multiple of the subtree size.\<close>

definition kn_in_loop :: "ucc_knomial_pattern \<Rightarrow> ucc_rank \<Rightarrow> bool" where
  "kn_in_loop p r \<longleftrightarrow> r < kp_size p \<and> (2 * kp_n_extra p \<le> r \<or> even r)"

definition kn_loop_size :: "ucc_knomial_pattern \<Rightarrow> nat" where
  "kn_loop_size p = kp_size p - kp_n_extra p"

lemma kn_wf_facts:
  assumes "kn_pattern_wf p e"
  shows "2 \<le> kp_radix p" "kp_radix p < 2 ^ 16" "kp_size p < 2 ^ 32" "kp_size p * kp_radix p < 2 ^ 32"
    "kp_n_extra p * 2 \<le> kp_size p" "kp_radix p ^ e dvd kn_loop_size p" "0 < kn_loop_size p"
    "kp_n_extra p < kn_loop_size p \<or> kp_n_extra p = 0" "kn_loop_size p \<le> kp_radix p ^ kp_n_iters p"
    "kp_n_iters p \<le> e + 1" "kp_radix p ^ e \<le> kp_size p"
proof -
  let ?n = "kp_size p" and ?F = "kp_radix p ^ e"
  have ok: "kn_args_ok ?n (kp_radix p)" and x: "kp_n_extra p = ?n mod ?F" and le: "?F \<le> ?n"
    and it: "?n - kp_n_extra p \<le> kp_radix p ^ kp_n_iters p" "kp_n_iters p \<le> e + 1"
    using assms by (auto simp: kn_pattern_wf_def Let_def)
  have R: "2 \<le> kp_radix p" using ok by (simp add: kn_args_ok_def)
  then have pos: "0 < ?F" by simp
  have lt: "?n mod ?F < ?F" using pos by simp
  have d: "?n - ?n mod ?F = ?n div ?F * ?F" by (simp add: minus_mod_eq_div_mult)
  have ge: "?F \<le> ?n div ?F * ?F"
  proof -
    have "1 \<le> ?n div ?F" using le pos by (simp add: Suc_le_eq div_greater_zero_iff)
    then show ?thesis using mult_le_mono1 [of 1 "?n div ?F" ?F] by simp
  qed
  show "2 \<le> kp_radix p" by (rule R)
  show "kp_radix p < 2 ^ 16" "?n * kp_radix p < 2 ^ 32" using ok by (simp_all add: kn_args_ok_def)
  show "?n < 2 ^ 32" by (rule kn_args_lt [OF ok])
  show "kp_n_extra p * 2 \<le> ?n" using lt ge d x by linarith
  show "?F dvd kn_loop_size p" unfolding kn_loop_size_def x d by simp
  show "0 < kn_loop_size p" unfolding kn_loop_size_def x d using ge pos by linarith
  show "kp_n_extra p < kn_loop_size p \<or> kp_n_extra p = 0"
    unfolding kn_loop_size_def x d using ge lt by linarith
  show "kn_loop_size p \<le> kp_radix p ^ kp_n_iters p" using it(1) by (simp add: kn_loop_size_def)
  show "kp_n_iters p \<le> e + 1" "?F \<le> ?n" by fact+
qed

lemma kn_u32_2x: "kn_pattern_wf p e \<Longrightarrow> u32 (kp_n_extra p * 2) = kp_n_extra p * 2"
  using kn_wf_facts [of p e] by (intro u32_id) linarith

lemma loop_rank_nat:
  assumes "kn_pattern_wf p e" "kn_in_loop p r"
  shows "ucc_knomial_pattern_loop_rank p r = (if r < 2 * kp_n_extra p then r div 2 else r - kp_n_extra p)"
  using kn_wf_facts [OF assms(1)] assms(2)
  by (auto simp: ucc_knomial_pattern_loop_rank_def kn_u32_2x [OF assms(1)] kn_in_loop_def sub32_id)

lemma loop_rank_inv_nat:
  assumes "kn_pattern_wf p e" "l < kn_loop_size p"
  shows "ucc_knomial_pattern_loop_rank_inv p l = (if l < kp_n_extra p then l * 2 else l + kp_n_extra p)"
proof -
  have "l * 2 < 2 ^ 32" if "l < kp_n_extra p" using that kn_wf_facts(3,5) [OF assms(1)] by linarith
  moreover have "l + kp_n_extra p < 2 ^ 32"
    using assms(2) kn_wf_facts(3) [OF assms(1)] by (simp add: kn_loop_size_def)
  ultimately show ?thesis by (simp add: ucc_knomial_pattern_loop_rank_inv_def u32_id)
qed

lemma loop_rank_lt:
  assumes "kn_pattern_wf p e" "kn_in_loop p r"
  shows "ucc_knomial_pattern_loop_rank p r < kn_loop_size p"
  using kn_wf_facts(5,7) [OF assms(1)] assms(2) loop_rank_nat [OF assms]
  by (auto simp: kn_in_loop_def kn_loop_size_def)

lemma loop_rank_inv_in_loop:
  assumes "kn_pattern_wf p e" "l < kn_loop_size p"
  shows "kn_in_loop p (ucc_knomial_pattern_loop_rank_inv p l)"
  using kn_wf_facts(5) [OF assms(1)] assms(2) loop_rank_inv_nat [OF assms]
  by (auto simp: kn_in_loop_def kn_loop_size_def)

lemma loop_rank_of_inv:
  assumes "kn_pattern_wf p e" "l < kn_loop_size p"
  shows "ucc_knomial_pattern_loop_rank p (ucc_knomial_pattern_loop_rank_inv p l) = l"
  using loop_rank_nat [OF assms(1) loop_rank_inv_in_loop [OF assms]] loop_rank_inv_nat [OF assms]
  by auto

lemma loop_rank_inv_of:
  assumes "kn_pattern_wf p e" "kn_in_loop p r"
  shows "ucc_knomial_pattern_loop_rank_inv p (ucc_knomial_pattern_loop_rank p r) = r"
  using loop_rank_nat [OF assms] loop_rank_inv_nat [OF assms(1) loop_rank_lt [OF assms]] assms(2)
  by (auto simp: kn_in_loop_def split: if_splits)

interpretation kn_loop: rank_map
  "\<lambda>p. \<exists>e. kn_pattern_wf p e" kn_loop_size
  "\<lambda>p l. Some (ucc_knomial_pattern_loop_rank_inv p l)" "\<lambda>p r. Some (ucc_knomial_pattern_loop_rank p r)"
  by unfold_locales (auto simp: loop_rank_of_inv)

section \<open>Peers\<close>

text \<open>
  The pattern in iteration \<open>i\<close>, forwards: the step is \<open>radix ^ i\<close>. On loop ranks the peer at
  distance \<open>s\<close> changes the \<open>i\<close>-th digit in base \<open>radix\<close> and keeps all others.
\<close>

definition kn_at :: "ucc_knomial_pattern \<Rightarrow> nat \<Rightarrow> ucc_knomial_pattern" where
  "kn_at p i = (ucc_knomial_pattern_next_iteration ^^ i) p"

definition digit_peer :: "nat \<Rightarrow> nat \<Rightarrow> nat \<Rightarrow> nat \<Rightarrow> nat" where
  "digit_peer R i l s = (l div R ^ (i + 1)) * R ^ (i + 1) + ((l div R ^ i) mod R + s) mod R * R ^ i + l mod R ^ i"

lemma peer_digits:
  fixes R i l s :: nat
  assumes "2 \<le> R"
  shows "(l + s * R ^ i) mod R ^ (i + 1) + (l - l mod R ^ (i + 1)) = digit_peer R i l s"
proof -
  let ?P = "R ^ i" and ?S = "R ^ (i + 1)"
  have pos: "0 < ?P" using assms by simp
  have "(l + s * ?P) mod (?P * R) = ?P * ((l + s * ?P) div ?P mod R) + (l + s * ?P) mod ?P"
    by (rule mod_mult2_eq)
  also have "\<dots> = ((l div ?P) mod R + s) mod R * ?P + l mod ?P"
  proof -
    have "(l + s * ?P) div ?P = l div ?P + s" using pos by simp
    moreover have "((l div ?P) mod R + s) mod R = (l div ?P + s) mod R" by (rule mod_add_left_eq)
    ultimately show ?thesis by (simp only: mult.commute mod_mult_self1)
  qed
  finally have "(l + s * ?P) mod ?S = ((l div ?P) mod R + s) mod R * ?P + l mod ?P"
    by (simp add: mult.commute)
  moreover have "l - l mod ?S = l div ?S * ?S" by (simp only: minus_mod_eq_div_mult)
  ultimately show ?thesis by (simp add: digit_peer_def)
qed

lemma digit_peer_props:
  fixes R i l s :: nat
  assumes R: "2 \<le> R"
  shows "digit_peer R i l s div R ^ (i + 1) = l div R ^ (i + 1)"
    "(digit_peer R i l s div R ^ i) mod R = ((l div R ^ i) mod R + s) mod R"
    "digit_peer R i l s mod R ^ i = l mod R ^ i"
    "digit_peer R i l s div R ^ i = l div R ^ (i + 1) * R + ((l div R ^ i) mod R + s) mod R"
proof -
  let ?P = "R ^ i" and ?d = "((l div R ^ i) mod R + s) mod R" and ?a = "l div R ^ (i + 1)"
  have pos: "0 < ?P" using R by simp
  have d: "?d < R" using R by simp
  have eq: "digit_peer R i l s = (?a * R + ?d) * ?P + l mod ?P"
    by (simp add: digit_peer_def algebra_simps)
  show md: "digit_peer R i l s mod ?P = l mod ?P" unfolding eq by simp
  show dv: "digit_peer R i l s div ?P = ?a * R + ?d" unfolding eq using pos by simp
  show "(digit_peer R i l s div ?P) mod R = ?d" unfolding dv using d by simp
  have "digit_peer R i l s div (?P * R) = digit_peer R i l s div ?P div R" by (rule div_mult2_eq)
  also have "\<dots> = ?a" unfolding dv using d R by simp
  finally show "digit_peer R i l s div R ^ (i + 1) = ?a" by (simp add: mult.commute)
qed

lemma digit_eqI:
  fixes R :: nat
  assumes "a div R ^ (i + 1) = b div R ^ (i + 1)" "(a div R ^ i) mod R = (b div R ^ i) mod R"
    "a mod R ^ i = b mod R ^ i"
  shows "a = b"
proof -
  have "a div R ^ i = b div R ^ i"
    using assms(1,2) by (metis div_mult2_eq div_mult_mod_eq power_add power_one_right)
  then show ?thesis using assms(3) by (metis div_mult_mod_eq)
qed

lemma digit_peer_back:
  assumes "2 \<le> R" "s < R"
  shows "digit_peer R i (digit_peer R i l s) (R - s) = l"
proof (rule digit_eqI [where R = R and i = i])
  note pr = digit_peer_props [OF assms(1)]
  show "digit_peer R i (digit_peer R i l s) (R - s) div R ^ (i + 1) = l div R ^ (i + 1)"
    by (simp only: pr)
  show "digit_peer R i (digit_peer R i l s) (R - s) mod R ^ i = l mod R ^ i" by (simp only: pr)
  have "(((l div R ^ i) mod R + s) mod R + (R - s)) mod R = ((l div R ^ i) mod R + s + (R - s)) mod R"
    by (rule mod_add_left_eq)
  also have "\<dots> = (l div R ^ i) mod R" using assms(2) by simp
  finally show "digit_peer R i (digit_peer R i l s) (R - s) div R ^ i mod R = l div R ^ i mod R"
    by (simp only: pr(2))
qed

lemma kn_at_iteration: "i < 256 \<Longrightarrow> kp_iteration p = 0 \<Longrightarrow> kp_iteration (kn_at p i) = i"
  by (induction i) (simp_all add: kn_at_def ucc_knomial_pattern_next_iteration_def u8_id)

lemma kn_at_Suc: "ucc_knomial_pattern_next_iteration (kn_at p i) = kn_at p (Suc i)"
  by (simp add: kn_at_def)

lemma kn_at_fields:
  "kp_radix (kn_at p i) = kp_radix p" "kp_size (kn_at p i) = kp_size p"
  "kp_n_extra (kn_at p i) = kp_n_extra p" "kp_n_iters (kn_at p i) = kp_n_iters p"
  "kp_rank (kn_at p i) = kp_rank p" "kp_full_pow_size (kn_at p i) = kp_full_pow_size p"
  by (induction i) (simp_all add: kn_at_def ucc_knomial_pattern_next_iteration_def)

lemma kn_at_wf: "kn_pattern_wf p e \<Longrightarrow> kn_pattern_wf (kn_at p i) e"
  by (simp add: kn_pattern_wf_def kn_at_fields)

lemma kn_pow_le:
  assumes "kn_pattern_wf p e" "i < kp_n_iters p"
  shows "kp_radix p ^ i \<le> kp_size p" "kp_radix p ^ i dvd kn_loop_size p" "kp_radix p ^ i * kp_radix p < 2 ^ 32"
proof -
  have ie: "i \<le> e" using assms(2) kn_wf_facts(10) [OF assms(1)] by simp
  have R: "1 \<le> kp_radix p" using kn_wf_facts(1) [OF assms(1)] by simp
  show le: "kp_radix p ^ i \<le> kp_size p"
    using power_increasing [OF ie R] kn_wf_facts(11) [OF assms(1)] by linarith
  show "kp_radix p ^ i dvd kn_loop_size p"
    using le_imp_power_dvd [OF ie] kn_wf_facts(6) [OF assms(1)] by (rule dvd_trans)
  have "kp_radix p ^ i * kp_radix p \<le> kp_size p * kp_radix p" using le by (rule mult_le_mono1)
  then show "kp_radix p ^ i * kp_radix p < 2 ^ 32" using kn_wf_facts(4) [OF assms(1)] by linarith
qed

lemma kn_at_radix_pow:
  assumes "kn_pattern_wf p e" "kp_radix_pow p = 1" "i \<le> kp_n_iters p"
  shows "kp_radix_pow (kn_at p i) = kp_radix p ^ i"
  using assms(3)
proof (induction i)
  case (Suc i)
  have "kp_radix_pow (kn_at p (Suc i)) = u32 (kp_radix_pow (kn_at p i) * kp_radix (kn_at p i))"
    by (simp add: kn_at_def ucc_knomial_pattern_next_iteration_def)
  also have "\<dots> = u32 (kp_radix p ^ i * kp_radix p)" using Suc by (simp add: kn_at_fields)
  also have "\<dots> = kp_radix p ^ Suc i"
    using kn_pow_le(3) [OF assms(1), of i] Suc.prems by (simp add: u32_id mult.commute)
  finally show ?case .
qed (simp add: kn_at_def assms(2))

text \<open>The peer the source computes, on loop ranks.\<close>

lemma get_loop_peer_digit:
  assumes wf: "kn_pattern_wf p e" and rp: "kp_radix_pow p = kp_radix p ^ i" and i: "i < kp_n_iters p"
    and r: "kn_in_loop p r" and s: "s < kp_radix p"
  shows "ucc_knomial_pattern_get_loop_peer p r s =
    (let q = digit_peer (kp_radix p) i (ucc_knomial_pattern_loop_rank p r) s
     in if q < kn_loop_size p then ucc_knomial_pattern_loop_rank_inv p q else UCC_KN_PEER_NULL)"
proof -
  let ?R = "kp_radix p" and ?n = "kp_size p" and ?l = "ucc_knomial_pattern_loop_rank p r"
  let ?P = "?R ^ i" and ?S = "?R ^ (i + 1)"
  note f = kn_wf_facts [OF wf] and pw = kn_pow_le [OF wf i]
  have l: "?l < kn_loop_size p" by (rule loop_rank_lt [OF wf r])
  then have ln: "?l < ?n" by (simp add: kn_loop_size_def)
  have S: "?S = ?P * ?R" by simp
  have step: "kn_step_size p = ?S" using pw(3) by (simp add: kn_step_size_def rp u32_id mult.commute)
  have "s * ?P \<le> (?R - 1) * ?n" using s pw(1) by (intro mult_le_mono) simp_all
  also have "\<dots> = ?R * ?n - ?n" by (simp add: diff_mult_distrib)
  finally have "s * ?P \<le> ?R * ?n - ?n" .
  moreover have "?n \<le> ?R * ?n" using f(1) by simp
  ultimately have sum: "?l + s * ?P < ?R * ?n" using ln by linarith
  then have u1: "u32 (?l + u32 (s * ?P)) = ?l + s * ?P"
    using f(4) by (simp add: u32_id mult.commute)
  have bound: "(?l + s * ?P) mod ?S + (?l - ?l mod ?S) < 2 ^ 32"
  proof (cases "?l < ?S")
    case True
    then show ?thesis using pw(3) S f(1) by (simp add: less_trans [OF mod_less_divisor] mult.commute)
  next
    case False
    have "(?l + s * ?P) mod ?S < ?S" using f(1) by simp
    then have "(?l + s * ?P) mod ?S + (?l - ?l mod ?S) < ?n + ?n" using False ln by linarith
    also have "\<dots> \<le> ?n * ?R" using mult_le_mono2 [OF f(1), of ?n] by (simp only: mult_2_right)
    finally show ?thesis using f(4) by linarith
  qed
  have al: "ucc_align_down ?l ?S = ?l - ?l mod ?S" by (simp add: ucc_align_down_def)
  have sz: "sub32 ?n (kp_n_extra p) = kn_loop_size p"
    using f(3,5) by (simp add: sub32_id kn_loop_size_def)
  show ?thesis
    unfolding ucc_knomial_pattern_get_loop_peer_def Let_def step rp u1 al sz
    using u32_id [OF bound] peer_digits [OF f(1), of ?l s i] by (auto simp: not_less)
qed

text \<open>Two patterns of one team agree on the tree, whatever rank they were initialised for.\<close>

lemma kn_wf_exp_unique:
  assumes "kn_pattern_wf p e" "kn_pattern_wf q f" "kp_size p = kp_size q" "kp_radix p = kp_radix q"
  shows "e = f"
proof (rule ccontr)
  assume "e \<noteq> f"
  have R: "1 \<le> kp_radix q" using kn_wf_facts(1) [OF assms(2)] by simp
  have b: "kp_radix q ^ e \<le> kp_size q" "kp_size q < kp_radix q ^ (e + 1)"
    "kp_radix q ^ f \<le> kp_size q" "kp_size q < kp_radix q ^ (f + 1)"
    using assms by (simp_all add: kn_pattern_wf_def Let_def)
  consider "e + 1 \<le> f" | "f + 1 \<le> e" using \<open>e \<noteq> f\<close> by linarith
  then show False
  proof cases
    case 1
    then show False using power_increasing [OF 1 R] b by linarith
  next
    case 2
    then show False using power_increasing [OF 2 R] b by linarith
  qed
qed

definition kn_same_tree :: "ucc_knomial_pattern \<Rightarrow> ucc_knomial_pattern \<Rightarrow> bool" where
  "kn_same_tree p q \<longleftrightarrow> kp_radix p = kp_radix q \<and> kp_size p = kp_size q \<and> kp_n_extra p = kp_n_extra q
     \<and> kp_radix_pow p = kp_radix_pow q"

lemma kn_same_tree_peer:
  assumes "kn_same_tree p q"
  shows "ucc_knomial_pattern_get_loop_peer p r s = ucc_knomial_pattern_get_loop_peer q r s"
    "ucc_knomial_pattern_loop_rank p r = ucc_knomial_pattern_loop_rank q r"
  using assms
  by (simp_all only: kn_same_tree_def ucc_knomial_pattern_get_loop_peer_def Let_def
      ucc_knomial_pattern_loop_rank_def ucc_knomial_pattern_loop_rank_inv_def kn_step_size_def)

lemma kn_same_tree_at: "kn_same_tree p q \<Longrightarrow> kn_same_tree (kn_at p i) (kn_at q i)"
  by (induction i) (simp_all add: kn_at_def kn_same_tree_def ucc_knomial_pattern_next_iteration_def)

lemma kn_init_same_tree:
  assumes ok: "kn_args_ok n R" and "ucc_knomial_pattern_init n r R p0 = Some p"
    and "ucc_knomial_pattern_init n q R q0 = Some p'"
  shows "kn_same_tree p p'" "kp_n_iters p' = kp_n_iters p"
  using assms(2,3)
  by (auto simp: ucc_knomial_pattern_init_def ucc_knomial_pattern_init_impl_def kn_same_tree_def Let_def
      ucc_kn_pattern_n_full_def ucc_kn_pattern_radix_pow_init_def split: option.splits)

lemma kn_init_wf:
  assumes "kn_args_ok n R" "ucc_knomial_pattern_init n r R p0 = Some p"
  obtains e where "kn_pattern_wf p e" "kp_radix_pow p = 1" "kp_size p = n" "kp_radix p = R"
  using kn_init_returns [OF assms(1), of r p0 False] assms(2)
  by (metis option.inject ucc_knomial_pattern_init_def)

text \<open>The peer of iteration \<open>i\<close> on loop ranks, for a freshly initialised pattern.\<close>

lemma peer_at:
  assumes "kn_pattern_wf p e" "kp_radix_pow p = 1" "i < kp_n_iters p" "kn_in_loop p r" "s < kp_radix p"
  shows "ucc_knomial_pattern_get_loop_peer (kn_at p i) r s =
    (let q = digit_peer (kp_radix p) i (ucc_knomial_pattern_loop_rank p r) s
     in if q < kn_loop_size p then ucc_knomial_pattern_loop_rank_inv p q else UCC_KN_PEER_NULL)"
proof -
  have "kp_radix_pow (kn_at p i) = kp_radix (kn_at p i) ^ i"
    using kn_at_radix_pow [OF assms(1,2), of i] assms(3) by (simp add: kn_at_fields)
  from get_loop_peer_digit [OF kn_at_wf [OF assms(1)] this, of r s]
  have "ucc_knomial_pattern_get_loop_peer (kn_at p i) r s =
    (let q = digit_peer (kp_radix p) i (ucc_knomial_pattern_loop_rank (kn_at p i) r) s
     in if q < kn_loop_size p then ucc_knomial_pattern_loop_rank_inv (kn_at p i) q else UCC_KN_PEER_NULL)"
    using assms(3-5) by (simp add: kn_at_fields kn_in_loop_def kn_loop_size_def)
  then show ?thesis
    by (simp only: ucc_knomial_pattern_loop_rank_def ucc_knomial_pattern_loop_rank_inv_def kn_at_fields)
qed

lemma loop_rank_inv_not_null:
  assumes "kn_pattern_wf p e" "l < kn_loop_size p"
  shows "ucc_knomial_pattern_loop_rank_inv p l \<noteq> UCC_KN_PEER_NULL"
proof -
  have "ucc_knomial_pattern_loop_rank_inv p l < kp_size p"
    using loop_rank_inv_in_loop [OF assms] by (simp add: kn_in_loop_def)
  moreover have "kp_size p * 2 \<le> kp_size p * kp_radix p"
    using kn_wf_facts(1) [OF assms(1)] by (rule mult_le_mono2)
  ultimately show ?thesis using kn_wf_facts(4) [OF assms(1)] unfolding UCC_KN_PEER_NULL_def by linarith
qed

lemma mod_shift_ne:
  fixes R a s :: nat
  assumes "a < R" "0 < s" "s < R"
  shows "(a + s) mod R \<noteq> a"
  using assms by (auto simp: mod_if)

lemma kn_peer_symmetric_wf:
  assumes wf: "kn_pattern_wf p e" "kp_radix_pow p = 1" and i: "i < kp_n_iters p" and r: "kn_in_loop p r"
    and s: "0 < s" "s < kp_radix p"
    and q: "ucc_knomial_pattern_get_loop_peer (kn_at p i) r s = q" "q \<noteq> UCC_KN_PEER_NULL"
  shows "kn_in_loop p q \<and> q \<noteq> r \<and> ucc_knomial_pattern_get_loop_peer (kn_at p i) q (kp_radix p - s) = r"
proof -
  let ?R = "kp_radix p" and ?l = "ucc_knomial_pattern_loop_rank p r"
  let ?m = "digit_peer ?R i ?l s"
  have R: "2 \<le> ?R" by (rule kn_wf_facts(1) [OF wf(1)])
  have m: "?m < kn_loop_size p" "q = ucc_knomial_pattern_loop_rank_inv p ?m"
    using peer_at [OF wf i r s(2)] q by (auto simp: Let_def split: if_splits)
  have ql: "kn_in_loop p q" "ucc_knomial_pattern_loop_rank p q = ?m"
    unfolding m(2) by (rule loop_rank_inv_in_loop [OF wf(1) m(1)], rule loop_rank_of_inv [OF wf(1) m(1)])
  have ret: "digit_peer ?R i ?m (?R - s) = ?l" by (rule digit_peer_back [OF R s(2)])
  have "((?l div ?R ^ i) mod ?R + s) mod ?R \<noteq> (?l div ?R ^ i) mod ?R"
    using R s by (intro mod_shift_ne) simp_all
  then have "?m \<noteq> ?l" using digit_peer_props(2) [OF R, of i ?l s] by auto
  then have "q \<noteq> r" using ql(2) by auto
  moreover have "ucc_knomial_pattern_get_loop_peer (kn_at p i) q (?R - s) = r"
    using peer_at [OF wf i ql(1), of "?R - s"] s loop_rank_lt [OF wf(1) r] loop_rank_inv_of [OF wf(1) r]
    by (simp add: ql(2) ret)
  ultimately show ?thesis using ql(1) by simp
qed

section \<open>Base ranks and distances\<close>

text \<open>
  The base rank of a group is the member whose digit is zero; all members compute the same one.
\<close>

lemma base_step:
  fixes R l i :: nat
  assumes R: "2 \<le> R"
  shows "(R ^ (i + 1) - l mod R ^ (i + 1) + R ^ i - 1) div R ^ i = R - (l div R ^ i) mod R"
proof -
  let ?P = "R ^ i" and ?d = "(l div R ^ i) mod R" and ?t = "l mod R ^ i"
  have pos: "0 < ?P" using R by simp
  have t: "?t < ?P" and d: "?d < R" using R by simp_all
  have m: "l mod (?P * R) = ?P * ?d + ?t" by (rule mod_mult2_eq)
  have S: "?P * R = ?P * (R - ?d) + ?P * ?d" using d by (simp add: add_mult_distrib2 [symmetric])
  have "?P * 1 \<le> ?P * (R - ?d)" using d by (intro mult_le_mono2) simp
  then have "?P * R - l mod (?P * R) + ?P - 1 = (R - ?d) * ?P + (?P - 1 - ?t)"
    unfolding mult.commute [of "R - ?d" ?P] m using S t by linarith
  also have "\<dots> div ?P = (R - ?d) + (?P - 1 - ?t) div ?P" using pos by simp
  also have "(?P - 1 - ?t) div ?P = 0" using pos by simp
  finally show ?thesis by (simp add: mult.commute)
qed

lemma get_base_rank_at:
  assumes wf: "kn_pattern_wf p e" "kp_radix_pow p = 1" and i: "i < kp_n_iters p" and r: "kn_in_loop p r"
    and big: "kp_size p * (kp_radix p + 1) < 2 ^ 32"
  defines "l \<equiv> ucc_knomial_pattern_loop_rank p r"
  defines "b \<equiv> l div kp_radix p ^ (i + 1) * kp_radix p ^ (i + 1) + l mod kp_radix p ^ i"
  shows "b < kn_loop_size p" "ucc_knomial_pattern_get_base_rank (kn_at p i) r = ucc_knomial_pattern_loop_rank_inv p b"
proof -
  let ?R = "kp_radix p" and ?P = "kp_radix p ^ i" and ?S = "kp_radix p ^ (i + 1)" and ?d = "(l div kp_radix p ^ i) mod kp_radix p"
  note f = kn_wf_facts [OF wf(1)] and pw = kn_pow_le [OF wf(1) i]
  have S: "?S = ?P * ?R" by simp
  have d: "?d < ?R" using f(1) by simp
  have l: "l < kn_loop_size p" unfolding l_def by (rule loop_rank_lt [OF wf(1) r])
  have "l div ?S * ?S + ?d * ?P + l mod ?P = l"
    by (metis S add.commute div_mult_mod_eq mod_mult2_eq mult.commute group_cancel.add1)
  then have "b \<le> l" unfolding b_def by linarith
  then show bl: "b < kn_loop_size p" using l by simp
  have rp: "kp_radix_pow (kn_at p i) = ?P" using kn_at_radix_pow [OF wf, of i] i by simp
  have step: "kn_step_size (kn_at p i) = ?S" using pw(3) by (simp add: kn_step_size_def rp kn_at_fields u32_id mult.commute)
  have lr: "ucc_knomial_pattern_loop_rank (kn_at p i) r = l"
    by (simp add: l_def ucc_knomial_pattern_loop_rank_def kn_at_fields)
  have ml: "l mod ?S < ?S" using f(1) by simp
  have S32: "?S < 2 ^ 32" using pw(3) unfolding S .
  have "?P * (?R + 1) \<le> kp_size p * (?R + 1)" using pw(1) by (rule mult_le_mono1)
  then have SP: "?S + ?P < 2 ^ 32" using big unfolding S by (simp add: algebra_simps)
  have pos: "1 \<le> ?S - l mod ?S + ?P" using ml by linarith
  have "sub32 (u32 (sub32 ?S (l mod ?S) + ?P)) 1 = ?S - l mod ?S + ?P - 1"
    using ml SP pos by (simp add: sub32_id u32_id del: power_add power_Suc)
  then have s: "u16 (sub32 (u32 (sub32 ?S (l mod ?S) + ?P)) 1 div ?P) = ?R - ?d"
    using base_step [OF f(1), of i l] f(2) by (simp add: u16_id)
  have base: "ucc_knomial_pattern_get_base_rank (kn_at p i) r = (if ?R - ?d = ?R then r
      else ucc_knomial_pattern_get_loop_peer (kn_at p i) r (?R - ?d))"
    unfolding ucc_knomial_pattern_get_base_rank_def Let_def step lr rp s by (simp add: kn_at_fields)
  show "ucc_knomial_pattern_get_base_rank (kn_at p i) r = ucc_knomial_pattern_loop_rank_inv p b"
  proof (cases "?d = 0")
    case True
    then have "b = l" using \<open>l div ?S * ?S + ?d * ?P + l mod ?P = l\<close> unfolding b_def by simp
    then show ?thesis using base True loop_rank_inv_of [OF wf(1) r] by (simp add: l_def)
  next
    case False
    then have ne: "?R - ?d \<noteq> ?R" and lt: "?R - ?d < ?R" using d by linarith+
    have "digit_peer ?R i l (?R - ?d) = b" using d by (simp add: digit_peer_def b_def)
    then show ?thesis
      using trans [OF base if_not_P [OF ne]] peer_at [OF wf i r lt] bl by (simp add: l_def [symmetric])
  qed
qed

text \<open>
  The distance at which a non-root rank receives is the greatest power of the radix that is at most
  the rank.
\<close>

lemma recv_dist_loop_returns:
  assumes ok: "kn_args_ok n R" "0 < r" "r < n" and "R ^ k \<le> r"
  shows "\<exists>j. recv_dist_loop n r R (R ^ k) = Some (R ^ j) \<and> R ^ j \<le> r \<and> r < R ^ (j + 1)"
  using assms(4)
proof (induction "n - R ^ k" arbitrary: k rule: less_induct)
  case less
  have R: "2 \<le> R" using ok(1) by (simp add: kn_args_ok_def)
  have lt: "R ^ k < n" using less.prems ok(3) by simp
  have u: "u32 (R ^ k * R) = R ^ (k + 1)" "u32 (0 + u32 (R * R ^ k)) = R ^ (k + 1)"
    using pow_mult_lt [OF ok(1) lt] by (simp_all add: u32_id mult.commute)
  show ?case
  proof (cases "r < R ^ (k + 1)")
    case True
    then have "recv_dist_loop n r R (R ^ k) = Some (R ^ k)"
      using lt by (subst recv_dist_loop.simps) (simp only: u, simp)
    then show ?thesis using True less.prems by blast
  next
    case False
    have "R ^ k < R ^ (k + 1)" using R by simp
    then have "n - R ^ (k + 1) < n - R ^ k" using lt by linarith
    moreover have "recv_dist_loop n r R (R ^ k) = recv_dist_loop n r R (R ^ (k + 1))"
      using lt False by (subst recv_dist_loop.simps) (simp only: u, simp)
    ultimately show ?thesis using less.hyps [of "k + 1"] False by simp
  qed
qed

lemma calc_recv_dist_power:
  assumes "kn_args_ok n R" "0 < r" "r < n" "r \<noteq> root"
  shows "\<exists>j. ucc_knomial_calc_recv_dist n r R root = Some (R ^ j) \<and> R ^ j \<le> r \<and> r < R ^ (j + 1)"
  using recv_dist_loop_returns [OF assms(1-3), of 0] assms by (simp add: ucc_knomial_calc_recv_dist_def)

section \<open>Exactly-once exchange\<close>

text \<open>
  What a rank has combined after \<open>i\<close> iterations of the exchange every knomial collective runs:
  a proxy first takes in its extra; then in each iteration a rank takes in what each of its
  \<open>radix - 1\<close> peers had before. A multiset, so that a contribution combined twice shows.
\<close>

primrec kn_combined :: "ucc_knomial_pattern \<Rightarrow> nat \<Rightarrow> ucc_rank \<Rightarrow> ucc_rank multiset" where
  "kn_combined p 0 r =
     add_mset r (if r < 2 * kp_n_extra p then {#ucc_knomial_pattern_get_extra p r#} else {#})"
| "kn_combined p (Suc i) r = kn_combined p i r +
     (\<Sum>s\<in>{1..<kp_radix p}.
        (let q = ucc_knomial_pattern_get_loop_peer (kn_at p i) r s
         in if q = UCC_KN_PEER_NULL then {#} else kn_combined p i q))"

lemma digit_peer_lt_iff:
  assumes "2 \<le> R" "R ^ i dvd L" "m div R ^ i = k div R ^ i"
  shows "m < L \<longleftrightarrow> k < (L::nat)"
proof -
  obtain c where L: "L = c * R ^ i" using assms(2) by (metis dvd_div_mult_self)
  have "m < c * R ^ i \<longleftrightarrow> m div R ^ i < c" for m
    using assms(1) by (simp add: div_less_iff_less_mult)
  then show ?thesis unfolding L using assms(3) by simp
qed

lemma digit_unique:
  fixes R a b :: nat
  assumes "a < R" "b < R"
  shows "(\<Sum>s<R. of_bool ((a + s) mod R = b)) = (1::nat)"
proof -
  have iff: "(a + s) mod R = b \<longleftrightarrow> s = (b + (R - a)) mod R" if "s < R" for s
    using that assms by (auto simp: mod_if split: if_splits)
  have "(\<Sum>s<R. of_bool ((a + s) mod R = b)) = (\<Sum>s<R. if s = (b + (R - a)) mod R then 1 else (0::nat))"
    by (intro sum.cong) (auto simp: iff)
  also have "\<dots> = 1" using assms by (simp add: sum.delta)
  finally show ?thesis .
qed

lemma count_kn_combined_0:
  assumes wf: "kn_pattern_wf p e" and r: "kn_in_loop p r"
  shows "count (kn_combined p 0 r) x =
    of_bool (x < kp_size p \<and> ucc_knomial_pattern_loop_rank p x = ucc_knomial_pattern_loop_rank p r)"
proof -
  note f = kn_wf_facts [OF wf]
  have ex: "ucc_knomial_pattern_get_extra p r = r + 1" if "r < 2 * kp_n_extra p"
    using f(3,5) that unfolding ucc_knomial_pattern_get_extra_def by (intro u32_id) linarith
  have lr: "ucc_knomial_pattern_loop_rank p y = (if y < 2 * kp_n_extra p then y div 2 else y - kp_n_extra p)"
    if "y < kp_size p" for y
    using f(3) that by (auto simp: ucc_knomial_pattern_loop_rank_def kn_u32_2x [OF wf] sub32_id mult.commute)
  show ?thesis
  proof (cases "r < 2 * kp_n_extra p")
    case True
    then have ev: "even r" and rn: "r + 1 < kp_size p" using r f(5) by (auto simp: kn_in_loop_def elim!: evenE)
    have "(x < kp_size p \<and> ucc_knomial_pattern_loop_rank p x = r div 2) \<longleftrightarrow> x = r \<or> x = r + 1"
      using lr [of x] True ev rn f(5) by (auto elim!: evenE split: if_splits)
    then show ?thesis using True ex lr [of r] rn by auto
  next
    case False
    then show ?thesis using r lr [of x] lr [of r] by (auto simp: kn_in_loop_def split: if_splits)
  qed
qed

lemma count_sum_peers:
  assumes wf: "kn_pattern_wf p e" "kp_radix_pow p = 1" and i: "i < kp_n_iters p" and r: "kn_in_loop p r"
    and IH: "\<And>q. kn_in_loop p q \<Longrightarrow> count (kn_combined p i q) x = of_bool (x < kp_size p \<and>
        ucc_knomial_pattern_loop_rank p x div kp_radix p ^ i = ucc_knomial_pattern_loop_rank p q div kp_radix p ^ i)"
    and x: "x < kp_size p \<Longrightarrow> ucc_knomial_pattern_loop_rank p x < kn_loop_size p"
    and s: "s < kp_radix p"
  shows "count (let q = ucc_knomial_pattern_get_loop_peer (kn_at p i) r s
           in if q = UCC_KN_PEER_NULL then {#} else kn_combined p i q) x
    = of_bool (x < kp_size p \<and> ucc_knomial_pattern_loop_rank p x div kp_radix p ^ i
        = digit_peer (kp_radix p) i (ucc_knomial_pattern_loop_rank p r) s div kp_radix p ^ i)"
proof -
  let ?m = "digit_peer (kp_radix p) i (ucc_knomial_pattern_loop_rank p r) s"
  have R: "2 \<le> kp_radix p" by (rule kn_wf_facts(1) [OF wf(1)])
  show ?thesis
  proof (cases "?m < kn_loop_size p")
    case True
    then show ?thesis
      using peer_at [OF wf i r s] IH [OF loop_rank_inv_in_loop [OF wf(1) True]]
        loop_rank_inv_not_null [OF wf(1) True] loop_rank_of_inv [OF wf(1) True]
      by (simp add: Let_def)
  next
    case False
    have "\<not> (x < kp_size p \<and> ucc_knomial_pattern_loop_rank p x div kp_radix p ^ i = ?m div kp_radix p ^ i)"
      using x False digit_peer_lt_iff [OF R kn_pow_le(2) [OF wf(1) i]] by metis
    then show ?thesis using peer_at [OF wf i r s] False by (simp add: Let_def)
  qed
qed

lemma all_loop_rank_lt:
  assumes "kn_pattern_wf p e" "x < kp_size p"
  shows "ucc_knomial_pattern_loop_rank p x < kn_loop_size p"
  using kn_wf_facts(3,5,7) [OF assms(1)] assms(2)
  by (auto simp: ucc_knomial_pattern_loop_rank_def kn_u32_2x [OF assms(1)] sub32_id kn_loop_size_def)

lemma sum_digits:
  fixes R y l i :: nat
  assumes R: "2 \<le> R"
  shows "(\<Sum>s<R. of_bool (y div R ^ i = digit_peer R i l s div R ^ i))
    = (of_bool (y div R ^ Suc i = l div R ^ Suc i) :: nat)"
proof -
  let ?a = "(l div R ^ i) mod R" and ?b = "(y div R ^ i) mod R"
  have dd: "z div R ^ Suc i = z div R ^ i div R" for z
    by (simp only: power_Suc2 div_mult2_eq)
  have iff: "y div R ^ i = digit_peer R i l s div R ^ i \<longleftrightarrow>
      y div R ^ Suc i = l div R ^ Suc i \<and> (?a + s) mod R = ?b" for s
  proof -
    have y: "y div R ^ i = (y div R ^ Suc i) * R + ?b" unfolding dd by (rule div_mult_mod_eq [symmetric])
    have d: "digit_peer R i l s div R ^ i = l div R ^ Suc i * R + (?a + s) mod R"
      using digit_peer_props(4) [OF R, of i l s] by simp
    have "c * R + a = d * R + b \<longleftrightarrow> c = d \<and> b = a" if "a < R" "b < R" for a b c d :: nat
      using that by (metis add_right_cancel div_mult_self3 div_less add_0 mult.commute add.commute
          less_nat_zero_code)
    from this [of ?b "(?a + s) mod R"]
    have "y div R ^ Suc i * R + ?b = l div R ^ Suc i * R + (?a + s) mod R \<longleftrightarrow>
        y div R ^ Suc i = l div R ^ Suc i \<and> (?a + s) mod R = ?b"
      using R by simp
    then show ?thesis by (simp only: y [symmetric] d [symmetric])
  qed
  show ?thesis
    using digit_unique [of ?a R ?b] R by (simp add: iff)
qed

lemma count_kn_combined:
  assumes wf: "kn_pattern_wf p e" "kp_radix_pow p = 1" and "i \<le> kp_n_iters p" "kn_in_loop p r"
  shows "count (kn_combined p i r) x = of_bool (x < kp_size p \<and>
    ucc_knomial_pattern_loop_rank p x div kp_radix p ^ i = ucc_knomial_pattern_loop_rank p r div kp_radix p ^ i)"
  using assms(3,4)
proof (induction i arbitrary: r)
  case 0
  then show ?case using count_kn_combined_0 [OF wf(1), of r x] by (simp del: kn_combined.simps)
next
  case (Suc i)
  let ?R = "kp_radix p" and ?l = "ucc_knomial_pattern_loop_rank p r" and ?y = "ucc_knomial_pattern_loop_rank p x"
  let ?f = "\<lambda>s. of_bool (x < kp_size p \<and> ?y div ?R ^ i = digit_peer ?R i ?l s div ?R ^ i) :: nat"
  have i: "i < kp_n_iters p" "i \<le> kp_n_iters p" using Suc.prems(1) by simp_all
  have R: "2 \<le> ?R" by (rule kn_wf_facts(1) [OF wf(1)])
  have d0: "digit_peer ?R i ?l 0 = ?l"
    by (rule digit_eqI [where R = ?R and i = i]) (simp_all only: digit_peer_props(1-3) [OF R] mod_mod_trivial add_0_right)
  have "count (kn_combined p (Suc i) r) x = ?f 0 + (\<Sum>s\<in>{1..<?R}. ?f s)"
    using Suc.IH [OF i(2)] Suc.prems(2) d0
    by (simp add: count_sum count_sum_peers [OF wf i(1) Suc.prems(2) Suc.IH [OF i(2)] all_loop_rank_lt [OF wf(1)]])
  also have "\<dots> = (\<Sum>s<?R. ?f s)"
    using R sum.atLeast_Suc_lessThan [of 0 ?R ?f] by (simp add: lessThan_atLeast0)
  also have "\<dots> = of_bool (x < kp_size p \<and> ?y div ?R ^ Suc i = ?l div ?R ^ Suc i)"
    using sum_digits [OF R, of ?y i ?l] by (cases "x < kp_size p") simp_all
  finally show ?case .
qed

lemma kn_combined_all:
  assumes wf: "kn_pattern_wf p e" "kp_radix_pow p = 1" and r: "kn_in_loop p r"
  shows "kn_combined p (kp_n_iters p) r = mset [0..<kp_size p]"
proof (rule multiset_eqI)
  fix x
  have z: "ucc_knomial_pattern_loop_rank p y div kp_radix p ^ kp_n_iters p = 0" if "y < kp_size p" for y
    using all_loop_rank_lt [OF wf(1) that] kn_wf_facts(9) [OF wf(1)] by simp
  have "r < kp_size p" using r by (simp add: kn_in_loop_def)
  then show "count (kn_combined p (kp_n_iters p) r) x = count (mset [0..<kp_size p]) x"
    using count_kn_combined [OF wf order_refl r, of x] z by (auto simp: count_mset_0_iff)
qed

section \<open>The radix with the fewest extras\<close>

text \<open>The number of extras a radix leaves, as the initialisation computes it.\<close>

definition kn_extras :: "nat \<Rightarrow> nat \<Rightarrow> nat" where
  "kn_extras n R = (case ucc_knomial_pattern_init n 0 R undefined of Some p \<Rightarrow> kp_n_extra p | None \<Rightarrow> 0)"

lemma kn_extras_eq:
  assumes "kn_args_ok n R" "R ^ e \<le> n" "n < R ^ (e + 1)"
  shows "kn_extras n R = n mod R ^ e"
proof -
  obtain p e' where p: "ucc_knomial_pattern_init n 0 R undefined = Some p" "kn_pattern_wf p e'" "kp_size p = n"
    "kp_radix p = R"
    using kn_init_returns [OF assms(1), of 0 undefined False] unfolding ucc_knomial_pattern_init_def by metis
  have "R ^ e' \<le> n" "n < R ^ (e' + 1)" "kp_n_extra p = n mod R ^ e'"
    using p(2-4) by (simp_all add: kn_pattern_wf_def Let_def)
  moreover have "e' = e"
  proof (rule ccontr)
    assume "e' \<noteq> e"
    have R: "1 \<le> R" using assms(1) by (simp add: kn_args_ok_def)
    consider "e + 1 \<le> e'" | "e' + 1 \<le> e" using \<open>e' \<noteq> e\<close> by linarith
    then show False
      by cases (use power_increasing [of "e + 1" e' R] power_increasing [of "e' + 1" e R] R assms(2,3)
        calculation in linarith)+
  qed
  ultimately show ?thesis using p(1) by (simp add: kn_extras_def)
qed

lemma opt_pow_loop_returns:
  assumes ok: "kn_args_ok n R" and k: "1 \<le> k" "k = 1 \<or> R ^ (k - 1) < n"
  shows "\<exists>j\<ge>1. opt_pow_loop n R (R ^ k) = Some (R ^ j) \<and> n \<le> R ^ j \<and> (j = 1 \<or> R ^ (j - 1) < n)"
  using k
proof (induction "n - R ^ k" arbitrary: k rule: less_induct)
  case less
  have R: "2 \<le> R" using ok by (simp add: kn_args_ok_def)
  show ?case
  proof (cases "R ^ k < n")
    case True
    have "R ^ k < R ^ (k + 1)" using R by simp
    then have m: "n - R ^ (k + 1) < n - R ^ k" using True by linarith
    have u: "u32 (R ^ k * R) = R ^ (k + 1)"
      using pow_mult_lt [OF ok True] by (simp add: u32_id mult.commute)
    have "opt_pow_loop n R (R ^ k) = opt_pow_loop n R (R ^ (k + 1))"
      by (subst opt_pow_loop.simps) (simp only: True u if_True)
    then show ?thesis using less.hyps [OF m] True by simp
  next
    case False
    then show ?thesis using less.prems by (intro exI [of _ k]) (simp add: opt_pow_loop.simps)
  qed
qed

lemma opt_radix_body:
  assumes ok: "kn_args_ok n R"
  shows "\<exists>fs0. opt_pow_loop n R R = Some fs0 \<and>
    (let fs = (if fs0 = n then fs0 else fs0 div R) in sub32 n (u32 (n div fs * fs))) = kn_extras n R"
proof -
  have R: "2 \<le> R" "1 \<le> n" using ok by (simp_all add: kn_args_ok_def)
  obtain j where j: "j \<ge> 1" "opt_pow_loop n R R = Some (R ^ j)" "n \<le> R ^ j" "j = 1 \<or> R ^ (j - 1) < n"
    using opt_pow_loop_returns [OF ok, of 1] by auto
  define e where "e = (if R ^ j = n then j else j - 1)"
  have full: "(if R ^ j = n then R ^ j else R ^ j div R) = R ^ e"
    using j(1) R by (cases j) (auto simp: e_def)
  have le: "R ^ e \<le> n" using j(3,4) R by (auto simp: e_def)
  have lt: "n < R ^ (e + 1)" using j(1,3) R by (cases j) (auto simp: e_def)
  have le1: "n div R ^ e * R ^ e \<le> n" by (rule div_times_less_eq_dividend)
  have "u32 (n div R ^ e * R ^ e) = n div R ^ e * R ^ e"
    using le1 kn_args_lt [OF ok] by (intro u32_id) linarith
  then have "sub32 n (u32 (n div R ^ e * R ^ e)) = n mod R ^ e"
    using sub32_id [OF le1 kn_args_lt [OF ok]] by (simp add: minus_div_mult_eq_mod)
  then have "(let fs = (if R ^ j = n then R ^ j else R ^ j div R) in sub32 n (u32 (n div fs * fs))) = kn_extras n R"
    unfolding full Let_def kn_extras_eq [OF ok le lt] .
  then show ?thesis using j(2) by blast
qed

lemma kn_extras_lt: "kn_args_ok n R \<Longrightarrow> kn_extras n R < n"
proof -
  assume ok: "kn_args_ok n R"
  obtain p e where "ucc_knomial_pattern_init n 0 R undefined = Some p" "kn_pattern_wf p e" "kp_size p = n"
    using kn_init_returns [OF ok, of 0 undefined False] unfolding ucc_knomial_pattern_init_def by metis
  moreover from this have "0 < n - kp_n_extra p" using kn_wf_facts(7) by (fastforce simp: kn_loop_size_def)
  ultimately show ?thesis by (simp add: kn_extras_def)
qed

lemma opt_radix_loop_step:
  assumes ok: "kn_args_ok n r" and r: "r \<le> max_r" "max_r < 65535"
  shows "opt_radix_loop n max_r r v m =
    (if kn_extras n r = 0 then Some r
     else if kn_extras n r < v then opt_radix_loop n max_r (r + 1) (kn_extras n r) r
     else opt_radix_loop n max_r (r + 1) v m)"
proof -
  obtain fs0 where fs: "opt_pow_loop n r r = Some fs0"
    "(let fs = (if fs0 = n then fs0 else fs0 div r) in sub32 n (u32 (n div fs * fs))) = kn_extras n r"
    using opt_radix_body [OF ok] by blast
  have u: "u16 (r + 1) = r + 1" using r by (intro u16_id) simp
  show ?thesis
    by (subst opt_radix_loop.simps, simp only: r(1) if_True fs(1) bind.bind_lunit u)
      (use fs(2) in \<open>simp only: Let_def\<close>)
qed

definition opt_inv :: "nat \<Rightarrow> nat \<Rightarrow> nat \<Rightarrow> nat \<Rightarrow> nat \<Rightarrow> nat \<Rightarrow> bool" where
  "opt_inv n lo max_r r v m \<longleftrightarrow> lo \<le> max_r \<and> lo \<le> r \<and> r \<le> max_r + 1
     \<and> (if r = lo then v = n else lo \<le> m \<and> m \<le> max_r \<and> v = kn_extras n m \<and> (\<forall>k\<in>{lo..<r}. v \<le> kn_extras n k))"

lemma opt_radix_loop_best:
  assumes hi: "max_r < 65535" "n * max_r < 2 ^ 32" "1 \<le> n" "2 \<le> lo" and "opt_inv n lo max_r r v m"
  shows "\<exists>m'. opt_radix_loop n max_r r v m = Some m' \<and> lo \<le> m' \<and> m' \<le> max_r
    \<and> (\<forall>k\<in>{lo..max_r}. kn_extras n m' \<le> kn_extras n k)"
  using assms(5)
proof (induction "max_r + 1 - r" arbitrary: r v m rule: less_induct)
  case less
  note inv = less.prems [unfolded opt_inv_def]
  show ?case
  proof (cases "r \<le> max_r")
    case False
    then have "opt_radix_loop n max_r r v m = Some m" by (simp add: opt_radix_loop.simps)
    then show ?thesis using inv False by (intro exI [of _ m]) (auto split: if_splits)
  next
    case True
    have "n * r < 2 ^ 32" using mult_le_mono2 [OF True, of n] hi(2) by linarith
    then have ok: "kn_args_ok n r" using hi inv True by (simp add: kn_args_ok_def)
    note st = opt_radix_loop_step [OF ok True hi(1), of v m]
    consider "kn_extras n r = 0" | "0 < kn_extras n r" "kn_extras n r < v" | "0 < kn_extras n r" "v \<le> kn_extras n r"
      by linarith
    then show ?thesis
    proof cases
      case 1
      then show ?thesis using st inv True by (intro exI [of _ r]) simp
    next
      case 2
      have "kn_extras n r \<le> kn_extras n k" if "k \<in> {lo..<r}" for k
      proof -
        have "r \<noteq> lo" using that by auto
        then have "\<forall>k\<in>{lo..<r}. v \<le> kn_extras n k" using inv by auto
        then have "v \<le> kn_extras n k" using that by blast
        then show ?thesis using 2 by simp
      qed
      then have "opt_inv n lo max_r (r + 1) (kn_extras n r) r"
        using inv True by (auto simp: opt_inv_def less_Suc_eq)
      then show ?thesis using less.hyps [of "r + 1"] st 2 True by simp
    next
      case 3
      then have "r \<noteq> lo" using inv kn_extras_lt [OF ok] by (auto split: if_splits)
      then have "opt_inv n lo max_r (r + 1) v m"
        using inv 3 True by (auto simp: opt_inv_def less_Suc_eq)
      then show ?thesis using less.hyps [of "r + 1"] st 3 True by simp
    qed
  qed
qed

section \<open>Properties\<close>

text \<open>A pattern record before initialisation.\<close>

definition kn_blank :: ucc_knomial_pattern where
  "kn_blank = \<lparr>kp_radix = 0, kp_type = KN_PATTERN_NONE, kp_iteration = 0, kp_n_iters = 0, kp_pow_radix_sup = 0,
     kp_node_type = KN_NODE_BASE, kp_backward = False, kp_radix_pow = 0, kp_full_pow_size = 0, kp_size = 0,
     kp_rank = 0, kp_n_extra = 0, kp_block_size_counts = 0, kp_count = 0, kp_counts = [], kp_block_size = 0,
     kp_block_offset = 0, kp_is64 = False\<rparr>"

lemma kn_pow_loop_6: "kn_pow_loop 6 2 1 2 = Some (3, 8)"
  by (simp add: kn_pow_loop.simps u8_def u32_def)

text \<open>The pattern of a team of 6 with radix 2: two extras, two iterations.\<close>

definition kn_six :: "ucc_rank \<Rightarrow> kn_node \<Rightarrow> ucc_knomial_pattern" where
  "kn_six r nt = kn_blank\<lparr>kp_pow_radix_sup := 3, kp_full_pow_size := 4, kp_radix := 2, kp_size := 6, kp_rank := r,
     kp_backward := False, kp_iteration := 0, kp_n_extra := 2, kp_n_iters := 2, kp_radix_pow := 1, kp_node_type := nt\<rparr>"

lemma kn_six_fields:
  "kp_radix (kn_six r nt) = 2" "kp_size (kn_six r nt) = 6" "kp_n_extra (kn_six r nt) = 2"
  "kp_n_iters (kn_six r nt) = 2" "kp_radix_pow (kn_six r nt) = 1" "kp_node_type (kn_six r nt) = nt"
  by (simp_all add: kn_six_def)

lemma kn_init_6:
  assumes "nt = (if r < 4 then if r mod 2 \<noteq> 0 then KN_NODE_EXTRA else KN_NODE_PROXY else KN_NODE_BASE)"
  shows "ucc_knomial_pattern_init 6 r 2 kn_blank = Some (kn_six r nt)"
  unfolding ucc_knomial_pattern_init_def ucc_knomial_pattern_init_impl_def kn_pow_loop_6 assms
  by (simp add: kn_six_def Let_def ucc_kn_pattern_n_full_def ucc_kn_pattern_radix_pow_init_def sub32_def u32_def
      split del: if_split)

lemmas kn_eval = kn_at_def ucc_knomial_pattern_get_loop_peer_def kn_six_fields
  ucc_knomial_pattern_loop_rank_def ucc_knomial_pattern_loop_rank_inv_def kn_step_size_def ucc_align_down_def
  kn_in_loop_def u8_def u32_def sub32_def Let_def

text \<open>
  C21: for every team and radix whose product fits in 32 bits, \<open>ucc_knomial_pattern_init\<close> returns; after
  the iterations of the pattern every rank of the main loop has combined the contribution of every
  rank of the team, extras included, exactly once.
\<close>

theorem knomial_exchange_exactly_once:
  assumes "kn_args_ok n R" "r < n"
  shows "\<exists>p. ucc_knomial_pattern_init n r R p0 = Some p
    \<and> (kp_node_type p \<noteq> KN_NODE_EXTRA \<longrightarrow> kn_combined p (kp_n_iters p) r = mset [0..<n])"
proof -
  obtain p e where p: "ucc_knomial_pattern_init n r R p0 = Some p" "kn_pattern_wf p e" "kp_size p = n"
    "kp_radix p = R" "kp_radix_pow p = 1"
    "kp_node_type p = (if r < 2 * kp_n_extra p then (if odd r then KN_NODE_EXTRA else KN_NODE_PROXY) else KN_NODE_BASE)"
    using kn_init_returns [OF assms(1), of r p0 False] unfolding ucc_knomial_pattern_init_def by (metis (full_types))
  have "kn_in_loop p r" if "kp_node_type p \<noteq> KN_NODE_EXTRA"
    using that assms(2) p(3,6) by (auto simp: kn_in_loop_def split: if_splits)
  then have "kn_combined p (kp_n_iters p) r = mset [0..<n]" if "kp_node_type p \<noteq> KN_NODE_EXTRA"
    using kn_combined_all [OF p(2,5)] that p(3) by blast
  then show ?thesis using p(1) by blast
qed

theorem knomial_exchange_exactly_once_witness:
  "ucc_knomial_pattern_init 6 2 2 kn_blank = Some (kn_six 2 KN_NODE_PROXY)
    \<and> kn_combined (kn_six 2 KN_NODE_PROXY) 2 2 = mset [0..<6]"
  using knomial_exchange_exactly_once [of 6 2 2 kn_blank] kn_init_6 [of KN_NODE_PROXY 2]
  by (auto simp: kn_args_ok_def kn_six_fields)

text \<open>
  in every iteration the peers of the main loop are mutual: when rank \<open>r\<close> computes rank \<open>q\<close> as its
  peer at step \<open>s\<close>, then \<open>q\<close> is another rank of the main loop which, from its own pattern, computes
  \<open>r\<close> as its peer at step \<open>radix - s\<close>.
\<close>

theorem knomial_peers_mutual:
  assumes "kn_args_ok n R" "ucc_knomial_pattern_init n r R p0 = Some p" "ucc_knomial_pattern_init n q R q0 = Some p'"
    and "kn_in_loop p r" "i < kp_n_iters p" "0 < s" "s < R"
    and "ucc_knomial_pattern_get_loop_peer (kn_at p i) r s = q" "q \<noteq> UCC_KN_PEER_NULL"
  shows "q \<noteq> r \<and> kn_in_loop p' q \<and> i < kp_n_iters p'
    \<and> ucc_knomial_pattern_get_loop_peer (kn_at p' i) q (R - s) = r"
proof -
  obtain e where p: "kn_pattern_wf p e" "kp_radix_pow p = 1" "kp_size p = n" "kp_radix p = R"
    by (rule kn_init_wf [OF assms(1,2)])
  note same = kn_init_same_tree [OF assms(1-3)]
  have "kn_in_loop p' q \<longleftrightarrow> kn_in_loop p q"
    using same(1) by (simp add: kn_same_tree_def kn_in_loop_def)
  then show ?thesis
    using kn_peer_symmetric_wf [OF p(1,2) assms(5,4,6) _ assms(8,9)] assms(5,7) same(2) p(4)
      kn_same_tree_peer(1) [OF kn_same_tree_at [OF same(1)], of i q "R - s"] by simp
qed

theorem knomial_peers_mutual_witness:
  "ucc_knomial_pattern_get_loop_peer (kn_at (kn_six 4 KN_NODE_BASE) 0) 4 1 = 5
    \<and> ucc_knomial_pattern_get_loop_peer (kn_at (kn_six 5 KN_NODE_BASE) 0) 5 1 = 4"
proof -
  have "kn_args_ok 6 2" by (simp add: kn_args_ok_def)
  moreover have "ucc_knomial_pattern_init 6 4 2 kn_blank = Some (kn_six 4 KN_NODE_BASE)"
    and "ucc_knomial_pattern_init 6 5 2 kn_blank = Some (kn_six 5 KN_NODE_BASE)"
    by (simp_all add: kn_init_6)
  moreover have "kn_in_loop (kn_six 4 KN_NODE_BASE) 4" by (simp add: kn_eval)
  moreover have peer: "ucc_knomial_pattern_get_loop_peer (kn_at (kn_six 4 KN_NODE_BASE) 0) 4 1 = 5"
    by (simp add: kn_eval)
  ultimately show ?thesis
    using knomial_peers_mutual [of 6 2 4 kn_blank "kn_six 4 KN_NODE_BASE" 5 kn_blank "kn_six 5 KN_NODE_BASE" 0 1]
    by (simp add: UCC_KN_PEER_NULL_def kn_six_fields)
qed

text \<open>
  \<open>ucc_kn_get_opt_radix\<close> returns, and its result is a radix between the bounds for which no radix
  between the bounds leaves fewer extra ranks.
\<close>

theorem kn_get_opt_radix_minimal:
  assumes "2 \<le> min_radix" "max max_radix min_radix < 65535" "1 \<le> n" "n * max max_radix min_radix < 2 ^ 32"
  shows "\<exists>R. ucc_kn_get_opt_radix n min_radix max_radix = Some R \<and> min_radix \<le> R \<and> R \<le> max max_radix min_radix
    \<and> (\<forall>k\<in>{min_radix..max max_radix min_radix}. kn_extras n R \<le> kn_extras n k)"
  unfolding ucc_kn_get_opt_radix_def
  by (rule opt_radix_loop_best [OF assms(2,4,3,1)]) (simp add: opt_inv_def)

theorem kn_get_opt_radix_minimal_witness:
  "\<exists>R. ucc_kn_get_opt_radix 6 2 4 = Some R \<and> 2 \<le> R \<and> R \<le> 4 \<and> kn_extras 6 R \<le> kn_extras 6 3"
  using kn_get_opt_radix_minimal [of 2 4 6] by fastforce

section \<open>The widths of the fields\<close>

text \<open>The declared ranges of the fields of a pattern: 16 bits for the radix, 8 for the iterations, 32 for the ranks and powers.\<close>

definition kn_typed :: "ucc_knomial_pattern \<Rightarrow> bool" where
  "kn_typed p \<longleftrightarrow> kp_radix p < 2 ^ 16 \<and> kp_iteration p < 2 ^ 8 \<and> kp_n_iters p < 2 ^ 8 \<and> kp_radix_pow p < 2 ^ 32
     \<and> kp_full_pow_size p < 2 ^ 32 \<and> kp_size p < 2 ^ 32 \<and> kp_n_extra p < 2 ^ 32"

text \<open>
  C22: in every iteration of an initialised pattern the fields stay inside the types the structure declares, and neither the iteration
  counter nor the power of the radix has wrapped; every peer a rank of the main loop computes is the null peer or another rank of the
  team.
\<close>

theorem knomial_pattern_typed:
  assumes ok: "kn_args_ok n R" and r: "r < n"
  shows "\<exists>p. ucc_knomial_pattern_init n r R p0 = Some p \<and>
    (\<forall>i \<le> kp_n_iters p. kn_typed (kn_at p i) \<and> kp_iteration (kn_at p i) = i \<and> kp_radix_pow (kn_at p i) = R ^ i) \<and>
    (kp_node_type p \<noteq> KN_NODE_EXTRA \<longrightarrow>
       (\<forall>i < kp_n_iters p. \<forall>s \<in> {1..<R}.
          ucc_knomial_pattern_get_loop_peer (kn_at p i) r s \<in> insert UCC_KN_PEER_NULL ({..<n} - {r})))"
proof -
  obtain p e where p: "ucc_knomial_pattern_init n r R p0 = Some p" "kn_pattern_wf p e" "kp_size p = n"
    "kp_radix p = R" "kp_radix_pow p = 1" "kp_iteration p = 0"
    "kp_node_type p = (if r < 2 * kp_n_extra p then (if odd r then KN_NODE_EXTRA else KN_NODE_PROXY) else KN_NODE_BASE)"
    using kn_init_returns [OF ok, of r p0 False] unfolding ucc_knomial_pattern_init_def by (metis (full_types))
  have n: "kp_n_iters p < 256" and f: "kp_full_pow_size p = R ^ e" using p(2,4) by (simp_all add: kn_pattern_wf_def Let_def)
  have pw: "kp_radix_pow (kn_at p i) = R ^ i" and it: "kp_iteration (kn_at p i) = i" if "i \<le> kp_n_iters p" for i
    using kn_at_radix_pow [OF p(2,5) that] kn_at_iteration [of i p] that n p(4,6) by simp_all
  have "R ^ i < 2 ^ 32" if "i \<le> kp_n_iters p" for i
    using kn_pow_le(3) [OF p(2), of "i - 1"] that p(4) by (cases i) (simp_all add: mult.commute)
  then have "kn_typed (kn_at p i)" if "i \<le> kp_n_iters p" for i
    using kn_wf_facts(2,3,5,11) [OF p(2)] pw [OF that] it [OF that] that n f p(4) unfolding kn_typed_def kn_at_fields by simp
  moreover have "ucc_knomial_pattern_get_loop_peer (kn_at p i) r s \<in> insert UCC_KN_PEER_NULL ({..<n} - {r})"
    if "kp_node_type p \<noteq> KN_NODE_EXTRA" "i < kp_n_iters p" "s \<in> {1..<R}" for i s
  proof -
    have "kn_in_loop p r" using that(1) r p(3,7) by (auto simp: kn_in_loop_def split: if_splits)
    then show ?thesis using kn_peer_symmetric_wf [OF p(2,5) that(2), of r s] that(3) p(3,4) by (auto simp: kn_in_loop_def)
  qed
  ultimately show ?thesis using p(1) pw it by blast
qed

text \<open>Rank 2 of six ranks with radix 2, a proxy, in its first iteration.\<close>

theorem knomial_pattern_typed_witness:
  "kn_typed (kn_at (kn_six 2 KN_NODE_PROXY) 2) \<and> kp_radix_pow (kn_at (kn_six 2 KN_NODE_PROXY) 2) = 4
    \<and> ucc_knomial_pattern_get_loop_peer (kn_at (kn_six 2 KN_NODE_PROXY) 0) 2 1 \<in> insert UCC_KN_PEER_NULL ({..<6} - {2})"
proof -
  let ?p = "kn_six 2 KN_NODE_PROXY"
  have "kn_args_ok 6 2" by (simp add: kn_args_ok_def)
  from knomial_pattern_typed [OF this, of 2 kn_blank] kn_init_6 [of KN_NODE_PROXY 2]
  have t: "\<forall>i \<le> kp_n_iters ?p. kn_typed (kn_at ?p i) \<and> kp_iteration (kn_at ?p i) = i \<and> kp_radix_pow (kn_at ?p i) = 2 ^ i"
    and q: "\<forall>i < kp_n_iters ?p. \<forall>s \<in> {1..<2}. ucc_knomial_pattern_get_loop_peer (kn_at ?p i) 2 s \<in> insert UCC_KN_PEER_NULL ({..<6} - {2})"
    by (auto simp: kn_six_fields)
  have "kp_n_iters ?p = 2" by (simp add: kn_six_fields)
  then show ?thesis using t [rule_format, of 2] q [rule_format, of 0 1] by simp
qed

end
