(* ===== verification/Sra_Knomial.thy ===== *)
theory Sra_Knomial
  imports Knomial Buffer_Blocks
begin

text \<open>
  The segments of the scatter-reduce-allgather family, \<open>src/coll_patterns/sra_knomial.h\<close>: how a
  buffer is cut along the knomial tree. A rank's block starts as the whole buffer and every iteration
  keeps the segment of the rank's digit. The \<open>X\<close> patterns cut a block of elements evenly; the others
  cut a range of loop ranks and take the elements the ranks own.

  Sizes of type \<open>size_t\<close> are natural numbers with 64-bit wrap-around, \<open>ptrdiff_t\<close> offsets are
  integers; a value stored in a \<open>ucc_rank_t\<close> is cut to 32 bits as in the source. An \<open>ucc_assert(0)\<close>
  branch does nothing in a release build and leaves the outputs at their initial zeros. A pattern
  whose initialisation does not return is \<open>None\<close>.
\<close>

section \<open>Segments\<close>

definition ucc_kn_compute_step_radix :: "ucc_knomial_pattern \<Rightarrow> nat" where
  "ucc_kn_compute_step_radix p =
     (let n_full = ucc_kn_pattern_n_full p
      in if u32 (kp_radix_pow p * kp_radix p) \<ge> kp_size p then (if n_full > 1 then n_full else kp_radix p)
         else kp_radix p)"

definition ucc_kn_compute_seg_index :: "ucc_rank \<Rightarrow> nat \<Rightarrow> ucc_knomial_pattern \<Rightarrow> nat" where
  "ucc_kn_compute_seg_index peer0 kpow_num p =
     (let peer = ucc_knomial_pattern_loop_rank p peer0;
          peer_base_rank = ucc_align_down peer (u32 (kpow_num * kp_radix p));
          peer_position = (if peer_base_rank = 0 then peer else peer mod peer_base_rank)
      in peer_position div kpow_num)"

definition ucc_sra_kn_compute_seg_size :: "nat \<Rightarrow> nat \<Rightarrow> nat \<Rightarrow> nat" where
  "ucc_sra_kn_compute_seg_size block_count radix si = ucc_buffer_block_count block_count radix si"

definition ucc_sra_kn_compute_seg_offset :: "nat \<Rightarrow> nat \<Rightarrow> nat \<Rightarrow> nat" where
  "ucc_sra_kn_compute_seg_offset block_count radix si = ucc_buffer_block_offset block_count radix si"



partial_function (option) sra_offset_loop ::
    "nat \<Rightarrow> ucc_rank \<Rightarrow> ucc_knomial_pattern \<Rightarrow> nat \<Rightarrow> int \<Rightarrow> (int \<times> nat) option" where
  "sra_offset_loop dt_size rank p cnt offset =
     (if ucc_knomial_pattern_loop_done p then Some (offset, cnt)
      else
        let step_radix = ucc_kn_compute_step_radix p;
            my_si = ucc_kn_compute_seg_index rank (kp_radix_pow p) p;
            my_seg_offset = ucc_sra_kn_compute_seg_offset cnt (u16 step_radix) my_si;
            cnt' = ucc_sra_kn_compute_seg_size cnt (u16 step_radix) my_si
        in sra_offset_loop dt_size rank (ucc_knomial_pattern_next_iteration p) cnt'
             (s64 (offset + int (u64 (my_seg_offset * dt_size)))))"

text \<open>The local pattern \<open>p\<close> of the source is uninitialised on entry; \<open>junk\<close> is what it holds.\<close>

definition ucc_sra_kn_get_offset_and_seglen ::
    "ucc_knomial_pattern \<Rightarrow> nat \<Rightarrow> nat \<Rightarrow> ucc_rank \<Rightarrow> nat \<Rightarrow> nat \<Rightarrow> (int \<times> nat) option" where
  "ucc_sra_kn_get_offset_and_seglen junk cnt dt_size rank n radix =
     Option.bind (ucc_knomial_pattern_init n rank radix junk) (\<lambda>p.
       if kp_node_type p = KN_NODE_EXTRA then Some (0, 0) else sra_offset_loop dt_size rank p cnt 0)"

definition ucc_sra_kn_get_offset ::
    "ucc_knomial_pattern \<Rightarrow> nat \<Rightarrow> nat \<Rightarrow> ucc_rank \<Rightarrow> nat \<Rightarrow> nat \<Rightarrow> int option" where
  "ucc_sra_kn_get_offset junk cnt dt_size rank n radix =
     map_option fst (ucc_sra_kn_get_offset_and_seglen junk cnt dt_size rank n radix)"

record ucc_kn_seg_desc =
  seg_size :: nat
  seg_offset :: nat
  seg_start_rank_loop :: nat
  seg_end_rank_loop :: nat
  seg_start :: nat
  seg_end :: nat

definition ucc_kn_seg_desc_compute :: "ucc_knomial_pattern \<Rightarrow> ucc_rank \<Rightarrow> ucc_kn_seg_desc" where
  "ucc_kn_seg_desc_compute p peer =
     (let step_radix = ucc_kn_compute_step_radix p;
          seg_index = ucc_kn_compute_seg_index peer (kp_radix_pow p) p;
          ssize = kp_block_size p div step_radix;
          soffset = u32 (ssize * seg_index);
          sstart = u32_of_int (int soffset + kp_block_offset p);
          send = u32 (sstart + ssize)
      in \<lparr>seg_size = ssize, seg_offset = soffset, seg_start_rank_loop = sstart, seg_end_rank_loop = send,
          seg_start = ucc_knomial_pattern_loop_rank_inv p sstart,
          seg_end = ucc_knomial_pattern_loop_rank_inv p send\<rparr>)"

text \<open>
  \<open>ucc_knx_block\<close>: the block of a rank before iteration \<open>iter\<close>. The running offset and count are
  \<open>ucc_rank_t\<close>, 32 bits.
\<close>

partial_function (option) knx_loop ::
    "int \<Rightarrow> ucc_rank \<Rightarrow> ucc_knomial_pattern \<Rightarrow> nat \<Rightarrow> nat \<Rightarrow> (nat \<times> nat) option" where
  "knx_loop iter rank p block_count offset =
     (if int (kp_iteration p) < iter then
        let step_radix = u16 (ucc_kn_compute_step_radix p);
            my_si = ucc_kn_compute_seg_index rank (kp_radix_pow p) p
        in knx_loop iter rank (ucc_knomial_pattern_next_iteration p)
             (u32 (ucc_buffer_block_count block_count step_radix my_si))
             (u32 (offset + ucc_buffer_block_offset block_count step_radix my_si))
      else Some (block_count, offset))"

definition ucc_knx_block ::
    "ucc_knomial_pattern \<Rightarrow> ucc_rank \<Rightarrow> nat \<Rightarrow> nat \<Rightarrow> nat \<Rightarrow> int \<Rightarrow> (nat \<times> int) option" where
  "ucc_knx_block junk rank n radix cnt iter =
     Option.bind (ucc_knomial_pattern_init n rank radix junk) (\<lambda>p.
       if kp_node_type p = KN_NODE_EXTRA then Some (0, 0)
       else map_option (\<lambda>(b_count, b_offset). (b_count, int b_offset)) (knx_loop iter rank p (u32 cnt) 0))"

section \<open>Gather\<close>

definition ucc_kn_g_pattern_init ::
    "nat \<Rightarrow> ucc_rank \<Rightarrow> nat \<Rightarrow> nat \<Rightarrow> ucc_knomial_pattern \<Rightarrow> ucc_knomial_pattern option" where
  "ucc_kn_g_pattern_init n rank radix cnt p0 =
     Option.bind (ucc_knomial_pattern_init_no_extra n rank radix p0) (\<lambda>p.
       let bs = u32 (kp_radix_pow p * radix)
       in Some (p\<lparr>kp_type := KN_PATTERN_GATHER, kp_count := cnt, kp_block_size := bs,
                  kp_block_offset := int (u32 (ucc_knomial_pattern_loop_rank p rank div bs * bs))\<rparr>))"

definition ucc_kn_gx_pattern_init ::
    "ucc_knomial_pattern \<Rightarrow> nat \<Rightarrow> ucc_rank \<Rightarrow> nat \<Rightarrow> nat \<Rightarrow> ucc_knomial_pattern \<Rightarrow> ucc_knomial_pattern option" where
  "ucc_kn_gx_pattern_init junk n rank radix cnt p0 =
     Option.bind (ucc_knomial_pattern_init_backward n rank radix p0) (\<lambda>p1.
       let p = p1\<lparr>kp_type := KN_PATTERN_GATHERX, kp_count := cnt\<rparr>
       in if kp_node_type p \<noteq> KN_NODE_EXTRA then
            map_option (\<lambda>(b_count, b_offset).
                p\<lparr>kp_block_size := ucc_kn_compute_step_radix p, kp_block_size_counts := b_count,
                  kp_block_offset := b_offset\<rparr>)
              (ucc_knx_block junk rank n radix cnt (int (kp_n_iters p) - 1))
          else Some p)"

definition ucc_kn_g_pattern_peer_seg :: "ucc_rank \<Rightarrow> ucc_knomial_pattern \<Rightarrow> nat \<times> int" where
  "ucc_kn_g_pattern_peer_seg peer p =
     (case kp_type p of
        KN_PATTERN_GATHER \<Rightarrow>
          (u64 (min (kp_radix_pow p) (sub32 (kp_size p) peer) * (kp_count p div kp_size p)),
           s64 (int (u64 (peer * (kp_count p div kp_size p)))))
      | KN_PATTERN_GATHERX \<Rightarrow>
          let step_radix = ucc_kn_compute_step_radix p;
              seg_index = ucc_kn_compute_seg_index peer (kp_radix_pow p) p
          in (ucc_buffer_block_count (kp_block_size_counts p) step_radix seg_index,
              s64 (int (ucc_buffer_block_offset (kp_block_size_counts p) step_radix seg_index) + kp_block_offset p))
      | _ \<Rightarrow> (0, 0))"

text \<open>Shared by the gather and the allgather family: the forward step widens the block.\<close>

definition kn_widen_block :: "nat \<Rightarrow> ucc_knomial_pattern \<Rightarrow> ucc_knomial_pattern" where
  "kn_widen_block rank p =
     (if \<not> ucc_knomial_pattern_loop_done p then
        let bs = u32 (kp_block_size p * ucc_kn_compute_step_radix p)
        in p\<lparr>kp_block_size := bs, kp_block_offset := int (u32 (rank div bs * bs))\<rparr>
      else p)"

definition kn_backward_block :: "ucc_knomial_pattern \<Rightarrow> ucc_knomial_pattern \<Rightarrow> ucc_knomial_pattern option" where
  "kn_backward_block junk p =
     (if \<not> ucc_knomial_pattern_loop_done p then
        map_option (\<lambda>(b_count, b_offset). p\<lparr>kp_block_size_counts := b_count, kp_block_offset := b_offset\<rparr>)
          (ucc_knx_block junk (kp_rank p) (kp_size p) (kp_radix p) (kp_count p)
             (int (kp_n_iters p) - 1 - int (kp_iteration p)))
      else Some p)"

definition ucc_kn_g_pattern_next_iter :: "ucc_knomial_pattern \<Rightarrow> ucc_knomial_pattern \<Rightarrow> ucc_knomial_pattern option" where
  "ucc_kn_g_pattern_next_iter junk p =
     (if kp_type p = KN_PATTERN_GATHERX then
        kn_backward_block junk (ucc_knomial_pattern_next_iteration_backward p)
      else
        let rank = ucc_knomial_pattern_loop_rank p (kp_rank p)
        in Some (kn_widen_block rank (ucc_knomial_pattern_next_iteration p)))"

section \<open>Allgather\<close>

definition ucc_kn_ag_pattern_init ::
    "nat \<Rightarrow> ucc_rank \<Rightarrow> nat \<Rightarrow> nat \<Rightarrow> ucc_knomial_pattern \<Rightarrow> ucc_knomial_pattern option" where
  "ucc_kn_ag_pattern_init n rank radix cnt p0 =
     Option.bind (ucc_knomial_pattern_init n rank radix p0) (\<lambda>p.
       let bs = u32 (kp_radix_pow p * radix)
       in Some (p\<lparr>kp_type := KN_PATTERN_ALLGATHER, kp_count := cnt, kp_block_size := bs,
                  kp_block_offset := int (u32 (ucc_knomial_pattern_loop_rank p rank div bs * bs))\<rparr>))"

definition ucc_kn_agx_pattern_init ::
    "ucc_knomial_pattern \<Rightarrow> nat \<Rightarrow> ucc_rank \<Rightarrow> nat \<Rightarrow> nat \<Rightarrow> ucc_knomial_pattern \<Rightarrow> ucc_knomial_pattern option" where
  "ucc_kn_agx_pattern_init junk n rank radix cnt p0 =
     Option.bind (ucc_knomial_pattern_init_backward n rank radix p0) (\<lambda>p1.
       let p = p1\<lparr>kp_type := KN_PATTERN_ALLGATHERX, kp_count := cnt\<rparr>
       in if kp_node_type p \<noteq> KN_NODE_EXTRA then
            map_option (\<lambda>(b_count, b_offset).
                p\<lparr>kp_block_size := ucc_kn_compute_step_radix p, kp_block_size_counts := b_count,
                  kp_block_offset := b_offset\<rparr>)
              (ucc_knx_block junk rank n radix cnt (int (kp_n_iters p) - 1))
          else Some p)"

definition ucc_kn_agv_pattern_init ::
    "nat \<Rightarrow> ucc_rank \<Rightarrow> nat \<Rightarrow> nat list \<Rightarrow> bool \<Rightarrow> ucc_knomial_pattern \<Rightarrow> ucc_knomial_pattern option" where
  "ucc_kn_agv_pattern_init n rank radix counts is64 p0 =
     Option.bind (ucc_knomial_pattern_init n rank radix p0) (\<lambda>p.
       let bs = u32 (kp_radix_pow p * radix)
       in Some (p\<lparr>kp_type := KN_PATTERN_ALLGATHERV, kp_counts := counts, kp_is64 := is64, kp_block_size := bs,
                  kp_block_offset := int (u32 (ucc_knomial_pattern_loop_rank p rank div bs * bs))\<rparr>))"

definition ucc_kn_ag_pattern_peer_seg :: "ucc_rank \<Rightarrow> ucc_knomial_pattern \<Rightarrow> (nat \<times> int) option" where
  "ucc_kn_ag_pattern_peer_seg peer p =
     (case kp_type p of
        KN_PATTERN_ALLGATHERX \<Rightarrow>
          let step_radix = ucc_kn_compute_step_radix p;
              seg_index = ucc_kn_compute_seg_index peer (kp_radix_pow p) p
          in Some (ucc_buffer_block_count (kp_block_size_counts p) step_radix seg_index,
              s64 (int (ucc_buffer_block_offset (kp_block_size_counts p) step_radix seg_index) + kp_block_offset p))
      | KN_PATTERN_ALLGATHER \<Rightarrow>
          let s = ucc_kn_seg_desc_compute p peer;
              off = s64 (int (ucc_buffer_block_offset (kp_count p) (kp_size p) (seg_start s)))
          in Some (u64_of_int (int (ucc_buffer_block_offset (kp_count p) (kp_size p) (seg_end s)) - off), off)
      | KN_PATTERN_ALLGATHERV \<Rightarrow>
          let s = ucc_kn_seg_desc_compute p peer
          in Option.bind (ucc_buffer_vector_block_offset (kp_counts p) (kp_is64 p) (seg_start s)) (\<lambda>o1.
             Option.bind (ucc_buffer_vector_block_offset (kp_counts p) (kp_is64 p) (seg_end s)) (\<lambda>o2.
               let off = s64 (int o1) in Some (u64_of_int (int o2 - off), off)))
      | _ \<Rightarrow> Some (0, 0))"

definition ucc_kn_ag_pattern_next_iter :: "ucc_knomial_pattern \<Rightarrow> ucc_knomial_pattern \<Rightarrow> ucc_knomial_pattern option" where
  "ucc_kn_ag_pattern_next_iter junk p =
     (if kp_type p = KN_PATTERN_ALLGATHERX then
        kn_backward_block junk (ucc_knomial_pattern_next_iteration_backward p)
      else
        let rank = ucc_knomial_pattern_loop_rank p (kp_rank p)
        in Some (kn_widen_block rank (ucc_knomial_pattern_next_iteration p)))"

section \<open>Reduce-scatter\<close>

definition ucc_kn_rs_pattern_init ::
    "nat \<Rightarrow> ucc_rank \<Rightarrow> nat \<Rightarrow> nat \<Rightarrow> ucc_knomial_pattern \<Rightarrow> ucc_knomial_pattern option" where
  "ucc_kn_rs_pattern_init n rank radix cnt p0 =
     map_option (\<lambda>p. p\<lparr>kp_type := KN_PATTERN_REDUCE_SCATTER, kp_count := cnt, kp_block_size_counts := cnt,
         kp_block_size := sub32 n (kp_n_extra p), kp_block_offset := 0\<rparr>)
       (ucc_knomial_pattern_init_backward n rank radix p0)"

definition ucc_kn_rsx_pattern_init ::
    "nat \<Rightarrow> ucc_rank \<Rightarrow> nat \<Rightarrow> nat \<Rightarrow> ucc_knomial_pattern \<Rightarrow> ucc_knomial_pattern option" where
  "ucc_kn_rsx_pattern_init n rank radix cnt p0 =
     map_option (\<lambda>p. p\<lparr>kp_type := KN_PATTERN_REDUCE_SCATTERX, kp_count := cnt, kp_block_size_counts := cnt,
         kp_block_size := sub32 n (kp_n_extra p)\<rparr>)
       (ucc_knomial_pattern_init n rank radix p0)"

definition ucc_kn_rs_pattern_peer_seg :: "ucc_rank \<Rightarrow> ucc_knomial_pattern \<Rightarrow> nat \<times> int" where
  "ucc_kn_rs_pattern_peer_seg peer p =
     (case kp_type p of
        KN_PATTERN_REDUCE_SCATTERX \<Rightarrow>
          let step_radix = ucc_kn_compute_step_radix p;
              seg_index = ucc_kn_compute_seg_index peer (kp_radix_pow p) p
          in (ucc_buffer_block_count (kp_block_size_counts p) step_radix seg_index,
              s64 (int (ucc_buffer_block_offset (kp_block_size_counts p) step_radix seg_index)))
      | KN_PATTERN_REDUCE_SCATTER \<Rightarrow>
          let s = ucc_kn_seg_desc_compute p peer;
              block_offset_inv = ucc_knomial_pattern_loop_rank_inv p (u32_of_int (kp_block_offset p));
              base = ucc_buffer_block_offset (kp_count p) (kp_size p) (seg_start s);
              block_offset_counts = ucc_buffer_block_offset (kp_count p) (kp_size p) block_offset_inv
          in (sub64 (ucc_buffer_block_offset (kp_count p) (kp_size p) (seg_end s)) base,
              s64 (int (sub64 base block_offset_counts)))
      | _ \<Rightarrow> (0, 0))"

definition ucc_kn_rs_pattern_next_iter :: "ucc_knomial_pattern \<Rightarrow> ucc_knomial_pattern" where
  "ucc_kn_rs_pattern_next_iter p0 =
     (let (bs, offset) = ucc_kn_rs_pattern_peer_seg (kp_rank p0) p0;
          p = p0\<lparr>kp_block_size_counts := bs\<rparr>
      in case kp_type p of
           KN_PATTERN_REDUCE_SCATTERX \<Rightarrow>
             ucc_knomial_pattern_next_iteration (p\<lparr>kp_block_offset := s64 (kp_block_offset p + offset)\<rparr>)
         | KN_PATTERN_REDUCE_SCATTER \<Rightarrow>
             let s = ucc_kn_seg_desc_compute p (kp_rank p)
             in ucc_knomial_pattern_next_iteration_backward
                  (p\<lparr>kp_block_size := seg_size s, kp_block_offset := s64 (kp_block_offset p + int (seg_offset s))\<rparr>)
         | _ \<Rightarrow> p)"

text \<open>\<open>None\<close> when the outputs are left as they were.\<close>

definition ucc_kn_rs_pattern_extra_seg :: "ucc_knomial_pattern \<Rightarrow> (nat \<times> int) option" where
  "ucc_kn_rs_pattern_extra_seg p =
     (case kp_type p of
        KN_PATTERN_REDUCE_SCATTER \<Rightarrow>
          Some (ucc_buffer_block_count (kp_count p) (kp_size p) (ucc_knomial_pattern_get_extra p (kp_rank p)),
                s64 (int (ucc_buffer_block_count (kp_count p) (kp_size p) (kp_rank p))))
      | _ \<Rightarrow> None)"

section \<open>Nested even partitions\<close>

text \<open>
  The reference: cutting a buffer of \<open>c\<close> elements along the digits of \<open>l\<close> in base \<open>R\<close>, level \<open>j\<close>
  into \<open>sr j\<close> even blocks. The result is the offset and the size of the block after \<open>i\<close> levels.
\<close>

primrec nested_block :: "nat \<Rightarrow> (nat \<Rightarrow> nat) \<Rightarrow> nat \<Rightarrow> nat \<Rightarrow> nat \<Rightarrow> nat \<times> nat" where
  "nested_block R sr c l 0 = (0, c)"
| "nested_block R sr c l (Suc i) =
     (let (off, b) = nested_block R sr c l i; d = (l div R ^ i) mod R
      in (off + ucc_buffer_block_offset b (sr i) d, ucc_buffer_block_count b (sr i) d))"

lemma nested_block_in:
  assumes "c < 2 ^ 64" "\<forall>j<i. (l div R ^ j) mod R < sr j"
  shows "fst (nested_block R sr c l i) + snd (nested_block R sr c l i) \<le> c"
  using assms(2)
proof (induction i)
  case (Suc i)
  obtain off b where ob: "nested_block R sr c l i = (off, b)" by (cases "nested_block R sr c l i")
  let ?d = "(l div R ^ i) mod R"
  have IH: "off + b \<le> c" using Suc ob by simp
  have d: "?d < sr i" using Suc.prems by simp
  have "ucc_buffer_block_offset b (sr i) ?d + ucc_buffer_block_count b (sr i) ?d \<le> b"
    using IH assms(1) d by (intro even_blocks.block_in_total) auto
  then show ?case using IH by (simp add: ob Let_def)
qed simp

lemma nested_block_low_digits:
  fixes R l l' :: nat
  assumes "2 \<le> R" "l mod R ^ i = l' mod R ^ i"
  shows "nested_block R sr c l i = nested_block R sr c l' i"
  using assms(2)
proof (induction i)
  case (Suc i)
  have m: "x mod R ^ Suc i = R ^ i * (x div R ^ i mod R) + x mod R ^ i" for x
    by (simp only: power_Suc2 mod_mult2_eq)
  have dig: "x div R ^ i mod R = x mod R ^ Suc i div R ^ i" and low: "x mod R ^ i = x mod R ^ Suc i mod R ^ i" for x
    using assms(1) unfolding m by simp_all
  have "l mod R ^ i = l' mod R ^ i" "l div R ^ i mod R = l' div R ^ i mod R"
    using Suc.prems dig low by metis+
  then show ?case using Suc.IH by (simp add: Let_def split_beta)
qed simp

text \<open>A family of blocks, one for each \<open>l < n\<close>, that holds each of the \<open>c\<close> elements exactly once.\<close>

definition tiles :: "nat \<Rightarrow> (nat \<Rightarrow> nat \<times> nat) \<Rightarrow> nat \<Rightarrow> bool" where
  "tiles n blk c \<longleftrightarrow> (\<forall>x<c. \<exists>!l. l < n \<and> fst (blk l) \<le> x \<and> x < fst (blk l) + snd (blk l))"

lemma nested_block_tiles_step:
  assumes R: "2 \<le> R" and c: "c < 2 ^ 64" and s: "0 < sr i" "sr i \<le> R" and full: "\<forall>j<i. sr j = R"
    and IH: "tiles (R ^ i) (\<lambda>l. nested_block R sr c l i) c"
  shows "tiles (R ^ i * sr i) (\<lambda>l. nested_block R sr c l (Suc i)) c"
  unfolding tiles_def
proof (intro allI impI)
  fix x assume x: "x < c"
  let ?blk = "\<lambda>l. nested_block R sr c l i"
  let ?in = "\<lambda>l. fst (?blk l) \<le> x \<and> x < fst (?blk l) + snd (?blk l)"
  obtain b where b: "b < R ^ i" "?in b" and bu: "\<And>l. l < R ^ i \<Longrightarrow> ?in l \<Longrightarrow> l = b"
    using IH x unfolding tiles_def by blast
  obtain off n where on: "?blk b = (off, n)" by (cases "?blk b")
  have le: "off + n \<le> c"
    using nested_block_in [OF c, of i b R sr] full R on by simp
  have v: "n < 2 ^ 64 \<and> 0 < sr i" using le c s by simp
  have xn: "x - off < n" "off \<le> x" using b on by auto
  obtain d where d: "d < sr i" "ucc_buffer_block_offset n (sr i) d \<le> x - off"
      "x - off < ucc_buffer_block_offset n (sr i) d + ucc_buffer_block_count n (sr i) d"
    using even_blocks.covered [OF v xn(1)] by blast
  have pos: "0 < R ^ i" using R by simp
  let ?l = "b + d * R ^ i"
  have l: "?l mod R ^ i = b" "?l div R ^ i = d" "d mod R = d" using b(1) pos d s by simp_all
  have low: "?blk ?l = (off, n)"
    using nested_block_low_digits [OF R, of ?l i b sr c] l(1) b(1) on by simp
  have lt: "?l < R ^ i * sr i"
  proof -
    have "?l < R ^ i + d * R ^ i" using b(1) by simp
    also have "\<dots> = R ^ i * (d + 1)" by (simp add: algebra_simps)
    also have "\<dots> \<le> R ^ i * sr i" using d(1) by (intro mult_le_mono2) simp
    finally show ?thesis .
  qed
  show "\<exists>!l. l < R ^ i * sr i \<and> fst (nested_block R sr c l (Suc i)) \<le> x
      \<and> x < fst (nested_block R sr c l (Suc i)) + snd (nested_block R sr c l (Suc i))"
  proof (rule ex1I [of _ ?l])
    show "?l < R ^ i * sr i \<and> fst (nested_block R sr c ?l (Suc i)) \<le> x
        \<and> x < fst (nested_block R sr c ?l (Suc i)) + snd (nested_block R sr c ?l (Suc i))"
      using lt d xn by (simp add: low l) linarith
  next
    fix k
    assume k: "k < R ^ i * sr i \<and> fst (nested_block R sr c k (Suc i)) \<le> x
        \<and> x < fst (nested_block R sr c k (Suc i)) + snd (nested_block R sr c k (Suc i))"
    let ?e = "k div R ^ i"
    have e1: "?e < sr i" using k pos by (simp add: div_less_iff_less_mult mult.commute)
    then have "?e mod R = ?e" using s(2) by simp
    note e = e1 this
    obtain off' n' where on': "?blk k = (off', n')" by (cases "?blk k")
    have le': "off' + n' \<le> c" using nested_block_in [OF c, of i k R sr] full R on' by simp
    have v': "n' < 2 ^ 64 \<and> 0 < sr i" using le' c s by simp
    have "?in k"
      using k even_blocks.block_in_total [OF v' e(1)] e(2) on' by (simp add: Let_def)
    moreover have "?blk k = ?blk (k mod R ^ i)" by (rule nested_block_low_digits [OF R]) simp
    ultimately have kb: "k mod R ^ i = b" using bu [of "k mod R ^ i"] pos by simp
    then have same: "off' = off" "n' = n"
      using nested_block_low_digits [OF R, of k i b sr c] b(1) on on' by auto
    have "?e = d"
      using even_blocks.unique_block [OF v e(1) d(1), of "x - off"] k d e(2) xn(2)
      by (simp add: on' same Let_def less_diff_conv2 le_diff_conv2 add.commute)
    then show "k = ?l" using kb div_mult_mod_eq [of k "R ^ i"] by simp
  qed
qed

lemma nested_block_tiles_full:
  assumes "2 \<le> R" "c < 2 ^ 64" "\<forall>j<i. sr j = R"
  shows "tiles (R ^ i) (\<lambda>l. nested_block R sr c l i) c"
  using assms(3)
proof (induction i)
  case (Suc i)
  then show ?case using nested_block_tiles_step [OF assms(1,2), of sr i] assms(1) by (simp add: mult.commute)
qed (simp add: tiles_def)

section \<open>The source computes the nested partition\<close>


lemma kn_at_type: "kp_type (kn_at p i) = kp_type p"
  by (induction i) (simp_all add: kn_at_def ucc_knomial_pattern_next_iteration_def)

text \<open>A pattern as the forward initialisation leaves it, for a team of at least two ranks.\<close>

definition kn_fresh :: "ucc_knomial_pattern \<Rightarrow> nat \<Rightarrow> bool" where
  "kn_fresh p e \<longleftrightarrow> kn_pattern_wf p e \<and> kp_radix_pow p = 1 \<and> kp_iteration p = 0 \<and> 2 \<le> kp_size p"

lemma kn_fresh_iteration:
  assumes "kn_fresh p e" "i \<le> kp_n_iters p"
  shows "kp_iteration (kn_at p i) = i"
proof -
  have "kp_n_iters p < 256" using assms(1) unfolding kn_fresh_def kn_pattern_wf_def Let_def by blast
  then show ?thesis using assms by (intro kn_at_iteration) (simp_all add: kn_fresh_def)
qed

text \<open>The number of segments of iteration \<open>i\<close>.\<close>

definition kn_step :: "ucc_knomial_pattern \<Rightarrow> nat \<Rightarrow> nat" where
  "kn_step p i = ucc_kn_compute_step_radix (kn_at p i)"

lemma kn_fresh_full:
  assumes "kn_fresh p e"
  shows "ucc_kn_pattern_n_full p = kp_size p div kp_radix p ^ e" "1 \<le> kp_size p div kp_radix p ^ e"
    "kp_size p div kp_radix p ^ e < kp_radix p" "kn_loop_size p = kp_radix p ^ e * (kp_size p div kp_radix p ^ e)"
    "kp_n_iters p = (if kp_size p div kp_radix p ^ e = 1 then e else e + 1)"
proof -
  let ?R = "kp_radix p" and ?n = "kp_size p"
  have wf: "kn_pattern_wf p e" and n: "2 \<le> ?n" using assms by (simp_all add: kn_fresh_def)
  have F: "kp_full_pow_size p = ?R ^ e" "?R ^ e \<le> ?n" "?n < ?R ^ (e + 1)" "kp_n_extra p = ?n mod ?R ^ e"
    "kp_n_iters p = (if ?n div ?R ^ e = 1 then e else e + 1)"
    using wf n by (simp_all add: kn_pattern_wf_def Let_def)
  have pos: "0 < ?R ^ e" using kn_wf_facts(1) [OF wf] by simp
  show "ucc_kn_pattern_n_full p = ?n div ?R ^ e" by (simp add: ucc_kn_pattern_n_full_def F(1))
  show "1 \<le> ?n div ?R ^ e" using F(2) pos by (simp add: Suc_le_eq div_greater_zero_iff)
  show "?n div ?R ^ e < ?R" using F(3) pos by (simp add: div_less_iff_less_mult)
  show "kn_loop_size p = ?R ^ e * (?n div ?R ^ e)"
    unfolding kn_loop_size_def F(4) by (simp add: minus_mod_eq_mult_div)
  show "kp_n_iters p = (if ?n div ?R ^ e = 1 then e else e + 1)" by (rule F(5))
qed

lemma kn_step_value:
  assumes fr: "kn_fresh p e" and i: "i < kp_n_iters p"
  shows "kn_step p i = (if i = e then kp_size p div kp_radix p ^ e else kp_radix p)" "i \<le> e"
proof -
  let ?R = "kp_radix p" and ?n = "kp_size p" and ?f = "kp_size p div kp_radix p ^ e"
  have wf: "kn_pattern_wf p e" and one: "kp_radix_pow p = 1" using fr by (simp_all add: kn_fresh_def)
  note ff = kn_fresh_full [OF fr]
  have R: "2 \<le> ?R" by (rule kn_wf_facts(1) [OF wf])
  show ie: "i \<le> e" using i ff(5) by (auto split: if_splits)
  have u: "u32 (kp_radix_pow (kn_at p i) * kp_radix (kn_at p i)) = ?R ^ Suc i"
    using kn_at_radix_pow [OF wf one, of i] kn_pow_le(3) [OF wf i] i
    by (simp add: kn_at_fields u32_id mult.commute)
  have nf: "ucc_kn_pattern_n_full (kn_at p i) = ?f"
    using ff(1) by (simp add: ucc_kn_pattern_n_full_def kn_at_fields)
  have eq: "kn_step p i = (if ?R ^ Suc i \<ge> ?n then if ?f > 1 then ?f else ?R else ?R)"
    unfolding kn_step_def ucc_kn_compute_step_radix_def u nf by (simp add: kn_at_fields)
  show "kn_step p i = (if i = e then ?f else ?R)"
  proof (cases "i = e")
    case True
    then have "1 < ?f" using i ff(2,5) by (auto split: if_splits)
    moreover have "?n < ?R ^ Suc e" using wf by (simp add: kn_pattern_wf_def Let_def)
    ultimately show ?thesis using True eq by simp
  next
    case False
    have "?f = 1" if "?n \<le> ?R ^ Suc i"
    proof -
      have "?R ^ Suc i \<le> ?R ^ e" using False ie R by (intro power_increasing) simp_all
      then have "?n = ?R ^ e" using that wf by (simp add: kn_pattern_wf_def Let_def)
      then show ?thesis using R by simp
    qed
    then show ?thesis using False eq by auto
  qed
qed

lemma kn_seg_index:
  assumes wf: "kn_pattern_wf p e" and i: "i < kp_n_iters p" and pr: "kp_radix q = kp_radix p" "kp_n_extra q = kp_n_extra p"
  shows "ucc_kn_compute_seg_index r (kp_radix p ^ i) q = (ucc_knomial_pattern_loop_rank p r div kp_radix p ^ i) mod kp_radix p"
proof -
  let ?R = "kp_radix p" and ?l = "ucc_knomial_pattern_loop_rank p r" and ?S = "kp_radix p ^ i * kp_radix p"
  have R: "2 \<le> ?R" by (rule kn_wf_facts(1) [OF wf])
  have lr: "ucc_knomial_pattern_loop_rank q r = ?l" by (simp add: ucc_knomial_pattern_loop_rank_def pr)
  have u: "u32 (?R ^ i * kp_radix q) = ?S" using kn_pow_le(3) [OF wf i] by (simp add: pr u32_id)
  have al: "ucc_align_down ?l ?S = ?l - ?l mod ?S" by (simp add: ucc_align_down_def)
  have pos: "0 < ?S" using R by simp
  have "(if ?l - ?l mod ?S = 0 then ?l else ?l mod (?l - ?l mod ?S)) = ?l mod ?S"
  proof (cases "?l < ?S")
    case False
    define k where "k = ?l div ?S"
    have k: "?l - ?l mod ?S = k * ?S" by (simp add: k_def minus_mod_eq_div_mult)
    have "1 \<le> k" using False pos by (simp add: k_def Suc_le_eq div_greater_zero_iff)
    then have "1 * ?S \<le> k * ?S" by (rule mult_le_mono1)
    then have lt: "?l mod ?S < k * ?S" using mod_less_divisor [OF pos, of ?l] by linarith
    have "?l = k * ?S + ?l mod ?S" unfolding k_def by (rule div_mult_mod_eq [symmetric])
    then have "?l mod (k * ?S) = ?l mod ?S" using lt by (metis mod_add_self1 mod_less)
    then show ?thesis using k lt \<open>1 \<le> k\<close> by simp
  qed simp
  then have "ucc_kn_compute_seg_index r (?R ^ i) q = ?l mod ?S div ?R ^ i"
    unfolding ucc_kn_compute_seg_index_def Let_def lr u al by simp
  also have "\<dots> = (?l div ?R ^ i) mod ?R" using R by (simp add: mod_mult2_eq)
  finally show ?thesis .
qed

abbreviation kn_nested :: "ucc_knomial_pattern \<Rightarrow> nat \<Rightarrow> ucc_rank \<Rightarrow> nat \<Rightarrow> nat \<times> nat" where
  "kn_nested p c r i \<equiv> nested_block (kp_radix p) (kn_step p) c (ucc_knomial_pattern_loop_rank p r) i"

text \<open>One iteration on a block \<open>b\<close>, whatever routine performs it.\<close>

lemma kn_digit_lt_step:
  assumes fr: "kn_fresh p e" and i: "i < kp_n_iters p" and r: "r < kp_size p"
  shows "(ucc_knomial_pattern_loop_rank p r div kp_radix p ^ i) mod kp_radix p < kn_step p i"
    "0 < kn_step p i" "kn_step p i \<le> kp_radix p" "u16 (kn_step p i) = kn_step p i"
proof -
  let ?R = "kp_radix p" and ?l = "ucc_knomial_pattern_loop_rank p r"
  have wf: "kn_pattern_wf p e" using fr by (simp add: kn_fresh_def)
  note ff = kn_fresh_full [OF fr] and st = kn_step_value [OF fr i]
  have R: "2 \<le> ?R" "?R < 2 ^ 16" by (rule kn_wf_facts [OF wf])+
  show "0 < kn_step p i" "kn_step p i \<le> ?R" using st ff(2,3) R by auto
  then show "u16 (kn_step p i) = kn_step p i" using R by (intro u16_id) linarith
  show "(?l div ?R ^ i) mod ?R < kn_step p i"
  proof (cases "i = e")
    case True
    have "?l < ?R ^ e * (kp_size p div ?R ^ e)" using all_loop_rank_lt [OF wf r] ff(4) by simp
    then have "?l div ?R ^ e < kp_size p div ?R ^ e" using R by (simp add: div_less_iff_less_mult mult.commute)
    then show ?thesis using True st(1) by (metis mod_less_eq_dividend order_le_less_trans)
  next
    case False
    then show ?thesis using st R by simp
  qed
qed

lemma kn_nested_le:
  assumes "kn_fresh p e" "i \<le> kp_n_iters p" "r < kp_size p" "c < 2 ^ 64"
  shows "fst (kn_nested p c r i) + snd (kn_nested p c r i) \<le> c"
  using assms by (intro nested_block_in) (auto intro: kn_digit_lt_step(1))

lemma kn_nested_Suc:
  assumes fr: "kn_fresh p e" and i: "i < kp_n_iters p" and nb: "kn_nested p c r i = (off, b)"
  defines "d \<equiv> ucc_kn_compute_seg_index r (kp_radix_pow (kn_at p i)) (kn_at p i)"
  shows "kn_nested p c r (Suc i) = (off + ucc_buffer_block_offset b (kn_step p i) d, ucc_buffer_block_count b (kn_step p i) d)"
    "d = (ucc_knomial_pattern_loop_rank p r div kp_radix p ^ i) mod kp_radix p"
proof -
  have wf: "kn_pattern_wf p e" and one: "kp_radix_pow p = 1" using fr by (simp_all add: kn_fresh_def)
  show d: "d = (ucc_knomial_pattern_loop_rank p r div kp_radix p ^ i) mod kp_radix p"
    unfolding d_def using kn_at_radix_pow [OF wf one, of i] i kn_seg_index [OF wf i] by (simp add: kn_at_fields)
  show "kn_nested p c r (Suc i) = (off + ucc_buffer_block_offset b (kn_step p i) d, ucc_buffer_block_count b (kn_step p i) d)"
    by (simp add: nb d Let_def)
qed

lemma sra_offset_loop_nested:
  assumes fr: "kn_fresh p e" and r: "r < kp_size p" and c: "c * dt < 2 ^ 63" "c < 2 ^ 64"
    and "i \<le> kp_n_iters p"
  shows "sra_offset_loop dt r (kn_at p i) (snd (kn_nested p c r i)) (int (fst (kn_nested p c r i) * dt))
    = Some (int (fst (kn_nested p c r (kp_n_iters p)) * dt), snd (kn_nested p c r (kp_n_iters p)))"
  using assms(5)
proof (induction "kp_n_iters p - i" arbitrary: i)
  case 0
  have "kp_iteration (kn_at p i) = i" using 0 kn_fresh_iteration [OF fr] by simp
  then show ?case using 0 by (subst sra_offset_loop.simps) (simp add: ucc_knomial_pattern_loop_done_def kn_at_fields)
next
  case (Suc k)
  have i: "i < kp_n_iters p" using Suc.hyps(2) by simp
  have it: "kp_iteration (kn_at p i) = i" using i kn_fresh_iteration [OF fr] by simp
  obtain off b where nb: "kn_nested p c r i = (off, b)" by (cases "kn_nested p c r i")
  note nx = kn_nested_Suc [OF fr i nb] and dg = kn_digit_lt_step [OF fr i r]
  let ?d = "ucc_kn_compute_seg_index r (kp_radix_pow (kn_at p i)) (kn_at p i)"
  let ?o = "ucc_buffer_block_offset b (kn_step p i) ?d"
  have le: "off + ?o \<le> c" using kn_nested_le [OF fr _ r c(2), of "Suc i"] i nx(1) by simp
  have "(off + ?o) * dt \<le> c * dt" using le by (rule mult_le_mono1)
  then have b1: "off * dt + ?o * dt < 2 ^ 63" using c(1) by (simp add: add_mult_distrib)
  then have "u64 (?o * dt) = ?o * dt" by (intro u64_id) simp
  moreover have "s64 (int (off * dt) + int (?o * dt)) = int ((off + ?o) * dt)"
    using s64_int [OF b1] by (simp add: add_mult_distrib)
  ultimately have acc: "s64 (int (off * dt) + int (u64 (?o * dt))) = int ((off + ?o) * dt)" by simp
  have "sra_offset_loop dt r (kn_at p i) b (int (off * dt)) =
      sra_offset_loop dt r (kn_at p (Suc i)) (ucc_buffer_block_count b (kn_step p i) ?d) (int ((off + ?o) * dt))"
    using i it by (subst sra_offset_loop.simps)
      (simp add: ucc_knomial_pattern_loop_done_def kn_at_fields Let_def kn_at_Suc kn_step_def [symmetric] dg(4)
        ucc_sra_kn_compute_seg_offset_def ucc_sra_kn_compute_seg_size_def acc
        del: of_nat_mult of_nat_add)
  then show ?case using Suc.hyps(1) [of "Suc i"] Suc.hyps(2) i nx(1) nb by simp
qed

lemma knx_loop_nested:
  assumes fr: "kn_fresh p e" and r: "r < kp_size p" and c: "c < 2 ^ 32"
    and "i \<le> k" "k \<le> kp_n_iters p"
  shows "knx_loop (int k) r (kn_at p i) (snd (kn_nested p c r i)) (fst (kn_nested p c r i))
    = Some (snd (kn_nested p c r k), fst (kn_nested p c r k))"
  using assms(4,5)
proof (induction "k - i" arbitrary: i)
  case 0
  then have "kp_iteration (kn_at p i) = k" using kn_fresh_iteration [OF fr, of i] by simp
  then show ?case using 0 by (subst knx_loop.simps) simp
next
  case (Suc m)
  have i: "i < kp_n_iters p" "i < k" using Suc.hyps(2) Suc.prems by simp_all
  have it: "kp_iteration (kn_at p i) = i" using i kn_fresh_iteration [OF fr] by simp
  obtain off b where nb: "kn_nested p c r i = (off, b)" by (cases "kn_nested p c r i")
  note nx = kn_nested_Suc [OF fr i(1) nb] and dg = kn_digit_lt_step [OF fr i(1) r]
  let ?d = "ucc_kn_compute_seg_index r (kp_radix_pow (kn_at p i)) (kn_at p i)"
  have c64: "c < 2 ^ 64" using c by simp
  have "off + ucc_buffer_block_offset b (kn_step p i) ?d + ucc_buffer_block_count b (kn_step p i) ?d \<le> c"
    using kn_nested_le [OF fr _ r c64, of "Suc i"] i nx(1) by simp
  then have u: "u32 (ucc_buffer_block_count b (kn_step p i) ?d) = ucc_buffer_block_count b (kn_step p i) ?d"
    "u32 (off + ucc_buffer_block_offset b (kn_step p i) ?d) = off + ucc_buffer_block_offset b (kn_step p i) ?d"
    using c by (intro u32_id, linarith)+
  have "knx_loop (int k) r (kn_at p i) b off = knx_loop (int k) r (kn_at p (Suc i))
      (ucc_buffer_block_count b (kn_step p i) ?d) (off + ucc_buffer_block_offset b (kn_step p i) ?d)"
    using i(2) it by (subst knx_loop.simps) (simp add: Let_def kn_at_Suc kn_step_def [symmetric] dg(4) u)
  then show ?case using Suc.hyps(1) [of "Suc i"] Suc.hyps(2) Suc.prems i nx(1) nb by simp
qed


text \<open>The reduce-scatter \<open>X\<close> pattern, stepped by \<open>ucc_kn_rs_pattern_next_iter\<close>.\<close>

definition rsx_at :: "ucc_knomial_pattern \<Rightarrow> nat \<Rightarrow> ucc_knomial_pattern" where
  "rsx_at p i = (ucc_kn_rs_pattern_next_iter ^^ i) p"

lemma rsx_at_nested:
  assumes fr: "kn_fresh p e" and r: "kp_rank p < kp_size p" and c: "c < 2 ^ 63"
    and t: "kp_type p = KN_PATTERN_REDUCE_SCATTERX" "kp_block_size_counts p = c" "kp_block_offset p = 0"
    and "i \<le> kp_n_iters p"
  shows "rsx_at p i = (kn_at p i)\<lparr>kp_block_size_counts := snd (kn_nested p c (kp_rank p) i),
    kp_block_offset := int (fst (kn_nested p c (kp_rank p) i))\<rparr>"
  using assms(7)
proof (induction i)
  case 0
  show ?case using t by (simp add: rsx_at_def kn_at_def)
next
  case (Suc i)
  let ?r = "kp_rank p" and ?P = "kn_at p i"
  have i: "i < kp_n_iters p" using Suc.prems by simp
  obtain off b where nb: "kn_nested p c ?r i = (off, b)" by (cases "kn_nested p c ?r i")
  note nx = kn_nested_Suc [OF fr i nb]
  let ?d = "ucc_kn_compute_seg_index ?r (kp_radix_pow ?P) ?P"
  let ?o = "ucc_buffer_block_offset b (kn_step p i) ?d"
  let ?q = "?P\<lparr>kp_block_size_counts := b, kp_block_offset := int off\<rparr>"
  have ty: "kp_type ?P = KN_PATTERN_REDUCE_SCATTERX" using t(1) by (simp add: kn_at_type)
  have same: "ucc_kn_compute_step_radix ?q = kn_step p i" "ucc_kn_compute_seg_index ?r (kp_radix_pow ?q) ?q = ?d"
    by (simp_all add: kn_step_def ucc_kn_compute_step_radix_def ucc_kn_pattern_n_full_def Let_def
        ucc_kn_compute_seg_index_def ucc_knomial_pattern_loop_rank_def)
  have c64: "c < 2 ^ 64" using c by simp
  have le: "off + ?o \<le> c" using kn_nested_le [OF fr _ r c64, of "Suc i"] i nx(1) by simp
  then have s: "s64 (int ?o) = int ?o" "s64 (int off + int ?o) = int (off + ?o)"
    using c s64_int [of ?o] s64_int [of "off + ?o"] by simp_all
  have "rsx_at p (Suc i) = ucc_kn_rs_pattern_next_iter ?q"
    using Suc.IH Suc.prems nb by (simp add: rsx_at_def)
  also have "\<dots> = ucc_knomial_pattern_next_iteration
      (?q\<lparr>kp_block_size_counts := ucc_buffer_block_count b (kn_step p i) ?d, kp_block_offset := int (off + ?o)\<rparr>)"
    unfolding ucc_kn_rs_pattern_next_iter_def ucc_kn_rs_pattern_peer_seg_def
    using ty same s by (simp add: Let_def kn_at_fields)
  also have "\<dots> = (kn_at p (Suc i))\<lparr>kp_block_size_counts := ucc_buffer_block_count b (kn_step p i) ?d,
      kp_block_offset := int (off + ?o)\<rparr>"
    by (simp add: kn_at_Suc [symmetric] ucc_knomial_pattern_next_iteration_def)
  finally show ?case using nx(1) by simp
qed

section \<open>Properties\<close>

lemma kn_init_fresh:
  assumes "kn_args_ok n R" "2 \<le> n"
  obtains p e where "ucc_knomial_pattern_init n r R p0 = Some p" "kn_fresh p e" "kp_size p = n" "kp_radix p = R"
    "kp_rank p = r"
    "kp_node_type p = (if r < 2 * kp_n_extra p then (if odd r then KN_NODE_EXTRA else KN_NODE_PROXY) else KN_NODE_BASE)"
proof -
  obtain p e where p: "ucc_knomial_pattern_init n r R p0 = Some p" "kn_pattern_wf p e" "kp_size p = n" "kp_radix p = R"
    "kp_rank p = r" "kp_iteration p = 0" "kp_radix_pow p = 1"
    "kp_node_type p = (if r < 2 * kp_n_extra p then (if odd r then KN_NODE_EXTRA else KN_NODE_PROXY) else KN_NODE_BASE)"
    using kn_init_returns [OF assms(1), of r p0 False] unfolding ucc_knomial_pattern_init_def by (metis (full_types))
  have "kn_fresh p e" using p assms(2) by (simp add: kn_fresh_def)
  then show thesis using that p by blast
qed

text \<open>Patterns of one team cut the buffer in the same way.\<close>

lemma kn_fresh_same_step:
  assumes "kn_fresh p e" "kn_fresh q f" "kp_size p = kp_size q" "kp_radix p = kp_radix q"
  shows "e = f" "kp_n_iters p = kp_n_iters q" "kp_n_extra p = kp_n_extra q"
    "i < kp_n_iters p \<Longrightarrow> kn_step p i = kn_step q i"
    "ucc_knomial_pattern_loop_rank p r = ucc_knomial_pattern_loop_rank q r" "kn_loop_size p = kn_loop_size q"
proof -
  show e: "e = f" using assms kn_wf_exp_unique [of p e q f] by (simp add: kn_fresh_def)
  show n: "kp_n_iters p = kp_n_iters q"
    using kn_fresh_full(5) [OF assms(1)] kn_fresh_full(5) [OF assms(2)] e assms(3,4) by simp
  show x: "kp_n_extra p = kp_n_extra q" using assms e by (simp add: kn_fresh_def kn_pattern_wf_def Let_def)
  show "kn_step p i = kn_step q i" if "i < kp_n_iters p"
    using kn_step_value(1) [OF assms(1) that] kn_step_value(1) [OF assms(2), of i] that n e assms(3,4) by simp
  show "ucc_knomial_pattern_loop_rank p r = ucc_knomial_pattern_loop_rank q r"
    by (simp add: ucc_knomial_pattern_loop_rank_def x)
  show "kn_loop_size p = kn_loop_size q" by (simp add: kn_loop_size_def x assms(3))
qed

lemma nested_block_cong:
  "(\<And>j. j < i \<Longrightarrow> sr j = sr' j) \<Longrightarrow> nested_block R sr c l i = nested_block R sr' c l i"
  by (induction i) (simp_all add: Let_def)

lemma kn_tiles:
  assumes fr: "kn_fresh p e" and c: "c < 2 ^ 64"
  shows "tiles (kn_loop_size p) (\<lambda>l. nested_block (kp_radix p) (kn_step p) c l (kp_n_iters p)) c"
proof -
  let ?R = "kp_radix p"
  note ff = kn_fresh_full [OF fr]
  have R: "2 \<le> ?R" using fr kn_wf_facts(1) by (auto simp: kn_fresh_def)
  have st: "i < e \<Longrightarrow> kn_step p i = ?R" for i
    using kn_step_value [OF fr, of i] ff(5) by (auto split: if_splits)
  have full: "tiles (?R ^ e) (\<lambda>l. nested_block ?R (kn_step p) c l e) c"
    using st by (intro nested_block_tiles_full [OF R c]) simp
  show ?thesis
  proof (cases "kp_size p div ?R ^ e = 1")
    case True
    then show ?thesis using full ff(4,5) by simp
  next
    case False
    then have "kn_step p e = kp_size p div ?R ^ e" using kn_step_value(1) [OF fr, of e] ff(5) by simp
    then show ?thesis
      using nested_block_tiles_step [OF R c, of "kn_step p" e] full st ff False by simp
  qed
qed

text \<open>The segment of a rank, as the source computes it.\<close>

lemma get_offset_and_seglen_nested:
  assumes ok: "kn_args_ok n R" "2 \<le> n" and r: "r < n" and c: "c * dt < 2 ^ 63" "c < 2 ^ 64"
    and p: "ucc_knomial_pattern_init n r R junk = Some p"
  shows "ucc_sra_kn_get_offset_and_seglen junk c dt r n R =
    (if kp_node_type p = KN_NODE_EXTRA then Some (0, 0)
     else Some (int (fst (kn_nested p c r (kp_n_iters p)) * dt), snd (kn_nested p c r (kp_n_iters p))))"
proof -
  obtain e where "kn_fresh p e" "kp_size p = n" using kn_init_fresh [OF ok, of r junk] p by (metis option.inject)
  then show ?thesis
    using sra_offset_loop_nested [of p e r c dt 0] r c p
    by (simp add: ucc_sra_kn_get_offset_and_seglen_def kn_at_def)
qed

text \<open>All segments of a team, in terms of one pattern of that team.\<close>

lemma seglen_by_loop_rank:
  assumes ok: "kn_args_ok n R" "2 \<le> n" and c: "c * dt < 2 ^ 63" "c < 2 ^ 64"
    and p: "kn_fresh p e" "kp_size p = n" "kp_radix p = R" and r: "r < n"
  shows "ucc_sra_kn_get_offset_and_seglen junk c dt r n R =
    (if kn_in_loop p r
     then let B = nested_block R (kn_step p) c (ucc_knomial_pattern_loop_rank p r) (kp_n_iters p)
          in Some (int (fst B * dt), snd B)
     else Some (0, 0))"
proof -
  obtain q f where q: "ucc_knomial_pattern_init n r R junk = Some q" "kn_fresh q f" "kp_size q = n" "kp_radix q = R"
    "kp_node_type q = (if r < 2 * kp_n_extra q then (if odd r then KN_NODE_EXTRA else KN_NODE_PROXY) else KN_NODE_BASE)"
    using kn_init_fresh [OF ok, of r junk] by metis
  note same = kn_fresh_same_step [OF q(2) p(1)]
  have "kn_nested q c r (kp_n_iters q)
      = nested_block R (kn_step p) c (ucc_knomial_pattern_loop_rank p r) (kp_n_iters p)"
    using same p q by (auto intro: nested_block_cong)
  moreover have "kp_node_type q = KN_NODE_EXTRA \<longleftrightarrow> \<not> kn_in_loop p r"
    using q(5) r p same(3) q(3,4) by (auto simp: kn_in_loop_def)
  ultimately show ?thesis
    using get_offset_and_seglen_nested [OF ok r c q(1)] by (simp add: Let_def)
qed

lemma knx_block_nested:
  assumes ok: "kn_args_ok n R" "2 \<le> n" and c: "c < 2 ^ 32"
    and p: "kn_fresh p e" "kp_size p = n" "kp_radix p = R" and r: "kn_in_loop p r" and i: "i \<le> kp_n_iters p"
  shows "ucc_knx_block junk r n R c (int i) = Some (snd (kn_nested p c r i), int (fst (kn_nested p c r i)))"
proof -
  obtain q f where q: "ucc_knomial_pattern_init n r R junk = Some q" "kn_fresh q f" "kp_size q = n" "kp_radix q = R"
    "kp_node_type q = (if r < 2 * kp_n_extra q then (if odd r then KN_NODE_EXTRA else KN_NODE_PROXY) else KN_NODE_BASE)"
    using kn_init_fresh [OF ok, of r junk] by metis
  note same = kn_fresh_same_step [OF q(2) p(1)]
  have rn: "r < n" using r p(2) by (simp add: kn_in_loop_def)
  have "kn_nested q c r i = kn_nested p c r i"
    using same p q i by (auto intro: nested_block_cong)
  moreover have "kp_node_type q \<noteq> KN_NODE_EXTRA"
    using q(5) r p same(3) q(3,4) by (auto simp: kn_in_loop_def)
  moreover have "knx_loop (int i) r q c 0 = Some (snd (kn_nested q c r i), fst (kn_nested q c r i))"
    using knx_loop_nested [OF q(2) _ c, of r 0 i] rn q(3,4) p i same(2) by (simp add: kn_at_def)
  ultimately show ?thesis using q(1) c by (simp add: ucc_knx_block_def u32_id)
qed

lemma rsx_init_fresh:
  assumes "kn_args_ok n R" "2 \<le> n" "ucc_kn_rsx_pattern_init n r R c p0 = Some p"
  obtains e where "kn_fresh p e" "kp_size p = n" "kp_radix p = R" "kp_rank p = r" "kp_backward p = False"
    "kp_type p = KN_PATTERN_REDUCE_SCATTERX" "kp_block_size_counts p = c" "kp_block_offset p = kp_block_offset p0"
    "r < n \<Longrightarrow> kp_node_type p \<noteq> KN_NODE_EXTRA \<longleftrightarrow> kn_in_loop p r"
proof -
  obtain q e where q: "ucc_knomial_pattern_init n r R p0 = Some q" "kn_fresh q e" "kp_size q = n" "kp_radix q = R"
    "kp_rank q = r"
    "kp_node_type q = (if r < 2 * kp_n_extra q then (if odd r then KN_NODE_EXTRA else KN_NODE_PROXY) else KN_NODE_BASE)"
    using kn_init_fresh [OF assms(1,2), of r p0] by metis
  have keep: "kp_block_offset q = kp_block_offset p0" "kp_backward q = False"
    using q(1) by (auto simp: ucc_knomial_pattern_init_def ucc_knomial_pattern_init_impl_def Let_def split: option.splits)
  let ?p = "q\<lparr>kp_type := KN_PATTERN_REDUCE_SCATTERX, kp_count := c, kp_block_size_counts := c,
      kp_block_size := sub32 n (kp_n_extra q)\<rparr>"
  have "p = ?p" using assms(3) q(1) by (simp add: ucc_kn_rsx_pattern_init_def)
  moreover have "kn_fresh ?p e \<longleftrightarrow> kn_fresh q e"
    by (simp add: kn_fresh_def kn_pattern_wf_def Let_def split del: if_split)
  ultimately show thesis using that [of e] q keep by (auto simp: kn_in_loop_def)
qed

text \<open>The allgather \<open>X\<close> pattern, stepped by \<open>ucc_kn_ag_pattern_next_iter\<close>.\<close>

primrec agx_at :: "ucc_knomial_pattern \<Rightarrow> ucc_knomial_pattern \<Rightarrow> nat \<Rightarrow> ucc_knomial_pattern option" where
  "agx_at junk q 0 = Some q"
| "agx_at junk q (Suc j) = Option.bind (agx_at junk q j) (ucc_kn_ag_pattern_next_iter junk)"

text \<open>What the backward pattern has in common with the forward one of the mirrored iteration.\<close>

definition agx_inv :: "ucc_knomial_pattern \<Rightarrow> nat \<Rightarrow> nat \<Rightarrow> ucc_knomial_pattern \<Rightarrow> bool" where
  "agx_inv p c j q \<longleftrightarrow> (let i = kp_n_iters p - 1 - j in
     kn_same_tree q (kn_at p i) \<and> kp_full_pow_size q = kp_full_pow_size p \<and> kp_n_iters q = kp_n_iters p
     \<and> kp_iteration q = j \<and> kp_type q = KN_PATTERN_ALLGATHERX \<and> kp_rank q = kp_rank p \<and> kp_count q = c
     \<and> kp_block_size_counts q = snd (kn_nested p c (kp_rank p) i)
     \<and> kp_block_offset q = int (fst (kn_nested p c (kp_rank p) i)))"

lemma agx_init_inv:
  assumes ok: "kn_args_ok n R" "2 \<le> n" and c: "c < 2 ^ 32"
    and p: "kn_fresh p e" "kp_size p = n" "kp_radix p = R" "kp_rank p = r" "kn_in_loop p r"
  shows "\<exists>q. ucc_kn_agx_pattern_init junk n r R c q0 = Some q \<and> agx_inv p c 0 q"
proof -
  obtain q f where q: "ucc_knomial_pattern_init_backward n r R q0 = Some q" "kn_pattern_wf q f" "kp_size q = n"
    "kp_radix q = R" "kp_rank q = r" "kp_iteration q = 0"
    "kp_radix_pow q = (if n div R ^ f = 1 then R ^ f div R else R ^ f)"
    "kp_node_type q = (if r < 2 * kp_n_extra q then (if odd r then KN_NODE_EXTRA else KN_NODE_PROXY) else KN_NODE_BASE)"
    using kn_init_returns [OF ok(1), of r q0 True] unfolding ucc_knomial_pattern_init_backward_def
    by (metis (full_types))
  have wf: "kn_pattern_wf p e" and one: "kp_radix_pow p = 1" using p(1) by (simp_all add: kn_fresh_def)
  have f: "f = e" using kn_wf_exp_unique [OF q(2) wf] q(3,4) p(2,3) by simp
  have x: "kp_n_extra q = kp_n_extra p" "kp_full_pow_size q = kp_full_pow_size p" "kp_n_iters q = kp_n_iters p"
    using q(2-4) wf p(2,3) f ok(2) by (simp_all add: kn_pattern_wf_def Let_def)
  note ff = kn_fresh_full [OF p(1)]
  have R: "2 \<le> R" using ok(1) by (simp add: kn_args_ok_def)
  have e0: "0 < e" if "n div R ^ e = 1" using that ok(2) by (cases e) simp_all
  have N: "kp_n_iters p - 1 < kp_n_iters p" using ff(5) e0 p(2,3) by auto
  have "kp_radix_pow q = R ^ (kp_n_iters p - 1)"
    using q(7) f ff(5) e0 R p(2,3) by (cases e) auto
  then have tree: "kn_same_tree q (kn_at p (kp_n_iters p - 1))"
    using kn_at_radix_pow [OF wf one, of "kp_n_iters p - 1"] q(3,4) p(2,3) x N
    by (simp add: kn_same_tree_def kn_at_fields)
  have node: "kp_node_type q \<noteq> KN_NODE_EXTRA" using q(8) p(5) x(1) by (auto simp: kn_in_loop_def)
  let ?i = "kp_n_iters p - 1"
  have knx: "ucc_knx_block junk r n R c (int (kp_n_iters q) - 1)
      = Some (snd (kn_nested p c r ?i), int (fst (kn_nested p c r ?i)))"
    using knx_block_nested [OF ok c p(1-3,5), of ?i junk] N x(3) by (simp add: of_nat_diff)
  define q1 where "q1 = q\<lparr>kp_type := KN_PATTERN_ALLGATHERX, kp_count := c\<rparr>"
  let ?r = "q1\<lparr>kp_block_size := ucc_kn_compute_step_radix q1, kp_block_size_counts := snd (kn_nested p c r ?i),
      kp_block_offset := int (fst (kn_nested p c r ?i))\<rparr>"
  have "ucc_kn_agx_pattern_init junk n r R c q0 = Some ?r"
    unfolding ucc_kn_agx_pattern_init_def q(1) bind.bind_lunit Let_def q1_def [symmetric]
    using node knx by (simp add: q1_def)
  moreover have "kn_same_tree ?r (kn_at p ?i)" using tree by (simp add: kn_same_tree_def q1_def)
  then have "agx_inv p c 0 ?r" using q(5,6) x p(4) by (simp add: agx_inv_def q1_def)
  ultimately show ?thesis by blast
qed

lemma agx_next_inv:
  assumes ok: "kn_args_ok n R" "2 \<le> n" and c: "c < 2 ^ 32"
    and p: "kn_fresh p e" "kp_size p = n" "kp_radix p = R" "kp_rank p = r" "kn_in_loop p r"
    and j: "Suc j < kp_n_iters p" and inv: "agx_inv p c j q"
  shows "\<exists>q'. ucc_kn_ag_pattern_next_iter junk q = Some q' \<and> agx_inv p c (Suc j) q'"
proof -
  let ?i = "kp_n_iters p - 1 - Suc j"
  have wf: "kn_pattern_wf p e" and one: "kp_radix_pow p = 1" using p(1) by (simp_all add: kn_fresh_def)
  have si: "kp_n_iters p - 1 - j = Suc ?i" using j by simp
  have R: "2 \<le> R" using ok(1) by (simp add: kn_args_ok_def)
  have lt: "kp_n_iters p < 256" using wf unfolding kn_pattern_wf_def Let_def by blast
  have q: "kp_radix q = R" "kp_size q = n" "kp_n_extra q = kp_n_extra p" "kp_radix_pow q = R ^ Suc ?i"
    "kp_iteration q = j" "kp_n_iters q = kp_n_iters p" "kp_full_pow_size q = kp_full_pow_size p"
    "kp_type q = KN_PATTERN_ALLGATHERX" "kp_rank q = r" "kp_count q = c"
    using inv p(2-4) kn_at_radix_pow [OF wf one, of "Suc ?i"] j
    unfolding agx_inv_def Let_def si kn_same_tree_def kn_at_fields by auto
  let ?q = "ucc_knomial_pattern_next_iteration_backward q"
  have u: "u8 (j + 1) = Suc j" using j lt by (simp add: u8_id)
  have it: "int (kp_n_iters ?q) - 1 - int (kp_iteration ?q) = int ?i" "kp_iteration ?q \<noteq> kp_n_iters ?q"
    using j u q(5,6) by (simp_all add: ucc_knomial_pattern_next_iteration_backward_def of_nat_diff)
  have knx: "ucc_knx_block junk r n R c (int ?i) = Some (snd (kn_nested p c r ?i), int (fst (kn_nested p c r ?i)))"
    using j by (intro knx_block_nested [OF ok c p(1-3,5)]) simp
  let ?r = "?q\<lparr>kp_block_size_counts := snd (kn_nested p c r ?i), kp_block_offset := int (fst (kn_nested p c r ?i))\<rparr>"
  have "kp_rank ?q = r" "kp_size ?q = n" "kp_radix ?q = R" "kp_count ?q = c"
    using q by (simp_all add: ucc_knomial_pattern_next_iteration_backward_def)
  then have nxt: "ucc_kn_ag_pattern_next_iter junk q = Some ?r"
    using q(8) it(2) knx
    unfolding ucc_kn_ag_pattern_next_iter_def kn_backward_block_def ucc_knomial_pattern_loop_done_def it(1)
    by simp
  have rp: "kp_radix_pow (kn_at p ?i) = R ^ ?i" using kn_at_radix_pow [OF wf one, of ?i] p(3) by simp
  have "kn_same_tree ?r (kn_at p ?i)"
    unfolding kn_same_tree_def rp using q(1-4) p(2,3) R
    by (simp add: kn_at_fields ucc_knomial_pattern_next_iteration_backward_def)
  moreover have "kp_full_pow_size ?r = kp_full_pow_size p" "kp_n_iters ?r = kp_n_iters p" "kp_iteration ?r = Suc j"
      "kp_type ?r = KN_PATTERN_ALLGATHERX" "kp_rank ?r = r" "kp_count ?r = c"
    using q u by (simp_all add: ucc_knomial_pattern_next_iteration_backward_def)
  ultimately have "agx_inv p c (Suc j) ?r" unfolding agx_inv_def Let_def p(4) by simp
  then show ?thesis using nxt by blast
qed

lemma agx_same_segment:
  assumes "kn_same_tree q p" "kp_full_pow_size q = kp_full_pow_size p"
  shows "ucc_kn_compute_step_radix q = ucc_kn_compute_step_radix p"
    "ucc_kn_compute_seg_index r (kp_radix_pow q) q = ucc_kn_compute_seg_index r (kp_radix_pow p) p"
  using assms
  by (simp_all only: kn_same_tree_def ucc_kn_compute_step_radix_def ucc_kn_pattern_n_full_def Let_def
      ucc_kn_compute_seg_index_def ucc_knomial_pattern_loop_rank_def)

text \<open>
  C23: the segments \<open>ucc_sra_kn_get_offset_and_seglen\<close> assigns to the ranks of a team tile the
  buffer: every element lies in the segment of exactly one rank (extras have empty segments), and the
  byte offset returned is the element offset times the size of the datatype.
\<close>

theorem sra_segments_tile:
  assumes "kn_args_ok n R" "2 \<le> n" "c * dt < 2 ^ 63" "c < 2 ^ 64" "0 < dt" "x < c"
  shows "\<exists>!r. r < n \<and> (\<exists>off len. ucc_sra_kn_get_offset_and_seglen junk c dt r n R = Some (int (off * dt), len)
      \<and> off \<le> x \<and> x < off + len)"
proof -
  obtain p e where p: "kn_fresh p e" "kp_size p = n" "kp_radix p = R"
    using kn_init_fresh [OF assms(1,2), of 0 junk] by metis
  have wf: "kn_pattern_wf p e" using p by (simp add: kn_fresh_def)
  let ?B = "\<lambda>l. nested_block R (kn_step p) c l (kp_n_iters p)"
  note seg = seglen_by_loop_rank [OF assms(1-4) p]
  have iff: "(\<exists>off len. ucc_sra_kn_get_offset_and_seglen junk c dt r n R = Some (int (off * dt), len)
        \<and> off \<le> x \<and> x < off + len) \<longleftrightarrow>
      kn_in_loop p r \<and> fst (?B (ucc_knomial_pattern_loop_rank p r)) \<le> x
        \<and> x < fst (?B (ucc_knomial_pattern_loop_rank p r)) + snd (?B (ucc_knomial_pattern_loop_rank p r))"
    if "r < n" for r
    using seg [OF that, of junk] assms(5) by (auto simp: Let_def simp del: of_nat_mult)
  obtain l where l: "l < kn_loop_size p" "fst (?B l) \<le> x" "x < fst (?B l) + snd (?B l)"
    and lu: "\<And>k. k < kn_loop_size p \<Longrightarrow> fst (?B k) \<le> x \<Longrightarrow> x < fst (?B k) + snd (?B k) \<Longrightarrow> k = l"
    using kn_tiles [OF p(1) assms(4)] assms(6) p(3) unfolding tiles_def by metis
  let ?r = "ucc_knomial_pattern_loop_rank_inv p l"
  have r: "kn_in_loop p ?r" "?r < n" "ucc_knomial_pattern_loop_rank p ?r = l"
    using loop_rank_inv_in_loop [OF wf l(1)] loop_rank_of_inv [OF wf l(1)] p(2) by (auto simp: kn_in_loop_def)
  show ?thesis
  proof (rule ex1I [of _ ?r])
    show "?r < n \<and> (\<exists>off len. ucc_sra_kn_get_offset_and_seglen junk c dt ?r n R = Some (int (off * dt), len)
      \<and> off \<le> x \<and> x < off + len)"
      unfolding iff [OF r(2)] using r l by simp
  next
    fix q
    assume "q < n \<and> (\<exists>off len. ucc_sra_kn_get_offset_and_seglen junk c dt q n R = Some (int (off * dt), len)
      \<and> off \<le> x \<and> x < off + len)"
    then have "kn_in_loop p q" "ucc_knomial_pattern_loop_rank p q = l"
      using iff [of q] lu loop_rank_lt [OF wf, of q] by auto
    then show "q = ?r" using loop_rank_inv_of [OF wf] by metis
  qed
qed

theorem sra_segments_tile_witness:
  "\<exists>!r. r < 5 \<and> (\<exists>off len. ucc_sra_kn_get_offset_and_seglen kn_blank 10 8 r 5 2 = Some (int (off * 8), len)
      \<and> off \<le> 7 \<and> 7 < off + len)"
  by (rule sra_segments_tile) (simp_all add: kn_args_ok_def)



text \<open>
  the \<open>X\<close> allgather retraces the \<open>X\<close> reduce-scatter: in its iteration \<open>j\<close> the segment it assigns to
  any peer is the segment the reduce-scatter assigned to that peer in the mirrored iteration, as an
  offset from the start of the buffer.
\<close>

theorem agx_retraces_rsx:
  assumes "kn_args_ok n R" "2 \<le> n" "c < 2 ^ 32" "r < n" "kp_block_offset p0 = 0"
    and "ucc_kn_rsx_pattern_init n r R c p0 = Some p" "kp_node_type p \<noteq> KN_NODE_EXTRA" "j < kp_n_iters p" "peer < n"
  shows "\<exists>q0 q. ucc_kn_agx_pattern_init junk n r R c p1 = Some q0 \<and> agx_at junk q0 j = Some q
    \<and> (let rs = rsx_at p (kp_n_iters p - 1 - j); (cnt, off) = ucc_kn_rs_pattern_peer_seg peer rs
       in ucc_kn_ag_pattern_peer_seg peer q = Some (cnt, kp_block_offset rs + off))"
proof -
  obtain e where p: "kn_fresh p e" "kp_size p = n" "kp_radix p = R" "kp_rank p = r"
    "kp_type p = KN_PATTERN_REDUCE_SCATTERX" "kp_block_size_counts p = c" "kp_block_offset p = 0" "kn_in_loop p r"
    using rsx_init_fresh [OF assms(1,2,6)] assms(4,5,7) by metis
  obtain q0 where q0: "ucc_kn_agx_pattern_init junk n r R c p1 = Some q0" "agx_inv p c 0 q0"
    using agx_init_inv [OF assms(1-3) p(1-4,8)] by blast
  have "\<exists>q. agx_at junk q0 j = Some q \<and> agx_inv p c j q" using assms(8)
  proof (induction j)
    case (Suc j)
    then show ?case using agx_next_inv [OF assms(1-3) p(1-4,8), of j] by fastforce
  qed (simp add: q0)
  then obtain q where q: "agx_at junk q0 j = Some q" "agx_inv p c j q" by blast
  let ?i = "kp_n_iters p - 1 - j"
  have i: "?i < kp_n_iters p" using assms(8) by simp
  have rn: "kp_rank p < kp_size p" using p assms(4) by simp
  have c: "c < 2 ^ 63" "c < 2 ^ 64" using assms(3) by simp_all
  note rsx = rsx_at_nested [OF p(1) rn c(1) p(5-7), of ?i]
  obtain off b where nb: "kn_nested p c r ?i = (off, b)" by (cases "kn_nested p c r ?i")
  have "kn_same_tree q (kn_at p ?i)" "kp_full_pow_size q = kp_full_pow_size (kn_at p ?i)"
    using q(2) by (simp_all add: agx_inv_def Let_def kn_at_fields)
  note seg = agx_same_segment [OF this]
  let ?rs = "(kn_at p ?i)\<lparr>kp_block_size_counts := b, kp_block_offset := int off\<rparr>"
  have "kn_same_tree ?rs (kn_at p ?i)" "kp_full_pow_size ?rs = kp_full_pow_size (kn_at p ?i)"
    by (simp_all add: kn_same_tree_def)
  note seg' = agx_same_segment [OF this]
  let ?d = "ucc_kn_compute_seg_index peer (kp_radix_pow (kn_at p ?i)) (kn_at p ?i)"
  let ?o = "ucc_buffer_block_offset b (kn_step p ?i) ?d"
  have d: "?d < kn_step p ?i"
    using kn_nested_Suc(2) [OF p(1) i] kn_digit_lt_step(1) [OF p(1) i, of peer] assms(9) p(2) by (metis prod.exhaust)
  have le: "off + b \<le> c" using kn_nested_le [OF p(1) _ _ c(2), of ?i r] i assms(4) p(2) nb by simp
  then have b64: "b < 2 ^ 64 \<and> 0 < kn_step p ?i" using c d by linarith
  have "?o \<le> b" using even_blocks.block_in_total [OF b64 d] by simp
  then have s: "s64 (int ?o) = int ?o" "s64 (int ?o + int off) = int off + int ?o"
    using le c s64_int [of ?o] s64_int [of "?o + off"] by simp_all
  have ty: "kp_type (kn_at p ?i) = KN_PATTERN_REDUCE_SCATTERX" using kn_at_type p(5) by simp
  have "ucc_kn_rs_pattern_peer_seg peer ?rs = (ucc_buffer_block_count b (kn_step p ?i) ?d, int ?o)"
    unfolding ucc_kn_rs_pattern_peer_seg_def Let_def seg' using ty s by (simp add: kn_step_def)
  moreover have "ucc_kn_ag_pattern_peer_seg peer q = Some (ucc_buffer_block_count b (kn_step p ?i) ?d, int off + int ?o)"
    unfolding ucc_kn_ag_pattern_peer_seg_def Let_def seg
    using q(2) s nb p(4) by (simp add: kn_step_def [symmetric] agx_inv_def Let_def)
  moreover have "rsx_at p ?i = ?rs" using rsx i nb p(4) by simp
  ultimately show ?thesis using q0(1) q(1) by (simp add: Let_def)
qed

theorem agx_retraces_rsx_witness:
  "\<exists>p q. ucc_kn_rsx_pattern_init 6 4 2 12 kn_blank = Some p \<and> ucc_kn_agx_pattern_init kn_blank 6 4 2 12 kn_blank = Some q
    \<and> ucc_kn_ag_pattern_peer_seg 5 q = (let (cnt, off) = ucc_kn_rs_pattern_peer_seg 5 (rsx_at p 1)
         in Some (cnt, kp_block_offset (rsx_at p 1) + off))"
proof -
  obtain p where p: "ucc_kn_rsx_pattern_init 6 4 2 12 kn_blank = Some p" "kp_node_type p = KN_NODE_BASE" "kp_n_iters p = 2"
    by (simp add: ucc_kn_rsx_pattern_init_def kn_init_6 kn_six_fields)
  have "kn_args_ok 6 2" by (simp add: kn_args_ok_def)
  then obtain q0 q where "ucc_kn_agx_pattern_init kn_blank 6 4 2 12 kn_blank = Some q0" "agx_at kn_blank q0 0 = Some q"
      "let rs = rsx_at p 1; (cnt, off) = ucc_kn_rs_pattern_peer_seg 5 rs
       in ucc_kn_ag_pattern_peer_seg 5 q = Some (cnt, kp_block_offset rs + off)"
    using agx_retraces_rsx [of 6 2 12 4 kn_blank p 0 5 kn_blank kn_blank] p by (auto simp: kn_blank_def)
  then show ?thesis using p(1) by (intro exI [of _ p] exI [of _ q]) (auto simp: Let_def split: prod.splits)
qed

end
