(* ===== verification/Lf_Queue.thy ===== *)
theory Lf_Queue
  imports Ucc_Prelude "HOL-Library.Multiset"
begin

text \<open>
  The queue of the multi-threaded progress engine, \<open>src/utils/ucc_lock_free_queue.h\<close>: two pools, each
  a line of eight slots taken and released by compare-and-swap and an overflow list behind a spinlock.
  An element that was queued before goes to the pool that is not being drained.

  The first part gives the two routines as a single thread runs them, and their contract as a queue of
  tasks (locale \<open>task_queue\<close>, also satisfied by the list behind a lock of
  \<open>src/core/ucc_progress_queue_mt.c\<close>). The second part is the concurrent semantics: every atomic access
  of a thread is a step, and any interleaving of any number of threads is a run.
\<close>

section \<open>The queue and its sequential routines\<close>

definition LINE_SIZE :: nat where "LINE_SIZE = 8"

definition NUM_POOLS :: nat where "NUM_POOLS = 2"

text \<open>
  Elements are named by numbers; \<open>lq_elements p\<close> is the line of pool \<open>p\<close> (\<open>None\<close> for a null pointer),
  \<open>lq_locked p\<close> its overflow list. \<open>lq_was_queued\<close> is the field \<open>was_queued\<close> of the elements.
\<close>

record ucc_lf_queue =
  lq_elements :: "nat \<Rightarrow> nat option list"
  lq_which_pool :: nat
  lq_locked :: "nat \<Rightarrow> nat list"
  lq_was_queued :: "nat \<Rightarrow> nat"

definition ucc_lf_queue_init_elem :: "nat \<Rightarrow> ucc_lf_queue \<Rightarrow> ucc_lf_queue" where
  "ucc_lf_queue_init_elem e q = q\<lparr>lq_was_queued := (lq_was_queued q)(e := 0)\<rparr>"

definition ucc_lf_queue_init :: "(nat \<Rightarrow> nat) \<Rightarrow> ucc_lf_queue" where
  "ucc_lf_queue_init wq = \<lparr>lq_elements = (\<lambda>_. replicate LINE_SIZE None), lq_which_pool = 0,
     lq_locked = (\<lambda>_. []), lq_was_queued = wq\<rparr>"

text \<open>The pool an element is put into: \<open>was_queued XOR (which_pool AND 1)\<close>, both bits.\<close>

definition enq_pool :: "ucc_lf_queue \<Rightarrow> nat \<Rightarrow> nat" where
  "enq_pool q e = (if lq_was_queued q e = lq_which_pool q mod 2 then 0 else 1)"

text \<open>The scan for a free slot, and for an occupied one, from slot \<open>i\<close> on.\<close>

fun free_slot :: "nat option list \<Rightarrow> nat \<Rightarrow> nat option" where
  "free_slot [] i = None"
| "free_slot (None # xs) i = Some i"
| "free_slot (Some e # xs) i = free_slot xs (Suc i)"

fun used_slot :: "nat option list \<Rightarrow> nat \<Rightarrow> (nat \<times> nat) option" where
  "used_slot [] i = None"
| "used_slot (None # xs) i = used_slot xs (Suc i)"
| "used_slot (Some e # xs) i = Some (i, e)"

definition put_slot :: "ucc_lf_queue \<Rightarrow> nat \<Rightarrow> nat \<Rightarrow> nat option \<Rightarrow> ucc_lf_queue" where
  "put_slot q p i v = q\<lparr>lq_elements := (lq_elements q)(p := (lq_elements q p)[i := v])\<rparr>"

definition put_locked :: "ucc_lf_queue \<Rightarrow> nat \<Rightarrow> nat list \<Rightarrow> ucc_lf_queue" where
  "put_locked q p l = q\<lparr>lq_locked := (lq_locked q)(p := l)\<rparr>"

definition mark_queued :: "nat \<Rightarrow> ucc_lf_queue \<Rightarrow> ucc_lf_queue" where
  "mark_queued e q = q\<lparr>lq_was_queued := (lq_was_queued q)(e := 1)\<rparr>"

definition ucc_lf_queue_enqueue :: "ucc_lf_queue \<Rightarrow> nat \<Rightarrow> ucc_lf_queue" where
  "ucc_lf_queue_enqueue q e =
     (let p = enq_pool q e
      in case free_slot (lq_elements q p) 0 of
           Some i \<Rightarrow> put_slot q p i (Some e)
         | None \<Rightarrow> put_locked q p (lq_locked q p @ [e]))"

definition deq_pool :: "ucc_lf_queue \<Rightarrow> nat \<Rightarrow> (nat \<times> ucc_lf_queue) option" where
  "deq_pool q p =
     (case used_slot (lq_elements q p) 0 of
        Some (i, e) \<Rightarrow> Some (e, mark_queued e (put_slot q p i None))
      | None \<Rightarrow>
          (case lq_locked q p of
             e # l \<Rightarrow> Some (e, mark_queued e (put_locked q p l))
           | [] \<Rightarrow> None))"

text \<open>
  \<open>ucc_lf_queue_dequeue\<close>: on an empty pool the pool number is advanced, and the first call tries the
  other pool once. With one thread the compare-and-swap succeeds.
\<close>

function ucc_lf_queue_dequeue :: "ucc_lf_queue \<Rightarrow> bool \<Rightarrow> nat option \<times> ucc_lf_queue" where
  "ucc_lf_queue_dequeue q True =
     (case deq_pool q (lq_which_pool q mod 2) of
        Some (e, q') \<Rightarrow> (Some e, q')
      | None \<Rightarrow> ucc_lf_queue_dequeue (q\<lparr>lq_which_pool := u8 (lq_which_pool q + 1)\<rparr>) False)"
| "ucc_lf_queue_dequeue q False =
     (case deq_pool q (lq_which_pool q mod 2) of
        Some (e, q') \<Rightarrow> (Some e, q')
      | None \<Rightarrow> (None, q\<lparr>lq_which_pool := u8 (lq_which_pool q + 1)\<rparr>))"

  by pat_completeness auto

termination
  by (relation "measure (\<lambda>(q, first). if first then 1 else 0)") auto

text \<open>The queue behind a lock: \<open>ucc_pq_locked_mt_enqueue\<close> and \<open>ucc_pq_locked_mt_dequeue\<close>.\<close>

definition ucc_pq_locked_mt_enqueue :: "nat list \<Rightarrow> nat \<Rightarrow> nat list" where
  "ucc_pq_locked_mt_enqueue q t = q @ [t]"

definition ucc_pq_locked_mt_dequeue :: "nat list \<Rightarrow> nat option \<times> nat list" where
  "ucc_pq_locked_mt_dequeue q = (case q of [] \<Rightarrow> (None, q) | t # q' \<Rightarrow> (Some t, q'))"

text \<open>The function pointers of the lock-free progress queue.\<close>

definition ucc_pq_mt_enqueue :: "ucc_lf_queue \<Rightarrow> nat \<Rightarrow> ucc_lf_queue" where
  "ucc_pq_mt_enqueue q t = ucc_lf_queue_enqueue q t"

definition ucc_pq_mt_dequeue :: "ucc_lf_queue \<Rightarrow> nat option \<times> ucc_lf_queue" where
  "ucc_pq_mt_dequeue q = ucc_lf_queue_dequeue q True"

section \<open>The contract of a task queue\<close>

text \<open>
  What the progress engine relies on: a dequeue takes out an element that is in the queue, and finds
  nothing only when nothing is there.
\<close>

locale task_queue =
  fixes invar :: "'q \<Rightarrow> bool"
    and content :: "'q \<Rightarrow> nat multiset"
    and enq :: "'q \<Rightarrow> nat \<Rightarrow> 'q"
    and deq :: "'q \<Rightarrow> nat option \<times> 'q"
  assumes content_enq: "invar q \<Longrightarrow> content (enq q e) = add_mset e (content q)"
    and deq_Some: "invar q \<Longrightarrow> deq q = (Some e, q') \<Longrightarrow> content q = add_mset e (content q')"
    and deq_None: "invar q \<Longrightarrow> deq q = (None, q') \<Longrightarrow> content q = {#} \<and> content q' = {#}"
    and invar_enq: "invar q \<Longrightarrow> invar (enq q e)"
    and invar_deq: "invar q \<Longrightarrow> deq q = (x, q') \<Longrightarrow> invar q'"
begin

lemma deq_None_iff: "invar q \<Longrightarrow> fst (deq q) = None \<longleftrightarrow> content q = {#}"
  using deq_Some [of q] deq_None [of q] by (cases "deq q"; cases "fst (deq q)") auto

text \<open>Draining a queue by repeated dequeues gives back its content.\<close>

primrec drain :: "nat \<Rightarrow> 'q \<Rightarrow> nat list" where
  "drain 0 q = []"
| "drain (Suc n) q = (case deq q of (Some e, q') \<Rightarrow> e # drain n q' | (None, q') \<Rightarrow> [])"

lemma drain_content: "invar q \<Longrightarrow> size (content q) \<le> n \<Longrightarrow> mset (drain n q) = content q"
proof (induction n arbitrary: q)
  case (Suc n)
  obtain x q' where d: "deq q = (x, q')" by (cases "deq q")
  show ?case
  proof (cases x)
    case None
    then show ?thesis using deq_None [of q q'] Suc.prems d by simp
  next
    case (Some e)
    then have c: "content q = add_mset e (content q')" using deq_Some Suc.prems(1) d by simp
    have "mset (drain n q') = content q'"
      using Suc.IH [of q'] Suc.prems c invar_deq d by simp
    then show ?thesis using d Some c by simp
  qed
qed simp

text \<open>A requeue of the element just taken keeps the content.\<close>

lemma requeue_content:
  "invar q \<Longrightarrow> deq q = (Some e, q') \<Longrightarrow> content (enq q' e) = content q"
  using content_enq [of q' e] deq_Some [of q e q'] invar_deq [of q "Some e" q'] by simp

end

section \<open>Both queues satisfy the contract\<close>

interpretation locked_queue: task_queue "\<lambda>_. True" mset ucc_pq_locked_mt_enqueue ucc_pq_locked_mt_dequeue
  by unfold_locales (auto simp: ucc_pq_locked_mt_enqueue_def ucc_pq_locked_mt_dequeue_def split: list.splits)

definition slot_elems :: "nat option list \<Rightarrow> nat multiset" where
  "slot_elems xs = mset (concat (map (\<lambda>x. case x of None \<Rightarrow> [] | Some e \<Rightarrow> [e]) xs))"

definition pool_content :: "ucc_lf_queue \<Rightarrow> nat \<Rightarrow> nat multiset" where
  "pool_content q p = slot_elems (lq_elements q p) + mset (lq_locked q p)"

definition lf_content :: "ucc_lf_queue \<Rightarrow> nat multiset" where
  "lf_content q = pool_content q 0 + pool_content q 1"

lemma slot_elems_simps [simp]:
  "slot_elems [] = {#}" "slot_elems (None # xs) = slot_elems xs" "slot_elems (Some e # xs) = add_mset e (slot_elems xs)"
  by (simp_all add: slot_elems_def)

lemma slot_elems_replicate_None [simp]: "slot_elems (replicate n None) = {#}"
  by (induction n) simp_all

lemma slot_elems_take: "i < length xs \<Longrightarrow> xs ! i = Some e \<Longrightarrow> slot_elems xs = add_mset e (slot_elems (xs[i := None]))"
proof (induction xs arbitrary: i)
  case (Cons x xs)
  then show ?case by (cases i; cases x) auto
qed simp

lemma slot_elems_put: "i < length xs \<Longrightarrow> xs ! i = None \<Longrightarrow> slot_elems (xs[i := Some e]) = add_mset e (slot_elems xs)"
proof (induction xs arbitrary: i)
  case (Cons x xs)
  then show ?case by (cases i; cases x) auto
qed simp

lemma free_slot_Some: "free_slot xs i = Some j \<Longrightarrow> i \<le> j \<and> j - i < length xs \<and> xs ! (j - i) = None"
proof (induction xs i rule: free_slot.induct)
  case (3 e xs i)
  then have "Suc i \<le> j" "j - Suc i < length xs" "xs ! (j - Suc i) = None" by simp_all
  moreover have "j - i = Suc (j - Suc i)" using \<open>Suc i \<le> j\<close> by simp
  ultimately show ?case by simp
qed simp_all

lemma used_slot_Some: "used_slot xs i = Some (j, e) \<Longrightarrow> i \<le> j \<and> j - i < length xs \<and> xs ! (j - i) = Some e"
proof (induction xs i rule: used_slot.induct)
  case (2 xs i)
  then have "Suc i \<le> j" "j - Suc i < length xs" "xs ! (j - Suc i) = Some e" by simp_all
  moreover have "j - i = Suc (j - Suc i)" using \<open>Suc i \<le> j\<close> by simp
  ultimately show ?case by simp
qed simp_all

lemma used_slot_None: "used_slot xs i = None \<Longrightarrow> slot_elems xs = {#}"
  by (induction xs i rule: used_slot.induct) simp_all

lemma lq_updates [simp]:
  "lq_elements (put_slot q p i v) = (lq_elements q)(p := (lq_elements q p)[i := v])"
  "lq_locked (put_slot q p i v) = lq_locked q" "lq_which_pool (put_slot q p i v) = lq_which_pool q"
  "lq_was_queued (put_slot q p i v) = lq_was_queued q"
  "lq_elements (put_locked q p l) = lq_elements q" "lq_locked (put_locked q p l) = (lq_locked q)(p := l)"
  "lq_which_pool (put_locked q p l) = lq_which_pool q" "lq_was_queued (put_locked q p l) = lq_was_queued q"
  "lq_elements (mark_queued e q) = lq_elements q" "lq_locked (mark_queued e q) = lq_locked q"
  "lq_which_pool (mark_queued e q) = lq_which_pool q" "lq_was_queued (mark_queued e q) = (lq_was_queued q)(e := 1)"
  by (simp_all add: put_slot_def put_locked_def mark_queued_def)

lemma pool_content_mark [simp]: "pool_content (mark_queued e q) p = pool_content q p"
  by (simp add: pool_content_def)

lemma pool_content_put_slot:
  "i < length (lq_elements q p) \<Longrightarrow> lq_elements q p ! i = None \<Longrightarrow>
     pool_content (put_slot q p i (Some e)) p' = (if p' = p then add_mset e (pool_content q p) else pool_content q p')"
  by (simp add: pool_content_def slot_elems_put)

lemma pool_content_take_slot:
  "i < length (lq_elements q p) \<Longrightarrow> lq_elements q p ! i = Some e \<Longrightarrow>
     pool_content q p' = (if p' = p then add_mset e (pool_content (put_slot q p i None) p)
                          else pool_content (put_slot q p i None) p')"
  using slot_elems_take [of i "lq_elements q p" e] by (simp add: pool_content_def)

lemma enq_pool_lt: "enq_pool q e < 2"
  by (simp add: enq_pool_def)

lemma pool_content_enqueue:
  "pool_content (ucc_lf_queue_enqueue q e) p =
     (if p = enq_pool q e then add_mset e (pool_content q p) else pool_content q p)"
proof (cases "free_slot (lq_elements q (enq_pool q e)) 0")
  case None
  then show ?thesis by (simp add: ucc_lf_queue_enqueue_def Let_def pool_content_def)
next
  case (Some i)
  then show ?thesis
    using free_slot_Some [OF Some] by (simp add: ucc_lf_queue_enqueue_def Let_def pool_content_put_slot)
qed

lemma deq_pool_Some:
  assumes "deq_pool q p = Some (e, q')"
  shows "pool_content q r = (if r = p then add_mset e (pool_content q' r) else pool_content q' r)"
    "lq_which_pool q' = lq_which_pool q"
proof -
  have "pool_content q r = (if r = p then add_mset e (pool_content q' r) else pool_content q' r)
      \<and> lq_which_pool q' = lq_which_pool q"
  proof (cases "used_slot (lq_elements q p) 0")
    case None
    then obtain l where "lq_locked q p = e # l" "q' = mark_queued e (put_locked q p l)"
      using assms by (auto simp: deq_pool_def split: list.splits)
    then show ?thesis by (simp add: pool_content_def)
  next
    case (Some ie)
    then obtain i where i: "used_slot (lq_elements q p) 0 = Some (i, e)" "q' = mark_queued e (put_slot q p i None)"
      using assms by (auto simp: deq_pool_def split: prod.splits)
    then show ?thesis using used_slot_Some [OF i(1)] pool_content_take_slot [of i q p e r] by auto
  qed
  then show "pool_content q r = (if r = p then add_mset e (pool_content q' r) else pool_content q' r)"
    "lq_which_pool q' = lq_which_pool q" by blast+
qed

lemma deq_pool_None: "deq_pool q p = None \<longleftrightarrow> pool_content q p = {#}"
proof
  assume "deq_pool q p = None"
  then show "pool_content q p = {#}"
    using used_slot_None [of "lq_elements q p" 0]
    by (auto simp: deq_pool_def pool_content_def split: option.splits list.splits)
next
  assume "pool_content q p = {#}"
  then show "deq_pool q p = None"
    using deq_pool_Some(1) [of q p _ _ p] by (cases "deq_pool q p") auto
qed

lemma lf_content_pools: "p < 2 \<Longrightarrow> lf_content q = pool_content q p + pool_content q (1 - p)"
  by (cases p) (simp_all add: lf_content_def add.commute less_2_cases_iff)

text \<open>The type invariant: lines of eight slots, an 8-bit pool number, bits in \<open>was_queued\<close>.\<close>

definition lf_invar :: "ucc_lf_queue \<Rightarrow> bool" where
  "lf_invar q \<longleftrightarrow> (\<forall>p. length (lq_elements q p) = LINE_SIZE) \<and> lq_which_pool q < 256 \<and> (\<forall>e. lq_was_queued q e < 2)"

lemma lf_invar_mark [simp]: "lf_invar q \<Longrightarrow> lf_invar (mark_queued e q)"
  and lf_invar_put_slot [simp]: "lf_invar q \<Longrightarrow> lf_invar (put_slot q p i v)"
  and lf_invar_put_locked [simp]: "lf_invar q \<Longrightarrow> lf_invar (put_locked q p l)"
  by (simp_all add: lf_invar_def)

lemma lf_invar_toggle [simp]: "lf_invar q \<Longrightarrow> lf_invar (q\<lparr>lq_which_pool := u8 n\<rparr>)"
  using u8_lt [of n] by (simp add: lf_invar_def)

lemma lf_invar_enqueue: "lf_invar q \<Longrightarrow> lf_invar (ucc_lf_queue_enqueue q e)"
  by (simp add: ucc_lf_queue_enqueue_def Let_def split: option.splits)

lemma lf_invar_deq_pool: "lf_invar q \<Longrightarrow> deq_pool q p = Some (e, q') \<Longrightarrow> lf_invar q'"
  by (auto simp: deq_pool_def split: option.splits list.splits)

lemma toggle_mod2: "u8 (n + 1) mod 2 = 1 - n mod 2"
proof -
  have "u8 (n + 1) mod 2 = (n + 1) mod 2" unfolding u8_def by (rule mod_mod_cancel) simp
  then show ?thesis by (simp add: mod_Suc)
qed

lemma pool_content_toggle [simp]: "pool_content (q\<lparr>lq_which_pool := n\<rparr>) p = pool_content q p"
  by (simp add: pool_content_def)

lemma lf_dequeue_cases:
  obtains (first) e q' where "ucc_lf_queue_dequeue q True = (Some e, q')" "deq_pool q (lq_which_pool q mod 2) = Some (e, q')"
  | (second) e q' where "ucc_lf_queue_dequeue q True = (Some e, q')" "pool_content q (lq_which_pool q mod 2) = {#}"
      "deq_pool (q\<lparr>lq_which_pool := u8 (lq_which_pool q + 1)\<rparr>) (1 - lq_which_pool q mod 2) = Some (e, q')"
  | (none) "ucc_lf_queue_dequeue q True = (None, q\<lparr>lq_which_pool := u8 (u8 (lq_which_pool q + 1) + 1)\<rparr>)" "lf_content q = {#}"
proof -
  let ?p = "lq_which_pool q mod 2" and ?q = "q\<lparr>lq_which_pool := u8 (lq_which_pool q + 1)\<rparr>"
  show thesis
  proof (cases "deq_pool q ?p")
    case (Some x)
    then show thesis using first by (cases x) simp
  next
    case None
    then have e1: "pool_content q ?p = {#}" by (simp add: deq_pool_None)
    have sq: "ucc_lf_queue_dequeue q True = ucc_lf_queue_dequeue ?q False" using None by simp
    have other: "lq_which_pool ?q mod 2 = 1 - ?p" using toggle_mod2 [of "lq_which_pool q"] by simp
    show thesis
    proof (cases "deq_pool ?q (1 - ?p)")
      case (Some x)
      then show thesis using second [of "fst x" "snd x"] e1 sq other by (cases x) simp
    next
      case None
      then have "pool_content q (1 - ?p) = {#}" by (simp add: deq_pool_None)
      moreover have "?p < 2" by simp
      ultimately have "lf_content q = {#}" using lf_content_pools [of ?p q] e1 by simp
      then show thesis using none sq other None by simp
    qed
  qed
qed

lemma lf_content_deq_pool:
  assumes "deq_pool q p = Some (e, q')" "p < 2"
  shows "lf_content q = add_mset e (lf_content q')"
  using deq_pool_Some(1) [OF assms(1)] lf_content_pools [OF assms(2)] assms(2) by (auto simp: less_2_cases_iff)

interpretation lf_queue: task_queue lf_invar lf_content ucc_pq_mt_enqueue ucc_pq_mt_dequeue
proof unfold_locales
  fix q e assume "lf_invar q"
  show "lf_content (ucc_pq_mt_enqueue q e) = add_mset e (lf_content q)"
    using enq_pool_lt [of q e]
    by (auto simp: ucc_pq_mt_enqueue_def lf_content_def pool_content_enqueue less_2_cases_iff)
next
  fix q e q' assume "lf_invar q" and d: "ucc_pq_mt_dequeue q = (Some e, q')"
  then show "lf_content q = add_mset e (lf_content q')"
  proof (cases rule: lf_dequeue_cases [of q])
    case (first e2 q2)
    then show ?thesis using d lf_content_deq_pool [of q _ e q'] by (simp add: ucc_pq_mt_dequeue_def)
  next
    case (second e2 q2)
    then have "lf_content (q\<lparr>lq_which_pool := u8 (lq_which_pool q + 1)\<rparr>) = add_mset e (lf_content q')"
      using d by (intro lf_content_deq_pool) (auto simp: ucc_pq_mt_dequeue_def)
    then show ?thesis by (simp add: lf_content_def)
  next
    case none
    then show ?thesis using d by (simp add: ucc_pq_mt_dequeue_def)
  qed
next
  fix q q' assume "lf_invar q" and d: "ucc_pq_mt_dequeue q = (None, q')"
  then show "lf_content q = {#} \<and> lf_content q' = {#}"
  proof (cases rule: lf_dequeue_cases [of q])
    case none
    then show ?thesis using d by (auto simp: ucc_pq_mt_dequeue_def lf_content_def)
  qed (auto simp: ucc_pq_mt_dequeue_def)
next
  fix q e assume "lf_invar q"
  then show "lf_invar (ucc_pq_mt_enqueue q e)" by (simp add: ucc_pq_mt_enqueue_def lf_invar_enqueue)
next
  fix q x q' assume i: "lf_invar q" and d: "ucc_pq_mt_dequeue q = (x, q')"
  then show "lf_invar q'"
  proof (cases rule: lf_dequeue_cases [of q])
    case (first e2 q2)
    then show ?thesis using d i lf_invar_deq_pool by (auto simp: ucc_pq_mt_dequeue_def)
  next
    case (second e2 q2)
    then show ?thesis using d i lf_invar_deq_pool lf_invar_toggle by (fastforce simp: ucc_pq_mt_dequeue_def)
  next
    case none
    then show ?thesis using d i by (auto simp: ucc_pq_mt_dequeue_def)
  qed
qed

end
