(* ===== verification/Lf_Queue_Conc.thy ===== *)
theory Lf_Queue_Conc
  imports Lf_Queue
begin

text \<open>
  The lock-free queue of \<open>src/utils/ucc_lock_free_queue.h\<close> under concurrency. A thread is at a program
  point between two accesses to shared memory; \<open>lf_thread_step\<close> performs the next access (a load, a
  compare-and-swap, taking or releasing a spinlock, or a list operation inside the critical section).
  Any thread may move next. \<open>None\<close> is a thread that cannot move: idle, or spinning on a lock that is
  held.
\<close>

section \<open>Threads and steps\<close>

text \<open>
  The program points of \<open>ucc_lf_queue_enqueue\<close> (element, pool, slot) and \<open>ucc_lf_queue_dequeue\<close> (the
  pool number loaded at entry, \<open>is_first_call\<close>, slot, element).
\<close>

datatype lf_pc =
    Idle
  | EnqStart nat
  | EnqSlot nat nat nat
  | EnqLock nat nat
  | EnqPush nat nat
  | EnqUnlock nat
  | DeqStart bool
  | DeqRead nat bool nat
  | DeqCas nat bool nat nat
  | DeqLock nat bool
  | DeqPop nat bool
  | DeqUnlock nat bool "nat option"
  | DeqToggle nat bool
  | DeqDone "nat option"

text \<open>\<open>sy_called\<close> and \<open>sy_returned\<close> record the elements handed to enqueue and returned by dequeue.\<close>

record lf_sys =
  sy_queue :: ucc_lf_queue
  sy_lock :: "nat \<Rightarrow> nat option"
  sy_pc :: "nat \<Rightarrow> lf_pc"
  sy_called :: "nat multiset"
  sy_returned :: "nat multiset"

definition goto :: "nat \<Rightarrow> lf_pc \<Rightarrow> lf_sys \<Rightarrow> lf_sys" where
  "goto t pc s = s\<lparr>sy_pc := (sy_pc s)(t := pc)\<rparr>"

definition spin_lock :: "nat \<Rightarrow> nat \<Rightarrow> lf_sys \<Rightarrow> lf_sys option" where
  "spin_lock t p s = (if sy_lock s p = None then Some (s\<lparr>sy_lock := (sy_lock s)(p := Some t)\<rparr>) else None)"

definition spin_unlock :: "nat \<Rightarrow> lf_sys \<Rightarrow> lf_sys" where
  "spin_unlock p s = s\<lparr>sy_lock := (sy_lock s)(p := None)\<rparr>"

definition set_queue :: "ucc_lf_queue \<Rightarrow> lf_sys \<Rightarrow> lf_sys" where
  "set_queue q s = s\<lparr>sy_queue := q\<rparr>"

definition lf_enqueue_step :: "nat \<Rightarrow> lf_sys \<Rightarrow> lf_sys option" where
  "lf_enqueue_step t s =
     (let q = sy_queue s in
      case sy_pc s t of
        EnqStart e \<Rightarrow> Some (goto t (EnqSlot e (enq_pool q e) 0) s)
      | EnqSlot e p i \<Rightarrow>
          (if i < LINE_SIZE then
             if lq_elements q p ! i = None then Some (goto t Idle (set_queue (put_slot q p i (Some e)) s))
             else Some (goto t (EnqSlot e p (i + 1)) s)
           else Some (goto t (EnqLock e p) s))
      | EnqLock e p \<Rightarrow> map_option (goto t (EnqPush e p)) (spin_lock t p s)
      | EnqPush e p \<Rightarrow> Some (goto t (EnqUnlock p) (set_queue (put_locked q p (lq_locked q p @ [e])) s))
      | EnqUnlock p \<Rightarrow> Some (goto t Idle (spin_unlock p s))
      | _ \<Rightarrow> None)"

definition lf_dequeue_step :: "nat \<Rightarrow> lf_sys \<Rightarrow> lf_sys option" where
  "lf_dequeue_step t s =
     (let q = sy_queue s in
      case sy_pc s t of
        DeqStart first \<Rightarrow> Some (goto t (DeqRead (lq_which_pool q) first 0) s)
      | DeqRead cur first i \<Rightarrow>
          (if i < LINE_SIZE then
             case lq_elements q (cur mod 2) ! i of
               Some e \<Rightarrow> Some (goto t (DeqCas cur first i e) s)
             | None \<Rightarrow> Some (goto t (DeqRead cur first (i + 1)) s)
           else Some (goto t (DeqLock cur first) s))
      | DeqCas cur first i e \<Rightarrow>
          (if lq_elements q (cur mod 2) ! i = Some e
           then Some (goto t (DeqDone (Some e)) (set_queue (mark_queued e (put_slot q (cur mod 2) i None)) s))
           else Some (goto t (DeqRead cur first (i + 1)) s))
      | DeqLock cur first \<Rightarrow> map_option (goto t (DeqPop cur first)) (spin_lock t (cur mod 2) s)
      | DeqPop cur first \<Rightarrow>
          (case lq_locked q (cur mod 2) of
             [] \<Rightarrow> Some (goto t (DeqUnlock cur first None) s)
           | e # l \<Rightarrow> Some (goto t (DeqUnlock cur first (Some e)) (set_queue (mark_queued e (put_locked q (cur mod 2) l)) s)))
      | DeqUnlock cur first r \<Rightarrow>
          Some (goto t (case r of Some e \<Rightarrow> DeqDone (Some e) | None \<Rightarrow> DeqToggle cur first) (spin_unlock (cur mod 2) s))
      | DeqToggle cur first \<Rightarrow>
          (if lq_which_pool q = cur
           then Some (goto t (if first then DeqStart False else DeqDone None)
                  (set_queue (q\<lparr>lq_which_pool := u8 (cur + 1)\<rparr>) s))
           else Some (goto t (DeqDone None) s))
      | _ \<Rightarrow> None)"

text \<open>A run: threads below \<open>n\<close> call the routines, perform their accesses and return.\<close>

inductive lf_step :: "nat \<Rightarrow> lf_sys \<Rightarrow> lf_sys \<Rightarrow> bool" for n where
  call_enqueue: "t < n \<Longrightarrow> sy_pc s t = Idle \<Longrightarrow>
     lf_step n s (goto t (EnqStart e) (s\<lparr>sy_called := add_mset e (sy_called s)\<rparr>))"
| call_dequeue: "t < n \<Longrightarrow> sy_pc s t = Idle \<Longrightarrow> lf_step n s (goto t (DeqStart True) s)"
| enqueue: "t < n \<Longrightarrow> lf_enqueue_step t s = Some s' \<Longrightarrow> lf_step n s s'"
| dequeue: "t < n \<Longrightarrow> lf_dequeue_step t s = Some s' \<Longrightarrow> lf_step n s s'"
| return_elem: "t < n \<Longrightarrow> sy_pc s t = DeqDone (Some e) \<Longrightarrow>
     lf_step n s (goto t Idle (s\<lparr>sy_returned := add_mset e (sy_returned s)\<rparr>))"
| return_none: "t < n \<Longrightarrow> sy_pc s t = DeqDone None \<Longrightarrow> lf_step n s (goto t Idle s)"

definition lf_start :: "(nat \<Rightarrow> nat) \<Rightarrow> lf_sys" where
  "lf_start wq = \<lparr>sy_queue = ucc_lf_queue_init wq, sy_lock = (\<lambda>_. None), sy_pc = (\<lambda>_. Idle),
     sy_called = {#}, sy_returned = {#}\<rparr>"

inductive lf_reach :: "nat \<Rightarrow> (nat \<Rightarrow> nat) \<Rightarrow> lf_sys \<Rightarrow> bool" for n wq where
  start: "lf_reach n wq (lf_start wq)"
| step: "lf_reach n wq s \<Longrightarrow> lf_step n s s' \<Longrightarrow> lf_reach n wq s'"

section \<open>The invariant\<close>

text \<open>The element a thread has in hand, and the lock it holds.\<close>

fun held :: "lf_pc \<Rightarrow> nat multiset" where
  "held (EnqStart e) = {#e#}"
| "held (EnqSlot e p i) = {#e#}"
| "held (EnqLock e p) = {#e#}"
| "held (EnqPush e p) = {#e#}"
| "held (DeqUnlock cur first (Some e)) = {#e#}"
| "held (DeqDone (Some e)) = {#e#}"
| "held _ = {#}"

fun in_critical :: "lf_pc \<Rightarrow> nat option" where
  "in_critical (EnqPush e p) = Some p"
| "in_critical (EnqUnlock p) = Some p"
| "in_critical (DeqPop cur first) = Some (cur mod 2)"
| "in_critical (DeqUnlock cur first r) = Some (cur mod 2)"
| "in_critical _ = None"

fun pc_ok :: "lf_pc \<Rightarrow> bool" where
  "pc_ok (EnqSlot e p i) \<longleftrightarrow> p < 2"
| "pc_ok (EnqLock e p) \<longleftrightarrow> p < 2"
| "pc_ok (EnqPush e p) \<longleftrightarrow> p < 2"
| "pc_ok (EnqUnlock p) \<longleftrightarrow> p < 2"
| "pc_ok (DeqCas cur first i e) \<longleftrightarrow> i < LINE_SIZE"
| "pc_ok _ \<longleftrightarrow> True"

definition conserved :: "nat \<Rightarrow> lf_sys \<Rightarrow> bool" where
  "conserved n s \<longleftrightarrow> sy_called s = sy_returned s + lf_content (sy_queue s) + (\<Sum>t<n. held (sy_pc s t))"

definition exclusive :: "lf_sys \<Rightarrow> bool" where
  "exclusive s \<longleftrightarrow> (\<forall>p t. sy_lock s p = Some t \<longleftrightarrow> in_critical (sy_pc s t) = Some p)"

definition lf_inv :: "nat \<Rightarrow> lf_sys \<Rightarrow> bool" where
  "lf_inv n s \<longleftrightarrow> conserved n s \<and> exclusive s \<and> lf_invar (sy_queue s) \<and> (\<forall>t. pc_ok (sy_pc s t))"

lemma sum_held_upd:
  "t < n \<Longrightarrow> (\<Sum>i<n. held ((f(t := pc)) i)) + held (f t) = (\<Sum>i<n. held (f i)) + held pc" for n :: nat
proof -
  assume t: "t < n"
  have "(\<Sum>i<n. held (g i)) = held (g t) + (\<Sum>i\<in>{..<n} - {t}. held (g i))" for g
    using t by (intro sum.remove) simp_all
  moreover have "(\<Sum>i\<in>{..<n} - {t}. held ((f(t := pc)) i)) = (\<Sum>i\<in>{..<n} - {t}. held (f i))"
    by (rule sum.cong) simp_all
  ultimately show ?thesis by simp
qed

lemma conserved_goto:
  assumes "t < n" "conserved n s" "sy_pc s' = sy_pc s"
    and "sy_called s' + sy_returned s + lf_content (sy_queue s) + held (sy_pc s t)
      = sy_called s + sy_returned s' + lf_content (sy_queue s') + held pc"
  shows "conserved n (goto t pc s')"
proof -
  let ?H = "\<Sum>i<n. held (sy_pc s i)" and ?H' = "\<Sum>i<n. held (((sy_pc s)(t := pc)) i)"
  have h: "?H' + held (sy_pc s t) = ?H + held pc" by (rule sum_held_upd [OF assms(1)])
  have c: "sy_called s = sy_returned s + lf_content (sy_queue s) + ?H" using assms(2) by (simp add: conserved_def)
  have "sy_called s' + (sy_returned s + lf_content (sy_queue s) + held (sy_pc s t))
      = sy_returned s' + lf_content (sy_queue s') + ?H' + (sy_returned s + lf_content (sy_queue s) + held (sy_pc s t))"
    using assms(4) unfolding c using h by (simp add: ac_simps)
  then have "sy_called s' = sy_returned s' + lf_content (sy_queue s') + ?H'" by (simp only: add_right_cancel)
  then show ?thesis using assms(3) by (simp add: conserved_def goto_def)
qed

lemma exclusive_goto:
  assumes "exclusive s" "in_critical pc = in_critical (sy_pc s t)" "sy_lock s' = sy_lock s" "sy_pc s' = sy_pc s"
  shows "exclusive (goto t pc s')"
  using assms by (auto simp: exclusive_def goto_def)

lemma exclusive_lock:
  assumes "exclusive s" "spin_lock t p s = Some s'" "in_critical (sy_pc s t) = None" "in_critical pc = Some p"
  shows "exclusive (goto t pc s')"
proof -
  have s': "sy_lock s p = None" "s' = s\<lparr>sy_lock := (sy_lock s)(p := Some t)\<rparr>"
    using assms(2) by (auto simp: spin_lock_def split: if_splits)
  have iff: "sy_lock s p' = Some u \<longleftrightarrow> in_critical (sy_pc s u) = Some p'" for p' u
    using assms(1) by (simp add: exclusive_def)
  have "in_critical (sy_pc s u) \<noteq> Some p" "sy_lock s p' \<noteq> Some t" for u p'
    using iff [of p u] iff [of p' t] s'(1) assms(3) by simp_all
  then show ?thesis using iff assms(4) by (simp add: exclusive_def goto_def s'(2))
qed

lemma exclusive_unlock:
  assumes "exclusive s" "in_critical (sy_pc s t) = Some p" "in_critical pc = None"
  shows "exclusive (goto t pc (spin_unlock p s))"
proof -
  have iff: "sy_lock s p' = Some u \<longleftrightarrow> in_critical (sy_pc s u) = Some p'" for p' u
    using assms(1) by (simp add: exclusive_def)
  have "sy_lock s p = Some t" using iff assms(2) by simp
  then have "u \<noteq> t \<Longrightarrow> in_critical (sy_pc s u) \<noteq> Some p" "p' \<noteq> p \<Longrightarrow> sy_lock s p' \<noteq> Some t" for u p'
    using iff [of p u] iff [of p' t] assms(2) by simp_all
  then show ?thesis using iff assms(3) by (simp add: exclusive_def goto_def spin_unlock_def)
qed

lemma goto_simps [simp]:
  "sy_queue (goto t pc s) = sy_queue s" "sy_pc (goto t pc s) = (sy_pc s)(t := pc)"
  "sy_pc (set_queue q s) = sy_pc s" "sy_queue (set_queue q s) = q" "sy_lock (set_queue q s) = sy_lock s"
  "sy_called (set_queue q s) = sy_called s" "sy_returned (set_queue q s) = sy_returned s"
  "sy_pc (spin_unlock p s) = sy_pc s" "sy_queue (spin_unlock p s) = sy_queue s"
  "sy_called (spin_unlock p s) = sy_called s" "sy_returned (spin_unlock p s) = sy_returned s"
  by (simp_all add: goto_def set_queue_def spin_unlock_def)

lemma spin_lock_keeps:
  "spin_lock t p s = Some s' \<Longrightarrow> sy_pc s' = sy_pc s \<and> sy_queue s' = sy_queue s \<and> sy_called s' = sy_called s
     \<and> sy_returned s' = sy_returned s"
  by (auto simp: spin_lock_def split: if_splits)

lemma lf_content_put_slot:
  assumes "p < 2" "i < length (lq_elements q p)" "lq_elements q p ! i = None"
  shows "lf_content (put_slot q p i (Some e)) = add_mset e (lf_content q)"
  using assms by (auto simp: lf_content_def pool_content_put_slot less_2_cases_iff)

lemma lf_content_take_slot:
  assumes "p < 2" "i < length (lq_elements q p)" "lq_elements q p ! i = Some e"
  shows "lf_content q = add_mset e (lf_content (mark_queued e (put_slot q p i None)))"
  using pool_content_take_slot [OF assms(2,3)] assms(1) by (auto simp: lf_content_def less_2_cases_iff)

lemma lf_content_push:
  "p < 2 \<Longrightarrow> lf_content (put_locked q p (lq_locked q p @ [e])) = add_mset e (lf_content q)"
  by (auto simp: lf_content_def pool_content_def less_2_cases_iff)

lemma lf_content_pop:
  "p < 2 \<Longrightarrow> lq_locked q p = e # l \<Longrightarrow> lf_content q = add_mset e (lf_content (mark_queued e (put_locked q p l)))"
  by (auto simp: lf_content_def pool_content_def less_2_cases_iff)

lemma lf_content_toggle: "lf_content (q\<lparr>lq_which_pool := w\<rparr>) = lf_content q"
  by (simp add: lf_content_def)

lemma lf_inv_goto:
  assumes "lf_inv n s" "t < n" "exclusive (goto t pc s')" "sy_pc s' = sy_pc s" "lf_invar (sy_queue s')" "pc_ok pc"
    and "sy_called s' + sy_returned s + lf_content (sy_queue s) + held (sy_pc s t)
      = sy_called s + sy_returned s' + lf_content (sy_queue s') + held pc"
  shows "lf_inv n (goto t pc s')"
  using assms conserved_goto [of t n s s' pc] by (auto simp: lf_inv_def)

lemma lf_enqueue_inv:
  assumes inv: "lf_inv n s" and t: "t < n" and st: "lf_enqueue_step t s = Some s'"
  shows "lf_inv n s'"
proof -
  let ?q = "sy_queue s"
  have ex: "exclusive s" and iv: "lf_invar ?q" and ok: "pc_ok (sy_pc s t)" using inv by (simp_all add: lf_inv_def)
  have len: "length (lq_elements ?q p) = LINE_SIZE" for p using iv by (simp add: lf_invar_def)
  show ?thesis
  proof (cases "sy_pc s t")
    case (EnqStart e)
    then have "s' = goto t (EnqSlot e (enq_pool ?q e) 0) s" using st by (simp add: lf_enqueue_step_def)
    then show ?thesis
      using EnqStart enq_pool_lt ex iv by (auto intro!: lf_inv_goto [OF inv t] exclusive_goto)
  next
    case (EnqSlot e p i)
    then consider "i < LINE_SIZE" "lq_elements ?q p ! i = None" "s' = goto t Idle (set_queue (put_slot ?q p i (Some e)) s)"
      | "s' = goto t (EnqSlot e p (i + 1)) s" | "s' = goto t (EnqLock e p) s"
      using st by (auto simp: lf_enqueue_step_def Let_def split: if_splits)
    then show ?thesis
      using EnqSlot ok ex iv len
      by cases (auto intro!: lf_inv_goto [OF inv t] exclusive_goto simp: lf_content_put_slot)
  next
    case (EnqLock e p)
    then obtain s1 where s1: "spin_lock t p s = Some s1" "s' = goto t (EnqPush e p) s1"
      using st by (auto simp: lf_enqueue_step_def)
    then show ?thesis
      using EnqLock ok iv exclusive_lock [OF ex s1(1)] spin_lock_keeps [OF s1(1)]
      by (auto intro!: lf_inv_goto [OF inv t])
  next
    case (EnqPush e p)
    then have "s' = goto t (EnqUnlock p) (set_queue (put_locked ?q p (lq_locked ?q p @ [e])) s)"
      using st by (simp add: lf_enqueue_step_def Let_def)
    then show ?thesis
      using EnqPush ok ex iv by (auto intro!: lf_inv_goto [OF inv t] exclusive_goto simp: lf_content_push)
  next
    case (EnqUnlock p)
    then have "s' = goto t Idle (spin_unlock p s)" using st by (simp add: lf_enqueue_step_def)
    then show ?thesis
      using EnqUnlock iv exclusive_unlock [OF ex] by (auto intro!: lf_inv_goto [OF inv t])
  qed (use st in \<open>simp_all add: lf_enqueue_step_def\<close>)
qed

lemma lf_dequeue_inv:
  assumes inv: "lf_inv n s" and t: "t < n" and st: "lf_dequeue_step t s = Some s'"
  shows "lf_inv n s'"
proof -
  let ?q = "sy_queue s"
  have ex: "exclusive s" and iv: "lf_invar ?q" and ok: "pc_ok (sy_pc s t)" using inv by (simp_all add: lf_inv_def)
  have len: "length (lq_elements ?q p) = LINE_SIZE" for p using iv by (simp add: lf_invar_def)
  note mv = lf_inv_goto [OF inv t]
  show ?thesis
  proof (cases "sy_pc s t")
    case (DeqStart first)
    then have "s' = goto t (DeqRead (lq_which_pool ?q) first 0) s" using st by (simp add: lf_dequeue_step_def)
    then show ?thesis using DeqStart ex iv by (auto intro!: mv exclusive_goto)
  next
    case (DeqRead cur first i)
    then consider e where "i < LINE_SIZE" "s' = goto t (DeqCas cur first i e) s"
      | "s' = goto t (DeqRead cur first (i + 1)) s" | "s' = goto t (DeqLock cur first) s"
      using st by (auto simp: lf_dequeue_step_def Let_def split: if_splits option.splits)
    then show ?thesis using DeqRead ex iv by cases (auto intro!: mv exclusive_goto)
  next
    case (DeqCas cur first i e)
    then consider "lq_elements ?q (cur mod 2) ! i = Some e"
        "s' = goto t (DeqDone (Some e)) (set_queue (mark_queued e (put_slot ?q (cur mod 2) i None)) s)"
      | "s' = goto t (DeqRead cur first (i + 1)) s"
      using st by (auto simp: lf_dequeue_step_def Let_def split: if_splits)
    then show ?thesis
    proof cases
      case 1
      have "lf_content ?q = add_mset e (lf_content (mark_queued e (put_slot ?q (cur mod 2) i None)))"
        using 1 DeqCas ok len by (intro lf_content_take_slot) simp_all
      then show ?thesis using 1 DeqCas ex iv by (auto intro!: mv exclusive_goto)
    qed (use DeqCas ex iv in \<open>auto intro!: mv exclusive_goto\<close>)
  next
    case (DeqLock cur first)
    then obtain s1 where s1: "spin_lock t (cur mod 2) s = Some s1" "s' = goto t (DeqPop cur first) s1"
      using st by (auto simp: lf_dequeue_step_def)
    then show ?thesis
      using DeqLock iv exclusive_lock [OF ex s1(1)] spin_lock_keeps [OF s1(1)] by (auto intro!: mv)
  next
    case (DeqPop cur first)
    show ?thesis
    proof (cases "lq_locked ?q (cur mod 2)")
      case Nil
      then have "s' = goto t (DeqUnlock cur first None) s" using st DeqPop by (simp add: lf_dequeue_step_def)
      then show ?thesis using DeqPop ex iv by (auto intro!: mv exclusive_goto)
    next
      case (Cons e l)
      then have "s' = goto t (DeqUnlock cur first (Some e)) (set_queue (mark_queued e (put_locked ?q (cur mod 2) l)) s)"
        using st DeqPop by (simp add: lf_dequeue_step_def Let_def)
      moreover have "lf_content ?q = add_mset e (lf_content (mark_queued e (put_locked ?q (cur mod 2) l)))"
        using Cons by (intro lf_content_pop) simp_all
      ultimately show ?thesis using DeqPop ex iv by (auto intro!: mv exclusive_goto)
    qed
  next
    case (DeqUnlock cur first r)
    then have "s' = goto t (case r of Some e \<Rightarrow> DeqDone (Some e) | None \<Rightarrow> DeqToggle cur first) (spin_unlock (cur mod 2) s)"
      using st by (simp add: lf_dequeue_step_def)
    then show ?thesis
      using DeqUnlock iv exclusive_unlock [OF ex, of t "cur mod 2"] by (cases r) (auto intro!: mv)
  next
    case (DeqToggle cur first)
    then consider "s' = goto t (if first then DeqStart False else DeqDone None)
          (set_queue (?q\<lparr>lq_which_pool := u8 (cur + 1)\<rparr>) s)"
      | "s' = goto t (DeqDone None) s"
      using st by (auto simp: lf_dequeue_step_def Let_def split: if_splits)
    then show ?thesis
      using DeqToggle ex iv by cases (auto intro!: mv exclusive_goto simp: lf_content_toggle)
  qed (use st in \<open>simp_all add: lf_dequeue_step_def\<close>)
qed

lemma lf_inv_start: "\<forall>e. wq e < 2 \<Longrightarrow> lf_inv n (lf_start wq)"
  by (simp add: lf_inv_def lf_start_def conserved_def exclusive_def lf_invar_def ucc_lf_queue_init_def lf_content_def
      pool_content_def)

lemma lf_step_inv:
  assumes "lf_step n s s'" "lf_inv n s"
  shows "lf_inv n s'"
  using assms
proof (induction rule: lf_step.induct)
  case (call_enqueue t s e)
  then show ?case by (intro lf_inv_goto [of n s t] exclusive_goto [of s]) (simp_all add: lf_inv_def)
next
  case (call_dequeue t s)
  then show ?case by (intro lf_inv_goto [of n s t] exclusive_goto [of s]) (simp_all add: lf_inv_def)
next
  case (return_elem t s e)
  then show ?case by (intro lf_inv_goto [of n s t] exclusive_goto [of s]) (simp_all add: lf_inv_def)
next
  case (return_none t s)
  then show ?case by (intro lf_inv_goto [of n s t] exclusive_goto [of s]) (simp_all add: lf_inv_def)
qed (auto intro: lf_enqueue_inv lf_dequeue_inv)

lemma lf_reach_inv:
  assumes "\<forall>e. wq e < 2" "lf_reach n wq s"
  shows "lf_inv n s"
  using assms(2)
proof (induction rule: lf_reach.induct)
  case start
  show ?case by (rule lf_inv_start [OF assms(1)])
next
  case (step s s')
  then show ?case by (blast intro: lf_step_inv)
qed

section \<open>Properties\<close>

text \<open>
  C25: in every interleaving of any number of threads, the elements handed to enqueue are exactly those
  returned by dequeue, those stored in the queue and those a thread has in hand, with multiplicity: no
  element is lost or handed out twice. At most one thread is in the critical section of a pool.
\<close>

theorem lf_queue_conserves:
  assumes "\<forall>e. wq e < 2" "lf_reach n wq s"
  shows "sy_called s = sy_returned s + lf_content (sy_queue s) + (\<Sum>t<n. held (sy_pc s t))
    \<and> (\<forall>p t u. in_critical (sy_pc s t) = Some p \<and> in_critical (sy_pc s u) = Some p \<longrightarrow> t = u)"
proof -
  have "conserved n s" "exclusive s" using lf_reach_inv [OF assms] by (simp_all add: lf_inv_def)
  moreover have "t = u" if "in_critical (sy_pc s t) = Some p" "in_critical (sy_pc s u) = Some p" for p t u
    using that \<open>exclusive s\<close> unfolding exclusive_def by (metis option.inject)
  ultimately show ?thesis unfolding conserved_def by blast
qed

text \<open>A run of two threads: thread 0 enqueues 7 while thread 1 has started to dequeue.\<close>

definition lf_example :: lf_sys where
  "lf_example = goto 1 (DeqRead 0 True 0) (goto 0 Idle (set_queue
     (put_slot (ucc_lf_queue_init (\<lambda>_. 0)) 0 0 (Some 7)) ((lf_start (\<lambda>_. 0))\<lparr>sy_called := {#7#}\<rparr>)))"

lemma lf_example_reach: "lf_reach 2 (\<lambda>_. 0) lf_example"
proof -
  let ?s0 = "lf_start (\<lambda>_. 0)"
  let ?s1 = "goto 0 (EnqStart 7) (?s0\<lparr>sy_called := add_mset 7 (sy_called ?s0)\<rparr>)"
  let ?s2 = "goto 1 (DeqStart True) ?s1"
  let ?s3 = "goto 0 (EnqSlot 7 (enq_pool (sy_queue ?s2) 7) 0) ?s2"
  let ?s4 = "goto 1 (DeqRead (lq_which_pool (sy_queue ?s3)) True 0) ?s3"
  note r = lf_reach.step
  have "lf_reach 2 (\<lambda>_. 0) ?s1"
    by (rule r [OF lf_reach.start], rule lf_step.call_enqueue) (simp_all add: lf_start_def)
  then have "lf_reach 2 (\<lambda>_. 0) ?s2"
    by (rule r, intro lf_step.call_dequeue) (simp_all add: lf_start_def goto_def)
  then have "lf_reach 2 (\<lambda>_. 0) ?s3"
    by (rule r, intro lf_step.enqueue [of 0]) (simp_all add: lf_start_def goto_def lf_enqueue_step_def)
  then have "lf_reach 2 (\<lambda>_. 0) ?s4"
    by (rule r, intro lf_step.dequeue [of 1]) (simp_all add: lf_start_def goto_def lf_dequeue_step_def)
  then show ?thesis
    by (rule r, intro lf_step.enqueue [of 0])
      (simp_all add: lf_example_def lf_start_def goto_def set_queue_def lf_enqueue_step_def enq_pool_def
        ucc_lf_queue_init_def LINE_SIZE_def fun_upd_twist Let_def numeral_eq_Suc)
qed

theorem lf_queue_conserves_witness:
  "sy_called lf_example = sy_returned lf_example + lf_content (sy_queue lf_example) + (\<Sum>t<2. held (sy_pc lf_example t))
    \<and> sy_called lf_example = {#7#}"
  using lf_queue_conserves [OF _ lf_example_reach] by (simp add: lf_example_def goto_def set_queue_def)



end
