(* ===== verification/Schedule.thy ===== *)
theory Schedule
  imports Coll_Types
begin

text \<open>
  Tasks, events and schedules: \<open>src/schedule/ucc_schedule.h\<close>, \<open>src/schedule/ucc_schedule.c\<close> and
  \<open>src/schedule/ucc_schedule_pipelined.c\<close>, with the enqueue routine of
  \<open>src/core/ucc_progress_queue.h\<close>.

  Tasks live in a store addressed by numbers, so that handlers that reach a task through several
  pointers act on the same object. \<open>ucc_schedule_t\<close> and \<open>ucc_schedule_pipelined_t\<close> embed the task as
  their first member; one record holds the fields of all three. Function pointers are datatypes with a
  constructor for each function the core installs; \<open>Tl_post\<close> is what every transport layer does to
  start a collective: set the status to in progress and call \<open>ucc_progress_queue_enqueue\<close>.

  Handlers call each other without a static bound (completing a task runs the handlers of its
  listeners, which post and may complete further tasks). Every routine takes the routines it calls as
  parameters, and \<open>run_handler\<close> ties the knot with fuel; \<open>None\<close> is running out of fuel. What lies
  outside the sources (executors, memory copies, user callbacks, the progress function of a transport
  layer) is a field of the environment; the calls made to it are recorded in the trace.
\<close>

section \<open>Data\<close>

datatype ucc_event =
    UCC_EVENT_COMPLETED
  | UCC_EVENT_SCHEDULE_STARTED
  | UCC_EVENT_TASK_STARTED
  | UCC_EVENT_COMPLETED_SCHEDULE
  | UCC_EVENT_ERROR
  | UCC_EVENT_LAST

datatype task_flag =
    UCC_COLL_TASK_FLAG_CB
  | UCC_COLL_TASK_FLAG_EXECUTOR
  | UCC_COLL_TASK_FLAG_TOP_LEVEL
  | UCC_COLL_TASK_FLAG_EXECUTOR_STOP
  | UCC_COLL_TASK_FLAG_EXECUTOR_DESTROY
  | UCC_COLL_TASK_FLAG_IS_SCHEDULE
  | UCC_COLL_TASK_FLAG_IS_PIPELINED_SCHEDULE

datatype event_handler =
    Dependency_handler
  | Task_start_handler
  | Schedule_completed_handler
  | Frag_start_handler
  | Pipelined_completed_handler

datatype post_fn = Dummy_post | Schedule_start | Pipelined_post | Tl_post

datatype finalize_fn = Dummy_finalize | Schedule_finalize | Pipelined_finalize | Tl_finalize

datatype ucc_pipeline_order =
    UCC_PIPELINE_PARALLEL
  | UCC_PIPELINE_ORDERED
  | UCC_PIPELINE_SEQUENTIAL
  | UCC_PIPELINE_LAST

type_synonym task_id = nat

record ucc_em_listener =
  l_task :: task_id
  l_handler :: event_handler
  l_event :: ucc_event

definition MAX_LISTENERS :: nat where "MAX_LISTENERS = 4"

definition UCC_SCHEDULE_MAX_TASKS :: nat where "UCC_SCHEDULE_MAX_TASKS = 8"

definition UCC_SCHEDULE_PIPELINED_MAX_FRAGS :: nat where "UCC_SCHEDULE_PIPELINED_MAX_FRAGS = 4"

text \<open>
  An event manager is the list of its first \<open>n_listeners\<close> listeners. \<open>t_timeout\<close> is the timeout when
  \<open>UCC_COLL_TIMEOUT_REQUIRED\<close> holds of the arguments, \<open>t_scratch\<close> that
  \<open>asymmetric_save_info.scratch\<close> is not null.
\<close>

record ucc_coll_task =
  t_super_status :: ucc_status
  t_status :: ucc_status
  t_em_list :: "ucc_em_listener list list"
  t_flags :: "task_flag set"
  t_schedule :: "task_id option"
  t_post :: post_fn
  t_finalize :: "finalize_fn option"
  t_cb :: nat
  t_executor :: "nat option"
  t_scratch :: bool
  t_coll_type :: ucc_coll_type
  t_timeout :: "int option"
  t_n_deps :: nat
  t_n_deps_satisfied :: nat
  t_n_deps_base :: nat
  t_start_time :: int
  s_n_completed_tasks :: nat
  s_n_tasks :: nat
  s_tasks :: "task_id list"
  p_frags :: "task_id list"
  p_n_frags :: nat
  p_n_frags_started :: nat
  p_n_frags_in_pipeline :: nat
  p_order :: ucc_pipeline_order
  p_next_frag_to_post :: nat
  p_frag_setup :: bool

text \<open>Calls that leave the modelled code, in order.\<close>

datatype effect =
    Eff_post task_id
  | Eff_copy_out task_id
  | Eff_executor_stop nat
  | Eff_executor_finalize nat
  | Eff_callback nat ucc_status
  | Eff_frag_setup task_id task_id nat
  | Eff_finalize task_id

record 'q sched_state =
  ss_task :: "task_id \<Rightarrow> ucc_coll_task"
  ss_pq :: 'q
  ss_trace :: "effect list"

text \<open>
  The environment: the status a task's progress function leaves, the results of the executor and of the
  fragment setup, whether an allocation succeeds, and the enqueue routine of the progress queue.
\<close>

record 'q sched_env =
  env_progress :: "task_id \<Rightarrow> 'q sched_state \<Rightarrow> ucc_status"
  env_executor_stop :: "nat \<Rightarrow> ucc_status"
  env_executor_finalize :: "nat \<Rightarrow> ucc_status"
  env_frag_setup :: "task_id \<Rightarrow> task_id \<Rightarrow> nat \<Rightarrow> ucc_status"
  env_finalize :: "task_id \<Rightarrow> ucc_status"
  env_enqueue :: "'q \<Rightarrow> task_id \<Rightarrow> 'q"

definition upd :: "task_id \<Rightarrow> (ucc_coll_task \<Rightarrow> ucc_coll_task) \<Rightarrow> 'q sched_state \<Rightarrow> 'q sched_state" where
  "upd i f s = s\<lparr>ss_task := (ss_task s)(i := f (ss_task s i))\<rparr>"

definition log :: "effect \<Rightarrow> 'q sched_state \<Rightarrow> 'q sched_state" where
  "log e s = s\<lparr>ss_trace := ss_trace s @ [e]\<rparr>"

section \<open>Event managers\<close>

definition ucc_event_manager_init :: "ucc_coll_task \<Rightarrow> ucc_status \<times> ucc_coll_task" where
  "ucc_event_manager_init t = (UCC_OK, t\<lparr>t_em_list := map (\<lambda>em. []) (t_em_list t)\<rparr>)"

text \<open>The loop over the event managers: the first with room takes the listener.\<close>

fun em_add :: "ucc_em_listener list list \<Rightarrow> ucc_em_listener \<Rightarrow> ucc_em_listener list list option" where
  "em_add [] l = None"
| "em_add (em # ems) l =
     (if length em < MAX_LISTENERS then Some ((em @ [l]) # ems) else map_option ((#) em) (em_add ems l))"

definition ucc_event_manager_subscribe ::
    "bool \<Rightarrow> ucc_coll_task \<Rightarrow> ucc_event \<Rightarrow> task_id \<Rightarrow> event_handler \<Rightarrow> ucc_status \<times> ucc_coll_task" where
  "ucc_event_manager_subscribe alloc_ok parent ev task handler =
     (let l = \<lparr>l_task = task, l_handler = handler, l_event = ev\<rparr>
      in case em_add (t_em_list parent) l of
           Some ems \<Rightarrow> (UCC_OK, parent\<lparr>t_em_list := ems\<rparr>)
         | None \<Rightarrow> if alloc_ok then (UCC_OK, parent\<lparr>t_em_list := t_em_list parent @ [[l]]\<rparr>)
                   else (UCC_ERR_NO_MEMORY, parent))"

definition ucc_coll_task_construct :: "ucc_coll_task \<Rightarrow> ucc_coll_task" where
  "ucc_coll_task_construct t = t\<lparr>t_em_list := []\<rparr>"

definition ucc_coll_task_destruct :: "ucc_coll_task \<Rightarrow> ucc_coll_task" where
  "ucc_coll_task_destruct t = t\<lparr>t_em_list := []\<rparr>"

text \<open>
  The fields of the collective's arguments that \<open>memcpy\<close> brings in with \<open>bargs\<close>; without \<open>bargs\<close> the
  mask is cleared (no timeout) and the scratch pointer is null.
\<close>

record task_bargs =
  b_scratch :: bool
  b_coll_type :: ucc_coll_type
  b_timeout :: "int option"

definition ucc_coll_task_init :: "ucc_coll_task \<Rightarrow> task_bargs option \<Rightarrow> ucc_status \<times> ucc_coll_task" where
  "ucc_coll_task_init t bargs =
     (let t1 = t\<lparr>t_flags := {}, t_n_deps := 0, t_n_deps_satisfied := 0, t_timeout := None, t_schedule := None,
                 t_executor := None, t_super_status := UCC_OPERATION_INITIALIZED, t_post := Dummy_post,
                 t_finalize := Some Dummy_finalize, t_scratch := False\<rparr>;
          t2 = (case bargs of
                  None \<Rightarrow> t1
                | Some b \<Rightarrow> t1\<lparr>t_scratch := b_scratch b, t_coll_type := b_coll_type b, t_timeout := b_timeout b\<rparr>)
      in ucc_event_manager_init t2)"

definition ucc_task_subscribe_dep ::
    "bool \<Rightarrow> task_id \<Rightarrow> task_id \<Rightarrow> ucc_event \<Rightarrow> 'q sched_state \<Rightarrow> ucc_status \<times> 'q sched_state" where
  "ucc_task_subscribe_dep alloc_ok target subscriber ev s =
     (let (status, t) = ucc_event_manager_subscribe alloc_ok (ss_task s target) ev subscriber Dependency_handler;
          s1 = upd target (\<lambda>_. t) s
      in (status, upd subscriber (\<lambda>x. x\<lparr>t_n_deps := u32 (t_n_deps x + 1)\<rparr>) s1))"

text \<open>\<open>ucc_coll_task_get_executor\<close> climbs the schedules; the fuel bounds their nesting.\<close>

fun ucc_coll_task_get_executor ::
    "nat \<Rightarrow> task_id \<Rightarrow> 'q sched_state \<Rightarrow> (ucc_status \<times> nat option \<times> 'q sched_state) option" where
  "ucc_coll_task_get_executor 0 i s = None"
| "ucc_coll_task_get_executor (Suc f) i s =
     (case t_executor (ss_task s i) of
        Some e \<Rightarrow> Some (UCC_OK, Some e, s)
      | None \<Rightarrow>
          (case t_schedule (ss_task s i) of
             None \<Rightarrow> Some (UCC_ERR_INVALID_PARAM, None, s)
           | Some p \<Rightarrow> map_option (\<lambda>(st, e, s1). (st, e, upd i (\<lambda>x. x\<lparr>t_executor := e\<rparr>) s1))
                         (ucc_coll_task_get_executor f p s)))"

section \<open>Notification and completion\<close>

definition listeners :: "ucc_coll_task \<Rightarrow> ucc_em_listener list" where
  "listeners t = concat (t_em_list t)"

text \<open>
  \<open>ucc_task_error_handler\<close>: the loop runs over the listeners of the parent and passes the status on
  from the task. Its recursion is bounded by fuel.
\<close>

fun ucc_task_error_handler :: "nat \<Rightarrow> task_id \<Rightarrow> task_id \<Rightarrow> 'q sched_state \<Rightarrow> 'q sched_state option"
  and error_loop :: "nat \<Rightarrow> task_id \<Rightarrow> task_id \<Rightarrow> ucc_em_listener list \<Rightarrow> 'q sched_state \<Rightarrow> 'q sched_state option" where
  "ucc_task_error_handler 0 parent task s = None"
| "ucc_task_error_handler (Suc f) parent task s =
     error_loop f parent task (listeners (ss_task s parent))
       (upd task (\<lambda>x. x\<lparr>t_super_status := t_super_status (ss_task s parent)\<rparr>) s)"
| "error_loop f parent task [] s = Some s"
| "error_loop f parent task (l # ls) s =
     (if t_super_status (ss_task s (l_task l)) \<noteq> t_super_status (ss_task s parent) then
        (case ucc_task_error_handler f task (l_task l) s of
           None \<Rightarrow> None
         | Some s1 \<Rightarrow> error_loop f parent task ls s1)
      else error_loop f parent task ls s)"

type_synonym 'q outcome = "(ucc_status \<times> 'q sched_state) option"

type_synonym 'q handler_call = "event_handler \<Rightarrow> task_id \<Rightarrow> task_id \<Rightarrow> 'q sched_state \<Rightarrow> 'q outcome"

text \<open>
  \<open>ucc_event_manager_notify\<close> over the listeners in order. No handler changes the listeners of a task, so
  the loop runs over the list it finds.
\<close>

fun notify_loop ::
    "nat \<Rightarrow> 'q handler_call \<Rightarrow> task_id \<Rightarrow> ucc_event \<Rightarrow> ucc_em_listener list \<Rightarrow> 'q sched_state \<Rightarrow> 'q outcome" where
  "notify_loop f call parent ev [] s = Some (UCC_OK, s)"
| "notify_loop f call parent ev (l # ls) s =
     (if ev = UCC_EVENT_ERROR then
        (case ucc_task_error_handler f parent (l_task l) s of
           None \<Rightarrow> None
         | Some s1 \<Rightarrow> notify_loop f call parent ev ls s1)
      else if l_event l = ev then
        (case call (l_handler l) parent (l_task l) s of
           None \<Rightarrow> None
         | Some (status, s1) \<Rightarrow>
             if status \<noteq> UCC_OK then Some (status, s1) else notify_loop f call parent ev ls s1)
      else notify_loop f call parent ev ls s)"

definition ucc_event_manager_notify ::
    "nat \<Rightarrow> 'q handler_call \<Rightarrow> task_id \<Rightarrow> ucc_event \<Rightarrow> 'q sched_state \<Rightarrow> 'q outcome" where
  "ucc_event_manager_notify f call parent ev s = notify_loop f call parent ev (listeners (ss_task s parent)) s"

type_synonym 'q notify_call = "task_id \<Rightarrow> ucc_event \<Rightarrow> 'q sched_state \<Rightarrow> 'q outcome"

text \<open>
  \<open>ucc_task_complete\<close>, in the order of the source. The status of the copy-out is overwritten by that of
  the notification. The executor is looked up again after the notification.
\<close>

definition complete_notify :: "'q notify_call \<Rightarrow> task_id \<Rightarrow> 'q sched_state \<Rightarrow> 'q outcome" where
  "complete_notify notify i s =
     (let t = ss_task s i; status = t_status t
      in if status = UCC_OK then
           let s1 = (if t_scratch t \<and> t_coll_type t \<noteq> UCC_COLL_TYPE_SCATTERV \<and> t_coll_type t \<noteq> UCC_COLL_TYPE_SCATTER
                     then log (Eff_copy_out i) s else s)
           in notify i UCC_EVENT_COMPLETED s1
         else map_option (\<lambda>(_, s1). (status, s1)) (notify i UCC_EVENT_ERROR s))"

definition complete_executor :: "'q sched_env \<Rightarrow> task_id \<Rightarrow> ucc_status \<Rightarrow> 'q sched_state \<Rightarrow> ucc_status \<times> 'q sched_state" where
  "complete_executor env i status s =
     (case t_executor (ss_task s i) of
        None \<Rightarrow> (status, s)
      | Some e \<Rightarrow>
          let (status1, s1) = (if UCC_COLL_TASK_FLAG_EXECUTOR_STOP \<in> t_flags (ss_task s i)
                               then (env_executor_stop env e, log (Eff_executor_stop e) s) else (status, s))
          in if UCC_COLL_TASK_FLAG_EXECUTOR_DESTROY \<in> t_flags (ss_task s1 i)
             then (env_executor_finalize env e,
                   upd i (\<lambda>x. x\<lparr>t_executor := None\<rparr>) (log (Eff_executor_finalize e) s1))
             else (status1, s1))"

definition ucc_task_complete :: "'q sched_env \<Rightarrow> 'q notify_call \<Rightarrow> task_id \<Rightarrow> 'q sched_state \<Rightarrow> 'q outcome" where
  "ucc_task_complete env notify i s =
     (let t = ss_task s i;
          has_cb = UCC_COLL_TASK_FLAG_CB \<in> t_flags t;
          has_sched = t_schedule t \<noteq> None
      in case complete_notify notify i s of
           None \<Rightarrow> None
         | Some (status0, s1) \<Rightarrow>
             let (status, s2) = complete_executor env i status0 s1;
                 s3 = upd i (\<lambda>x. x\<lparr>t_super_status := status\<rparr>) s2;
                 s4 = (if has_cb then log (Eff_callback (t_cb t) status) s3 else s3)
             in if has_sched \<and> status = UCC_OK then notify i UCC_EVENT_COMPLETED_SCHEDULE s4
                else Some (status, s4))"

type_synonym 'q task_call = "task_id \<Rightarrow> 'q sched_state \<Rightarrow> 'q outcome"

definition ucc_dummy_post :: "'q task_call \<Rightarrow> task_id \<Rightarrow> 'q sched_state \<Rightarrow> 'q outcome" where
  "ucc_dummy_post complete i s = complete i (upd i (\<lambda>x. x\<lparr>t_status := UCC_OK\<rparr>) s)"

definition ucc_progress_queue_enqueue :: "'q sched_env \<Rightarrow> 'q task_call \<Rightarrow> task_id \<Rightarrow> 'q sched_state \<Rightarrow> 'q outcome" where
  "ucc_progress_queue_enqueue env complete i s =
     (let s1 = upd i (\<lambda>x. x\<lparr>t_status := env_progress env i s\<rparr>) s
      in if t_status (ss_task s1 i) \<noteq> UCC_INPROGRESS then complete i s1
         else let s2 = upd i (\<lambda>x. x\<lparr>t_super_status := UCC_INPROGRESS\<rparr>) s1
              in Some (UCC_OK, s2\<lparr>ss_pq := env_enqueue env (ss_pq s2) i\<rparr>))"

definition tl_post :: "'q sched_env \<Rightarrow> 'q task_call \<Rightarrow> task_id \<Rightarrow> 'q sched_state \<Rightarrow> 'q outcome" where
  "tl_post env complete i s =
     ucc_progress_queue_enqueue env complete i (upd i (\<lambda>x. x\<lparr>t_status := UCC_INPROGRESS\<rparr>) s)"

section \<open>Schedules\<close>

definition ucc_schedule_completed_handler :: "'q task_call \<Rightarrow> task_id \<Rightarrow> task_id \<Rightarrow> 'q sched_state \<Rightarrow> 'q outcome" where
  "ucc_schedule_completed_handler complete parent self s =
     (let n = s_n_completed_tasks (ss_task s self);
          s1 = upd self (\<lambda>x. x\<lparr>s_n_completed_tasks := u32 (n + 1)\<rparr>) s
      in if u32 (n + 1) = s_n_tasks (ss_task s1 self) then
           map_option (\<lambda>(_, s2). (UCC_OK, s2)) (complete self (upd self (\<lambda>x. x\<lparr>t_status := UCC_OK\<rparr>) s1))
         else Some (UCC_OK, s1))"

definition ucc_schedule_init :: "ucc_coll_task \<Rightarrow> task_bargs option \<Rightarrow> ucc_status \<times> ucc_coll_task" where
  "ucc_schedule_init t bargs =
     (let (status, t1) = ucc_coll_task_init t bargs
      in (status, t1\<lparr>t_flags := insert UCC_COLL_TASK_FLAG_IS_SCHEDULE (t_flags t1), s_n_tasks := 0, s_tasks := []\<rparr>))"

text \<open>\<open>None\<close> when the array of tasks of the schedule is full: the source writes past its end.\<close>

definition ucc_schedule_add_task ::
    "bool \<Rightarrow> task_id \<Rightarrow> task_id \<Rightarrow> 'q sched_state \<Rightarrow> (ucc_status \<times> 'q sched_state) option" where
  "ucc_schedule_add_task alloc_ok schedule task s =
     (let (status, t) = ucc_event_manager_subscribe alloc_ok (ss_task s task) UCC_EVENT_COMPLETED_SCHEDULE schedule
                          Schedule_completed_handler;
          s1 = upd task (\<lambda>_. t\<lparr>t_schedule := Some schedule\<rparr>) s;
          sc = ss_task s1 schedule
      in if s_n_tasks sc < UCC_SCHEDULE_MAX_TASKS then
           Some (status, upd schedule (\<lambda>x. x\<lparr>s_tasks := take (s_n_tasks sc) (s_tasks sc) @ [task],
                   s_n_tasks := u32 (s_n_tasks sc + 1),
                   t_flags := (if UCC_COLL_TASK_FLAG_EXECUTOR \<in> t_flags t
                               then insert UCC_COLL_TASK_FLAG_EXECUTOR (t_flags x) else t_flags x)\<rparr>) s1)
         else None)"

definition ucc_schedule_start :: "'q notify_call \<Rightarrow> task_id \<Rightarrow> 'q sched_state \<Rightarrow> 'q outcome" where
  "ucc_schedule_start notify i s =
     notify i UCC_EVENT_SCHEDULE_STARTED
       (upd i (\<lambda>x. x\<lparr>s_n_completed_tasks := 0, t_status := UCC_INPROGRESS, t_super_status := UCC_INPROGRESS\<rparr>) s)"

definition ucc_task_start_handler :: "'q task_call \<Rightarrow> task_id \<Rightarrow> task_id \<Rightarrow> 'q sched_state \<Rightarrow> 'q outcome" where
  "ucc_task_start_handler post parent task s =
     post task (upd task (\<lambda>x. x\<lparr>t_start_time := t_start_time (ss_task s parent)\<rparr>) s)"

definition ucc_dependency_handler ::
    "'q task_call \<Rightarrow> 'q notify_call \<Rightarrow> task_id \<Rightarrow> task_id \<Rightarrow> 'q sched_state \<Rightarrow> 'q outcome" where
  "ucc_dependency_handler post notify parent task s =
     (let n = t_n_deps_satisfied (ss_task s task);
          s1 = upd task (\<lambda>x. x\<lparr>t_n_deps_satisfied := u32 (n + 1)\<rparr>) s
      in if t_n_deps (ss_task s1 task) = u32 (n + 1) then
           (case post task (upd task (\<lambda>x. x\<lparr>t_start_time := t_start_time (ss_task s parent)\<rparr>) s1) of
              None \<Rightarrow> None
            | Some (status, s2) \<Rightarrow>
                if status_code status \<ge> 0 then
                  map_option (\<lambda>(_, s3). (status, s3)) (notify task UCC_EVENT_TASK_STARTED s2)
                else Some (status, s2))
         else Some (UCC_OK, s1))"

section \<open>Pipelined schedules\<close>

record ucc_pipeline_params =
  pp_threshold :: nat
  pp_frag_size :: nat
  pp_n_frags :: nat
  pp_pdepth :: nat
  pp_order :: ucc_pipeline_order

text \<open>
  \<open>ucc_pipeline_nfrags_pdepth\<close>: the quotient is stored in an \<open>int\<close> and compared with the
  \<open>unsigned\<close> \<open>n_frags\<close> as unsigned. \<open>None\<close> is the division by a fragment size of zero.
\<close>

definition ucc_pipeline_nfrags_pdepth :: "ucc_pipeline_params \<Rightarrow> nat \<Rightarrow> (int \<times> int) option" where
  "ucc_pipeline_nfrags_pdepth p msgsize =
     map_option (\<lambda>n_frags. (n_frags, s32 (int (min (u32_of_int n_frags) (pp_pdepth p)))))
       (if msgsize > pp_threshold p then
          if pp_frag_size p = 0 then None
          else let min_num_frags = s32 (int (sub64 (u64 (msgsize + pp_frag_size p)) 1 div pp_frag_size p))
               in Some (s32 (int (max (u32_of_int min_num_frags) (pp_n_frags p))))
        else Some 1)"

definition ucc_frag_start_handler :: "'q sched_env \<Rightarrow> 'q task_call \<Rightarrow> task_id \<Rightarrow> task_id \<Rightarrow> 'q sched_state \<Rightarrow> 'q outcome" where
  "ucc_frag_start_handler env post parent task s0 =
     (let s = upd task (\<lambda>x. x\<lparr>t_start_time := t_start_time (ss_task s0 parent)\<rparr>) s0;
          k = p_n_frags_started (ss_task s parent);
          (st, s1) = (if p_frag_setup (ss_task s parent)
                      then (env_frag_setup env parent task k, log (Eff_frag_setup parent task k) s) else (UCC_OK, s))
      in if st \<noteq> UCC_OK then Some (st, s1)
         else post task (upd parent (\<lambda>x. x\<lparr>p_next_frag_to_post := (p_next_frag_to_post x + 1) mod p_n_frags x,
                p_n_frags_started := p_n_frags_started x + 1, p_n_frags_in_pipeline := p_n_frags_in_pipeline x + 1\<rparr>) s1))"

text \<open>
  The counters of the pipeline are \<open>int\<close>; they count fragments and never go below zero, since a
  fragment that completes was started. Relaunching a fragment: its status and counter are reset and the dependencies of its tasks are
  raised by their base number.
\<close>

definition restart_frag :: "task_id \<Rightarrow> 'q sched_state \<Rightarrow> 'q sched_state" where
  "restart_frag frag s =
     (let s1 = upd frag (\<lambda>x. x\<lparr>t_status := UCC_OPERATION_INITIALIZED, s_n_completed_tasks := 0\<rparr>) s
      in fold (\<lambda>i. upd i (\<lambda>x. x\<lparr>t_n_deps := u32 (t_n_deps x + t_n_deps_base x), t_status := UCC_OPERATION_INITIALIZED\<rparr>))
           (take (s_n_tasks (ss_task s1 frag)) (s_tasks (ss_task s1 frag))) s1)"

text \<open>The loop that posts further fragments. \<open>None\<close> is running out of fuel or a bad fragment index.\<close>

fun post_frags_loop ::
    "nat \<Rightarrow> (task_id \<Rightarrow> task_id \<Rightarrow> 'q sched_state \<Rightarrow> 'q outcome) \<Rightarrow> task_id \<Rightarrow> task_id \<Rightarrow> task_id \<Rightarrow> 'q sched_state
      \<Rightarrow> 'q sched_state option" where
  "post_frags_loop 0 frag_start parent self frag s = None"
| "post_frags_loop (Suc f) frag_start parent self frag s =
     (let sp = ss_task s self
      in if s_n_completed_tasks sp + p_n_frags_in_pipeline sp < s_n_tasks sp \<and> t_status (ss_task s frag) = UCC_OK then
           if p_next_frag_to_post sp < length (p_frags sp) then
             (case (if frag = p_frags sp ! p_next_frag_to_post sp
                    then map_option snd (frag_start self frag (restart_frag frag s)) else Some s) of
                None \<Rightarrow> None
              | Some s1 \<Rightarrow>
                  let sp1 = ss_task s1 self
                  in if p_next_frag_to_post sp1 < length (p_frags sp1) then
                       let frag1 = p_frags sp1 ! p_next_frag_to_post sp1
                       in if frag1 = parent then Some s1 else post_frags_loop f frag_start parent self frag1 s1
                     else None)
           else None
         else Some s)"

definition ucc_schedule_pipelined_completed_handler ::
    "nat \<Rightarrow> 'q sched_env \<Rightarrow> 'q task_call \<Rightarrow> 'q task_call \<Rightarrow> task_id \<Rightarrow> task_id \<Rightarrow> 'q sched_state \<Rightarrow> 'q outcome" where
  "ucc_schedule_pipelined_completed_handler f env complete post parent self s =
     (let s1 = upd self (\<lambda>x. x\<lparr>s_n_completed_tasks := u32 (s_n_completed_tasks x + 1),
                            p_n_frags_in_pipeline := p_n_frags_in_pipeline x - 1\<rparr>) s;
          sp = ss_task s1 self
      in if s_n_completed_tasks sp = s_n_tasks sp then
           map_option (\<lambda>(_, s2). (UCC_OK, s2)) (complete self (upd self (\<lambda>x. x\<lparr>t_status := UCC_OK\<rparr>) s1))
         else map_option (\<lambda>s2. (UCC_OK, s2))
                (post_frags_loop f (ucc_frag_start_handler env post) parent self parent s1))"

text \<open>
  \<open>ucc_schedule_pipelined_post\<close>. The inner loop runs over the number of tasks of the first fragment for
  every fragment. \<open>None\<close> is an access past the arrays.
\<close>

definition reset_frag_task :: "bool \<Rightarrow> task_id \<Rightarrow> 'q sched_state \<Rightarrow> 'q sched_state" where
  "reset_frag_task first_ordered i =
     upd i (\<lambda>x. x\<lparr>t_n_deps := t_n_deps_base x, t_n_deps_satisfied := (if first_ordered then 1 else 0),
       t_super_status := UCC_OPERATION_INITIALIZED\<rparr>)"

definition reset_frag :: "task_id \<Rightarrow> nat \<Rightarrow> nat \<Rightarrow> 'q sched_state \<Rightarrow> 'q sched_state option" where
  "reset_frag self n_tasks k s =
     (let sp = ss_task s self
      in if k < length (p_frags sp) \<and> n_tasks \<le> length (s_tasks (ss_task s (p_frags sp ! k))) then
           let frag = p_frags sp ! k;
               s1 = upd frag (\<lambda>x. x\<lparr>s_n_completed_tasks := 0, t_super_status := UCC_OPERATION_INITIALIZED\<rparr>) s;
               ord = (k = 0 \<and> p_n_frags sp > 1 \<and> p_order sp \<noteq> UCC_PIPELINE_PARALLEL)
           in Some (fold (reset_frag_task ord) (take n_tasks (s_tasks (ss_task s1 frag))) s1)
         else None)"

definition ucc_schedule_pipelined_post :: "'q notify_call \<Rightarrow> task_id \<Rightarrow> 'q sched_state \<Rightarrow> 'q outcome" where
  "ucc_schedule_pipelined_post notify i s =
     (let s1 = upd i (\<lambda>x. x\<lparr>t_super_status := UCC_OPERATION_INITIALIZED, s_n_completed_tasks := 0,
                         p_n_frags_started := 0, p_next_frag_to_post := 0, p_n_frags_in_pipeline := 0\<rparr>) s;
          sp = ss_task s1 i;
          n_tasks = (case p_frags sp of [] \<Rightarrow> 0 | frag # _ \<Rightarrow> s_n_tasks (ss_task s1 frag))
      in Option.bind (fold (\<lambda>k r. Option.bind r (reset_frag i n_tasks k)) [0..<p_n_frags sp] (Some s1))
           (ucc_schedule_start notify i))"

section \<open>Finalisation\<close>

text \<open>
  A transport layer's finalize is a call to the environment; \<open>ucc_dummy_finalize\<close> returns the task to
  its pool. The loops keep the last error (schedule) or ignore the results (pipelined schedule).
\<close>

fun finalize_loop :: "(task_id \<Rightarrow> 'q sched_state \<Rightarrow> 'q outcome) \<Rightarrow> task_id list \<Rightarrow> ucc_status \<Rightarrow> 'q sched_state \<Rightarrow> 'q outcome" where
  "finalize_loop fin [] overall s = Some (overall, s)"
| "finalize_loop fin (i # is) overall s =
     (case t_finalize (ss_task s i) of
        None \<Rightarrow> finalize_loop fin is overall s
      | Some _ \<Rightarrow>
          (case fin i s of
             None \<Rightarrow> None
           | Some (status, s1) \<Rightarrow> finalize_loop fin is (if status \<noteq> UCC_OK then status else overall) s1))"

definition ucc_schedule_finalize :: "'q task_call \<Rightarrow> task_id \<Rightarrow> 'q sched_state \<Rightarrow> 'q outcome" where
  "ucc_schedule_finalize fin i s =
     finalize_loop fin (take (s_n_tasks (ss_task s i)) (s_tasks (ss_task s i))) UCC_OK s"

definition ucc_schedule_pipelined_finalize :: "'q task_call \<Rightarrow> task_id \<Rightarrow> 'q sched_state \<Rightarrow> 'q outcome" where
  "ucc_schedule_pipelined_finalize fin i s =
     map_option (\<lambda>s1. (UCC_OK, s1))
       (fold (\<lambda>frag r. Option.bind r (\<lambda>s1. map_option snd (fin frag s1)))
          (take (p_n_frags (ss_task s i)) (p_frags (ss_task s i))) (Some s))"

primrec finalize_task :: "nat \<Rightarrow> 'q sched_env \<Rightarrow> 'q task_call" where
  "finalize_task 0 env i s = None"
| "finalize_task (Suc f) env i s0 =
     (let s = log (Eff_finalize i) s0
      in case t_finalize (ss_task s i) of
           None \<Rightarrow> None
         | Some Dummy_finalize \<Rightarrow> Some (UCC_OK, s)
         | Some Tl_finalize \<Rightarrow> Some (env_finalize env i, s)
         | Some Schedule_finalize \<Rightarrow> ucc_schedule_finalize (finalize_task f env) i s
         | Some Pipelined_finalize \<Rightarrow> ucc_schedule_pipelined_finalize (finalize_task f env) i s)"

section \<open>Building a pipelined schedule\<close>

definition subscribe_to ::
    "(task_id \<Rightarrow> bool) \<Rightarrow> task_id \<Rightarrow> ucc_event \<Rightarrow> task_id \<Rightarrow> event_handler \<Rightarrow> 'q sched_state \<Rightarrow> ucc_status \<times> 'q sched_state" where
  "subscribe_to alloc_ok parent ev task h s =
     (let (status, t) = ucc_event_manager_subscribe (alloc_ok parent) (ss_task s parent) ev task h
      in (status, upd parent (\<lambda>_. t) s))"

text \<open>
  \<open>frag_init\<close> is the callback of the pipeline's user: it returns a status and the schedule of the
  fragment it built. An error comes with the number of the fragment at which it occurred.
\<close>

type_synonym 'q frag_init_call = "nat \<Rightarrow> 'q sched_state \<Rightarrow> ucc_status \<times> task_id \<times> 'q sched_state"

fun pinit_frags :: "'q frag_init_call \<Rightarrow> task_id \<Rightarrow> nat list \<Rightarrow> 'q sched_state \<Rightarrow> (ucc_status \<times> nat \<times> 'q sched_state) + 'q sched_state" where
  "pinit_frags frag_init self [] s = Inr s"
| "pinit_frags frag_init self (k # ks) s =
     (let (status, frag, s1) = frag_init k s
      in if status \<noteq> UCC_OK then Inl (status, k, s1)
         else
           let ex = (UCC_COLL_TASK_FLAG_EXECUTOR \<in> t_flags (ss_task s1 frag));
               s2 = upd frag (\<lambda>x. x\<lparr>t_schedule := Some self, t_status := UCC_OPERATION_INITIALIZED,
                                   t_super_status := UCC_OPERATION_INITIALIZED\<rparr>) s1;
               s3 = upd self (\<lambda>x. x\<lparr>p_frags := p_frags x @ [frag],
                        t_flags := (if ex then insert UCC_COLL_TASK_FLAG_EXECUTOR (t_flags x) else t_flags x)\<rparr>) s2
           in pinit_frags frag_init self ks s3)"

text \<open>The dependencies of task \<open>j\<close> of a fragment on task \<open>j\<close> of the fragment before it, for each \<open>j\<close>.\<close>

fun pinit_tasks ::
    "(task_id \<Rightarrow> bool) \<Rightarrow> ucc_event \<Rightarrow> (task_id \<times> task_id) list \<Rightarrow> 'q sched_state \<Rightarrow> ucc_status \<times> 'q sched_state" where
  "pinit_tasks alloc_ok dep [] s = (UCC_OK, s)"
| "pinit_tasks alloc_ok dep ((prev, cur) # ps) s =
     (let s1 = upd cur (\<lambda>x. x\<lparr>t_n_deps_base := t_n_deps x\<rparr>) s
      in if dep \<noteq> UCC_EVENT_LAST then
           let (status, s2) = subscribe_to alloc_ok prev dep cur Dependency_handler s1
           in if status \<noteq> UCC_OK then (status, s2)
              else pinit_tasks alloc_ok dep ps (upd cur (\<lambda>x. x\<lparr>t_n_deps_base := u32 (t_n_deps_base x + 1)\<rparr>) s2)
         else pinit_tasks alloc_ok dep ps s1)"

fun pinit_deps ::
    "(task_id \<Rightarrow> bool) \<Rightarrow> ucc_event \<Rightarrow> task_id \<Rightarrow> nat \<Rightarrow> nat list \<Rightarrow> 'q sched_state
      \<Rightarrow> (ucc_status \<times> nat \<times> 'q sched_state) + 'q sched_state" where
  "pinit_deps alloc_ok dep self n [] s = Inr s"
| "pinit_deps alloc_ok dep self n (k # ks) s =
     (let frags = p_frags (ss_task s self);
          frag = frags ! k;
          prev = frags ! ((k + n - 1) mod n);
          m = s_n_tasks (ss_task s frag);
          (st1, s1) = pinit_tasks alloc_ok dep (zip (take m (s_tasks (ss_task s prev))) (take m (s_tasks (ss_task s frag)))) s
      in if st1 \<noteq> UCC_OK then Inl (st1, k, s1)
         else
           let (st2, s2) = subscribe_to alloc_ok self UCC_EVENT_SCHEDULE_STARTED frag Frag_start_handler s1
           in if st2 \<noteq> UCC_OK then Inl (st2, k, s2)
              else
                let (st3, s3) = subscribe_to alloc_ok frag UCC_EVENT_COMPLETED_SCHEDULE self Pipelined_completed_handler s2
                in if st3 \<noteq> UCC_OK then Inl (st3, k, s3) else pinit_deps alloc_ok dep self n ks s3)"

definition dependency_event :: "nat \<Rightarrow> ucc_pipeline_order \<Rightarrow> ucc_event option" where
  "dependency_event n_frags order =
     (if n_frags > 1 then
        case order of
          UCC_PIPELINE_PARALLEL \<Rightarrow> Some UCC_EVENT_LAST
        | UCC_PIPELINE_ORDERED \<Rightarrow> Some UCC_EVENT_TASK_STARTED
        | UCC_PIPELINE_SEQUENTIAL \<Rightarrow> Some UCC_EVENT_COMPLETED
        | UCC_PIPELINE_LAST \<Rightarrow> None
      else Some UCC_EVENT_LAST)"

text \<open>On an error the fragments before the one that failed are finalised, the last first.\<close>

definition pinit_err :: "'q task_call \<Rightarrow> task_id \<Rightarrow> ucc_status \<times> nat \<times> 'q sched_state \<Rightarrow> 'q outcome" where
  "pinit_err fin self e =
     (case e of (status, k, s) \<Rightarrow>
        map_option (\<lambda>s1. (status, s1))
          (fold (\<lambda>frag r. Option.bind r (\<lambda>s1. map_option snd (fin frag s1))) (rev (take k (p_frags (ss_task s self)))) (Some s)))"

definition ucc_schedule_pipelined_init ::
    "(task_id \<Rightarrow> bool) \<Rightarrow> 'q task_call \<Rightarrow> task_bargs option \<Rightarrow> 'q frag_init_call \<Rightarrow> bool \<Rightarrow> nat \<Rightarrow> nat \<Rightarrow> ucc_pipeline_order
      \<Rightarrow> task_id \<Rightarrow> 'q sched_state \<Rightarrow> 'q outcome" where
  "ucc_schedule_pipelined_init alloc_ok fin bargs frag_init frag_setup n_frags n_frags_total order self s =
     (if n_frags > UCC_SCHEDULE_PIPELINED_MAX_FRAGS then Some (UCC_ERR_INVALID_PARAM, s)
      else case dependency_event n_frags order of
        None \<Rightarrow> Some (UCC_ERR_INVALID_PARAM, s)
      | Some dep \<Rightarrow>
          let (status, t) = ucc_schedule_init (ss_task s self) bargs
          in if status \<noteq> UCC_OK then Some (status, upd self (\<lambda>_. t) s)
             else
               let s1 = upd self (\<lambda>_. t\<lparr>t_flags := insert UCC_COLL_TASK_FLAG_IS_PIPELINED_SCHEDULE (t_flags t),
                          s_n_tasks := n_frags_total, p_n_frags := n_frags, p_order := order, p_frag_setup := frag_setup,
                          p_next_frag_to_post := 0, p_n_frags_in_pipeline := 0, p_frags := [],
                          t_finalize := Some Pipelined_finalize, t_post := Pipelined_post\<rparr>) s
               in case pinit_frags frag_init self [0..<n_frags] s1 of
                    Inl e \<Rightarrow> pinit_err fin self e
                  | Inr s2 \<Rightarrow>
                      (case pinit_deps alloc_ok dep self n_frags [0..<n_frags] s2 of
                         Inl e \<Rightarrow> pinit_err fin self e
                       | Inr s3 \<Rightarrow> Some (UCC_OK, s3)))"

section \<open>Tying the knot\<close>

definition task_post :: "'q sched_env \<Rightarrow> 'q notify_call \<Rightarrow> 'q task_call \<Rightarrow> task_id \<Rightarrow> 'q sched_state \<Rightarrow> 'q outcome" where
  "task_post env notify complete i s0 =
     (let s = log (Eff_post i) s0
      in case t_post (ss_task s i) of
           Dummy_post \<Rightarrow> ucc_dummy_post complete i s
         | Schedule_start \<Rightarrow> ucc_schedule_start notify i s
         | Pipelined_post \<Rightarrow> ucc_schedule_pipelined_post notify i s
         | Tl_post \<Rightarrow> tl_post env complete i s)"

primrec run_handler :: "nat \<Rightarrow> 'q sched_env \<Rightarrow> 'q handler_call" where
  "run_handler 0 env h parent task s = None"
| "run_handler (Suc f) env h parent task s =
     (let notify = ucc_event_manager_notify f (run_handler f env);
          complete = ucc_task_complete env notify;
          post = task_post env notify complete
      in case h of
           Dependency_handler \<Rightarrow> ucc_dependency_handler post notify parent task s
         | Task_start_handler \<Rightarrow> ucc_task_start_handler post parent task s
         | Schedule_completed_handler \<Rightarrow> ucc_schedule_completed_handler complete parent task s
         | Frag_start_handler \<Rightarrow> ucc_frag_start_handler env post parent task s
         | Pipelined_completed_handler \<Rightarrow> ucc_schedule_pipelined_completed_handler f env complete post parent task s)"

text \<open>The routines as the rest of the program calls them.\<close>

definition notify_event :: "nat \<Rightarrow> 'q sched_env \<Rightarrow> 'q notify_call" where
  "notify_event f env = ucc_event_manager_notify f (run_handler f env)"

definition complete_task :: "nat \<Rightarrow> 'q sched_env \<Rightarrow> 'q task_call" where
  "complete_task f env = ucc_task_complete env (notify_event f env)"

definition post_task :: "nat \<Rightarrow> 'q sched_env \<Rightarrow> 'q task_call" where
  "post_task f env = task_post env (notify_event f env) (complete_task f env)"

end
