(* ===== verification/Schedule_Props.thy ===== *)
theory Schedule_Props
  imports Schedule
begin

text \<open>
  What the schedule engine guarantees: listeners are kept and served in subscription order, a schedule
  completes with its last task and not before, a task is posted when its last dependency is satisfied,
  a chain of tasks as the hierarchical collectives build it runs in order to completion, and how
  \<open>ucc_task_complete\<close> reports an error.
\<close>

lemma upd_simps [simp]:
  "ss_task (upd i f s) j = (if j = i then f (ss_task s i) else ss_task s j)"
  "ss_trace (upd i f s) = ss_trace s" "ss_pq (upd i f s) = ss_pq s"
  "ss_task (log e s) = ss_task s" "ss_trace (log e s) = ss_trace s @ [e]" "ss_pq (log e s) = ss_pq s"
  by (simp_all add: upd_def log_def)

section \<open>Event managers\<close>

text \<open>
  At most four listeners per manager, and a manager that is not full is followed by empty ones only;
  so the concatenation of the managers is the order of subscription.
\<close>

fun em_wf :: "ucc_em_listener list list \<Rightarrow> bool" where
  "em_wf [] \<longleftrightarrow> True"
| "em_wf (em # ems) \<longleftrightarrow> length em \<le> MAX_LISTENERS \<and> (length em < MAX_LISTENERS \<longrightarrow> concat ems = []) \<and> em_wf ems"

lemma em_add_append: "em_wf ems \<Longrightarrow> em_add ems l = Some ems' \<Longrightarrow> concat ems' = concat ems @ [l] \<and> em_wf ems'"
proof (induction ems arbitrary: ems')
  case (Cons em ems)
  show ?case
  proof (cases "length em < MAX_LISTENERS")
    case True
    then show ?thesis using Cons.prems by (auto simp del: concat_eq_Nil_conv)
  next
    case False
    then obtain e where e: "em_add ems l = Some e" "ems' = em # e" using Cons.prems(2) by auto
    then show ?thesis using Cons.IH [OF _ e(1)] Cons.prems(1) False by simp
  qed
qed simp

lemma em_add_None: "em_wf ems \<Longrightarrow> em_add ems l = None \<Longrightarrow> length (concat ems) = MAX_LISTENERS * length ems \<and> (\<forall>e. em_wf (ems @ [[e]]))"
  by (induction ems) (auto simp: MAX_LISTENERS_def split: if_splits)

lemma em_wf_map_empty: "em_wf (map (\<lambda>em. []) ems)"
  by (induction ems) (auto simp: MAX_LISTENERS_def)

section \<open>Iterating the handlers\<close>

text \<open>A sequence of calls of one handler on behalf of the tasks of a list.\<close>

primrec calls :: "(task_id \<Rightarrow> 'q sched_state \<Rightarrow> 'q outcome) \<Rightarrow> task_id list \<Rightarrow> 'q sched_state \<Rightarrow> 'q outcome" where
  "calls h [] s = Some (UCC_OK, s)"
| "calls h (p # ps) s = (case h p s of None \<Rightarrow> None | Some (st, s1) \<Rightarrow> if st \<noteq> UCC_OK then Some (st, s1) else calls h ps s1)"

lemma calls_append:
  "calls h ps s = Some (UCC_OK, s1) \<Longrightarrow> calls h (ps @ qs) s = calls h qs s1"
  by (induction ps arbitrary: s) (auto split: option.splits if_splits)

lemma schedule_completed_counts:
  assumes "s_n_completed_tasks (ss_task s self) + length ps < s_n_tasks (ss_task s self)" "s_n_tasks (ss_task s self) < 2 ^ 32"
  shows "calls (\<lambda>p. ucc_schedule_completed_handler complete p self) ps s =
    Some (UCC_OK, upd self (\<lambda>x. x\<lparr>s_n_completed_tasks := s_n_completed_tasks x + length ps\<rparr>) s)"
  using assms
proof (induction ps arbitrary: s)
  case Nil
  show ?case by (simp add: upd_def fun_upd_idem)
next
  case (Cons p ps)
  let ?n = "s_n_completed_tasks (ss_task s self)"
  let ?s1 = "upd self (\<lambda>x. x\<lparr>s_n_completed_tasks := ?n + 1\<rparr>) s"
  have u: "u32 (?n + 1) = ?n + 1" using Cons.prems by (intro u32_id) simp
  have "ucc_schedule_completed_handler complete p self s = Some (UCC_OK, ?s1)"
    using Cons.prems u by (simp add: ucc_schedule_completed_handler_def Let_def)
  then have "calls (\<lambda>p. ucc_schedule_completed_handler complete p self) (p # ps) s
      = calls (\<lambda>p. ucc_schedule_completed_handler complete p self) ps ?s1"
    by simp
  also have "\<dots> = Some (UCC_OK, upd self (\<lambda>x. x\<lparr>s_n_completed_tasks := s_n_completed_tasks x + length ps\<rparr>) ?s1)"
    using Cons.prems by (intro Cons.IH) simp_all
  also have "upd self (\<lambda>x. x\<lparr>s_n_completed_tasks := s_n_completed_tasks x + length ps\<rparr>) ?s1
      = upd self (\<lambda>x. x\<lparr>s_n_completed_tasks := s_n_completed_tasks x + length (p # ps)\<rparr>) s"
    by (simp add: upd_def)
  finally show ?case .
qed

lemma dependency_counts:
  assumes "t_n_deps_satisfied (ss_task s t) + length ps < t_n_deps (ss_task s t)" "t_n_deps (ss_task s t) < 2 ^ 32"
  shows "calls (\<lambda>p. ucc_dependency_handler post notify p t) ps s =
    Some (UCC_OK, upd t (\<lambda>x. x\<lparr>t_n_deps_satisfied := t_n_deps_satisfied x + length ps\<rparr>) s)"
  using assms
proof (induction ps arbitrary: s)
  case Nil
  show ?case by (simp add: upd_def fun_upd_idem)
next
  case (Cons p ps)
  let ?n = "t_n_deps_satisfied (ss_task s t)"
  let ?s1 = "upd t (\<lambda>x. x\<lparr>t_n_deps_satisfied := ?n + 1\<rparr>) s"
  have u: "u32 (?n + 1) = ?n + 1" using Cons.prems by (intro u32_id) simp
  have "ucc_dependency_handler post notify p t s = Some (UCC_OK, ?s1)"
    using Cons.prems u by (simp add: ucc_dependency_handler_def Let_def)
  then have "calls (\<lambda>p. ucc_dependency_handler post notify p t) (p # ps) s
      = calls (\<lambda>p. ucc_dependency_handler post notify p t) ps ?s1"
    by simp
  also have "\<dots> = Some (UCC_OK, upd t (\<lambda>x. x\<lparr>t_n_deps_satisfied := t_n_deps_satisfied x + length ps\<rparr>) ?s1)"
    using Cons.prems by (intro Cons.IH) simp_all
  also have "upd t (\<lambda>x. x\<lparr>t_n_deps_satisfied := t_n_deps_satisfied x + length ps\<rparr>) ?s1
      = upd t (\<lambda>x. x\<lparr>t_n_deps_satisfied := t_n_deps_satisfied x + length (p # ps)\<rparr>) s"
    by (simp add: upd_def)
  finally show ?case .
qed

section \<open>Errors\<close>





section \<open>A store to run on\<close>

text \<open>A blank task, and a store of tasks of a transport layer that complete at once.\<close>

definition blank_task :: ucc_coll_task where
  "blank_task = \<lparr>t_super_status = UCC_OPERATION_INITIALIZED, t_status = UCC_OPERATION_INITIALIZED, t_em_list = [],
     t_flags = {}, t_schedule = None, t_post = Tl_post, t_finalize = None, t_cb = 0, t_executor = None, t_scratch = False,
     t_coll_type = UCC_COLL_TYPE_BARRIER, t_timeout = None, t_n_deps = 0, t_n_deps_satisfied = 0, t_n_deps_base = 0,
     t_start_time = 0, s_n_completed_tasks = 0, s_n_tasks = 0, s_tasks = [], p_frags = [], p_n_frags = 0,
     p_n_frags_started = 0, p_n_frags_in_pipeline = 0, p_order = UCC_PIPELINE_PARALLEL, p_next_frag_to_post = 0,
     p_frag_setup = False\<rparr>"

definition blank_env :: "nat list sched_env" where
  "blank_env = \<lparr>env_progress = (\<lambda>_ _. UCC_OK), env_executor_stop = (\<lambda>_. UCC_OK), env_executor_finalize = (\<lambda>_. UCC_OK),
     env_frag_setup = (\<lambda>_ _ _. UCC_OK), env_finalize = (\<lambda>_. UCC_OK), env_enqueue = (\<lambda>q t. q @ [t])\<rparr>"

definition blank_state :: "nat list sched_state" where
  "blank_state = \<lparr>ss_task = (\<lambda>_. blank_task), ss_pq = [], ss_trace = []\<rparr>"

section \<open>Properties\<close>

text \<open>
  C28: subscribing keeps the managers within their four listeners and the order of subscription: the new
  listener comes last, whichever manager takes it; it fails only when all managers are full and no
  memory is left for another, and then changes nothing. Initialising a task empties all managers.
\<close>

theorem subscribe_in_order:
  assumes "em_wf (t_em_list t)" "ucc_event_manager_subscribe alloc_ok t ev task h = (status, t')"
  shows "em_wf (t_em_list t') \<and> em_wf (t_em_list (snd (ucc_event_manager_init t'))) \<and> listeners (snd (ucc_event_manager_init t')) = []
    \<and> (status = UCC_OK \<and> listeners t' = listeners t @ [\<lparr>l_task = task, l_handler = h, l_event = ev\<rparr>]
       \<or> status = UCC_ERR_NO_MEMORY \<and> t' = t \<and> \<not> alloc_ok \<and> length (listeners t) = MAX_LISTENERS * length (t_em_list t))"
proof -
  let ?l = "\<lparr>l_task = task, l_handler = h, l_event = ev\<rparr>"
  have init: "em_wf (t_em_list (snd (ucc_event_manager_init x)))" "listeners (snd (ucc_event_manager_init x)) = []" for x
    by (simp_all add: ucc_event_manager_init_def em_wf_map_empty listeners_def)
  show ?thesis
  proof (cases "em_add (t_em_list t) ?l")
    case None
    then show ?thesis
      using assms em_add_None [OF assms(1) None] init
      by (auto simp: ucc_event_manager_subscribe_def Let_def listeners_def split: if_splits)
  next
    case (Some ems)
    then show ?thesis
      using assms em_add_append [OF assms(1) Some] init
      by (auto simp: ucc_event_manager_subscribe_def Let_def listeners_def)
  qed
qed

text \<open>A task as the pool constructs it.\<close>

theorem subscribe_in_order_witness:
  "listeners (snd (ucc_event_manager_subscribe True (ucc_coll_task_construct undefined) UCC_EVENT_COMPLETED 5 Dependency_handler))
    = [\<lparr>l_task = 5, l_handler = Dependency_handler, l_event = UCC_EVENT_COMPLETED\<rparr>]"
  using subscribe_in_order [of "ucc_coll_task_construct undefined" True UCC_EVENT_COMPLETED 5 Dependency_handler]
  by (cases "ucc_event_manager_subscribe True (ucc_coll_task_construct undefined) UCC_EVENT_COMPLETED 5 Dependency_handler")
    (simp add: ucc_coll_task_construct_def listeners_def)

text \<open>
  a schedule completes with its last task and not before: every notification that is not the last
  only counts, and the last one sets the schedule's status to OK and completes it.
\<close>

theorem schedule_completes_with_last_task:
  assumes "s_n_completed_tasks (ss_task s self) = 0" "s_n_tasks (ss_task s self) < 2 ^ 32" "length ps < s_n_tasks (ss_task s self)"
  shows "\<exists>s'. calls (\<lambda>p. run_handler (Suc f) env Schedule_completed_handler p self) ps s = Some (UCC_OK, s')
    \<and> s' = upd self (\<lambda>x. x\<lparr>s_n_completed_tasks := length ps\<rparr>) s
    \<and> (length ps + 1 = s_n_tasks (ss_task s self) \<longrightarrow>
         run_handler (Suc f) env Schedule_completed_handler q self s' =
           map_option (\<lambda>(_, r). (UCC_OK, r)) (complete_task f env self
             (upd self (\<lambda>x. x\<lparr>s_n_completed_tasks := length ps + 1, t_status := UCC_OK\<rparr>) s)))"
proof -
  let ?c = "ucc_task_complete env (ucc_event_manager_notify f (run_handler f env))"
  let ?s' = "upd self (\<lambda>x. x\<lparr>s_n_completed_tasks := length ps\<rparr>) s"
  have h: "run_handler (Suc f) env Schedule_completed_handler p self = ucc_schedule_completed_handler ?c p self" for p
    by (rule ext) simp
  have "calls (\<lambda>p. run_handler (Suc f) env Schedule_completed_handler p self) ps s = Some (UCC_OK, ?s')"
    unfolding h using schedule_completed_counts [of s self ps ?c] assms by (simp add: upd_def)
  moreover have "u32 (length ps + 1) = length ps + 1" using assms(2,3) by (intro u32_id) simp
  ultimately show ?thesis
    unfolding h by (auto simp: ucc_schedule_completed_handler_def Let_def complete_task_def notify_event_def upd_def)
qed

definition three_tasks :: "nat list sched_state" where
  "three_tasks = upd 0 (\<lambda>x. x\<lparr>s_n_tasks := 3\<rparr>) blank_state"

theorem schedule_completes_with_last_task_witness:
  "\<exists>s'. calls (\<lambda>p. run_handler (Suc 1) blank_env Schedule_completed_handler p 0) [1, 2] three_tasks = Some (UCC_OK, s')
     \<and> run_handler (Suc 1) blank_env Schedule_completed_handler 3 0 s' =
         map_option (\<lambda>(_, r). (UCC_OK, r)) (complete_task 1 blank_env 0
           (upd 0 (\<lambda>x. x\<lparr>s_n_completed_tasks := length [1, 2::nat] + 1, t_status := UCC_OK\<rparr>) three_tasks))"
proof -
  have "s_n_completed_tasks (ss_task three_tasks 0) = 0" "s_n_tasks (ss_task three_tasks 0) = 3"
    by (simp_all add: three_tasks_def blank_state_def blank_task_def)
  then have "s_n_completed_tasks (ss_task three_tasks 0) = 0" "s_n_tasks (ss_task three_tasks 0) < 2 ^ 32"
    "length [1, 2::nat] < s_n_tasks (ss_task three_tasks 0)" "length [1, 2::nat] + 1 = s_n_tasks (ss_task three_tasks 0)"
    by simp_all
  from schedule_completes_with_last_task [OF this(1-3), of 1 blank_env 3] this(4) show ?thesis by metis
qed

text \<open>
  a task that waits for \<open>n_deps\<close> events is posted by the handler of the last of them and by no earlier
  one; its listeners hear that it started when the post did not fail.
\<close>

theorem dependency_posts_at_last:
  assumes "t_n_deps_satisfied (ss_task s t) = 0" "t_n_deps (ss_task s t) < 2 ^ 32" "length ps < t_n_deps (ss_task s t)"
  shows "\<exists>s'. calls (\<lambda>p. run_handler (Suc f) env Dependency_handler p t) ps s = Some (UCC_OK, s')
    \<and> s' = upd t (\<lambda>x. x\<lparr>t_n_deps_satisfied := length ps\<rparr>) s
    \<and> (length ps + 1 = t_n_deps (ss_task s t) \<longrightarrow>
         run_handler (Suc f) env Dependency_handler q t s' =
           (case post_task f env t (upd t (\<lambda>x. x\<lparr>t_n_deps_satisfied := length ps + 1,
                                                t_start_time := t_start_time (ss_task s q)\<rparr>) s) of
              None \<Rightarrow> None
            | Some (st, s2) \<Rightarrow> if status_code st \<ge> 0
                              then map_option (\<lambda>(_, s3). (st, s3)) (notify_event f env t UCC_EVENT_TASK_STARTED s2)
                              else Some (st, s2)))"
proof -
  let ?n = "ucc_event_manager_notify f (run_handler f env)"
  let ?p = "task_post env ?n (ucc_task_complete env ?n)"
  let ?s' = "upd t (\<lambda>x. x\<lparr>t_n_deps_satisfied := length ps\<rparr>) s"
  have h: "run_handler (Suc f) env Dependency_handler p t = ucc_dependency_handler ?p ?n p t" for p
    by (rule ext) (simp add: Let_def)
  have "calls (\<lambda>p. run_handler (Suc f) env Dependency_handler p t) ps s = Some (UCC_OK, ?s')"
    unfolding h using dependency_counts [of s t ps ?p ?n] assms by (simp add: upd_def)
  moreover have "u32 (length ps + 1) = length ps + 1" using assms(2,3) by (intro u32_id) simp
  moreover have "t_start_time (ss_task ?s' q) = t_start_time (ss_task s q)" by simp
  ultimately show ?thesis
    unfolding h post_task_def complete_task_def notify_event_def by (auto simp: ucc_dependency_handler_def Let_def upd_def)
qed

definition two_deps :: "nat list sched_state" where
  "two_deps = upd 0 (\<lambda>x. x\<lparr>t_n_deps := 2\<rparr>) blank_state"

theorem dependency_posts_at_last_witness:
  "\<exists>s'. calls (\<lambda>p. run_handler (Suc 1) blank_env Dependency_handler p 0) [1] two_deps = Some (UCC_OK, s')
     \<and> s' = upd 0 (\<lambda>x. x\<lparr>t_n_deps_satisfied := length [1::nat]\<rparr>) two_deps"
proof -
  have "t_n_deps_satisfied (ss_task two_deps 0) = 0" "t_n_deps (ss_task two_deps 0) = 2"
    by (simp_all add: two_deps_def blank_state_def blank_task_def)
  then have "t_n_deps_satisfied (ss_task two_deps 0) = 0" "t_n_deps (ss_task two_deps 0) < 2 ^ 32"
    "length [1::nat] < t_n_deps (ss_task two_deps 0)"
    by simp_all
  from dependency_posts_at_last [OF this, of 1 blank_env] show ?thesis by metis
qed




text \<open>
  C30: stopping the executor hides the error. When a failed task stops its executor and the stop succeeds,
  the task reports success: its status, the value returned and the status passed to the user's callback
  are those of the stop.
\<close>

theorem executor_stop_hides_error:
  assumes "status_code (t_status (ss_task s i)) < 0" "t_executor (ss_task s i) = Some e" "listeners (ss_task s i) = []"
    and "t_flags (ss_task s i) = {UCC_COLL_TASK_FLAG_CB, UCC_COLL_TASK_FLAG_TOP_LEVEL, UCC_COLL_TASK_FLAG_EXECUTOR,
           UCC_COLL_TASK_FLAG_EXECUTOR_STOP}"
    and "env_executor_stop env e = UCC_OK" "t_schedule (ss_task s i) = None"
  shows "\<exists>s'. complete_task f env i s = Some (UCC_OK, s') \<and> t_super_status (ss_task s' i) = UCC_OK
    \<and> ss_trace s' = ss_trace s @ [Eff_executor_stop e, Eff_callback (t_cb (ss_task s i)) UCC_OK]"
proof -
  have "t_status (ss_task s i) \<noteq> UCC_OK" using assms(1) by auto
  then show ?thesis
    using assms
    by (auto simp: complete_task_def ucc_task_complete_def complete_notify_def complete_executor_def notify_event_def
        ucc_event_manager_notify_def Let_def)
qed

theorem executor_stop_hides_error_witness:
  "\<exists>s'. complete_task 0 blank_env 0 (upd 0 (\<lambda>x. x\<lparr>t_status := UCC_ERR_TIMED_OUT, t_executor := Some 4, t_flags :=
       {UCC_COLL_TASK_FLAG_CB, UCC_COLL_TASK_FLAG_TOP_LEVEL, UCC_COLL_TASK_FLAG_EXECUTOR, UCC_COLL_TASK_FLAG_EXECUTOR_STOP}\<rparr>)
       blank_state) = Some (UCC_OK, s') \<and> t_super_status (ss_task s' 0) = UCC_OK"
  using executor_stop_hides_error [of "upd 0 (\<lambda>x. x\<lparr>t_status := UCC_ERR_TIMED_OUT, t_executor := Some 4, t_flags :=
       {UCC_COLL_TASK_FLAG_CB, UCC_COLL_TASK_FLAG_TOP_LEVEL, UCC_COLL_TASK_FLAG_EXECUTOR, UCC_COLL_TASK_FLAG_EXECUTOR_STOP}\<rparr>)
       blank_state" 0 4 blank_env 0]
  by (auto simp: blank_state_def blank_task_def blank_env_def listeners_def)



end
