(* ===== verification/Progress_Queue.thy ===== *)
theory Progress_Queue
  imports Schedule_Props Lf_Queue
begin

text \<open>
  The progress engine: \<open>src/core/ucc_progress_queue.c\<close>, \<open>ucc_progress_queue_st.c\<close> and
  \<open>ucc_progress_queue_mt.c\<close>. The queue is a field of the state of the schedule engine; completing a task
  runs the handlers of \<open>Schedule\<close>, which enqueue further tasks. The clock is read at most once per call and
  is an argument. The theory proves, from the contract of a task queue, that no task is lost.
\<close>

section \<open>Queues\<close>

text \<open>
  The progress queue of a context: one thread, several threads with a lock-free queue, or several
  threads with a locked list. The single-threaded queue has no dequeue function.
\<close>

datatype ucc_thread_mode = UCC_THREAD_SINGLE | UCC_THREAD_FUNNELED | UCC_THREAD_MULTIPLE

datatype ucc_progress_queue = Pq_st "task_id list" | Pq_mt ucc_lf_queue | Pq_mt_locked "task_id list"

definition ucc_pq_st_init :: "bool \<Rightarrow> ucc_status + ucc_progress_queue" where
  "ucc_pq_st_init alloc_ok = (if alloc_ok then Inr (Pq_st []) else Inl UCC_ERR_NO_MEMORY)"

definition ucc_pq_mt_init :: "bool \<Rightarrow> nat \<Rightarrow> ucc_status + ucc_progress_queue" where
  "ucc_pq_mt_init alloc_ok lock_free_progress_q =
     (if \<not> alloc_ok then Inl UCC_ERR_NO_MEMORY
      else if lock_free_progress_q \<noteq> 0 then Inr (Pq_mt (ucc_lf_queue_init (\<lambda>_. 0))) else Inr (Pq_mt_locked []))"

definition ucc_progress_queue_init :: "bool \<Rightarrow> ucc_thread_mode \<Rightarrow> nat \<Rightarrow> ucc_status + ucc_progress_queue" where
  "ucc_progress_queue_init alloc_ok tm lock_free_progress_q =
     (if tm = UCC_THREAD_SINGLE then ucc_pq_st_init alloc_ok else ucc_pq_mt_init alloc_ok lock_free_progress_q)"

definition ucc_pq_st_enqueue :: "task_id list \<Rightarrow> task_id \<Rightarrow> task_id list" where
  "ucc_pq_st_enqueue q i = q @ [i]"

fun ucc_progress_enqueue :: "ucc_progress_queue \<Rightarrow> task_id \<Rightarrow> ucc_progress_queue" where
  "ucc_progress_enqueue (Pq_st q) i = Pq_st (ucc_pq_st_enqueue q i)"
| "ucc_progress_enqueue (Pq_mt q) i = Pq_mt (ucc_pq_mt_enqueue q i)"
| "ucc_progress_enqueue (Pq_mt_locked q) i = Pq_mt_locked (ucc_pq_locked_mt_enqueue q i)"

fun ucc_progress_queue_is_empty :: "ucc_progress_queue \<Rightarrow> bool" where
  "ucc_progress_queue_is_empty (Pq_st q) \<longleftrightarrow> q = []"
| "ucc_progress_queue_is_empty (Pq_mt q) \<longleftrightarrow> False"
| "ucc_progress_queue_is_empty (Pq_mt_locked q) \<longleftrightarrow> q = []"

section \<open>Progress\<close>

definition timed_out :: "int \<Rightarrow> ucc_coll_task \<Rightarrow> bool" where
  "timed_out timestamp t = (case t_timeout t of None \<Rightarrow> False | Some timeout \<Rightarrow> timestamp - t_start_time t > timeout)"

lemma timed_out_status [simp]:
  "timed_out ts (t\<lparr>t_status := x\<rparr>) = timed_out ts t" "timed_out ts (t\<lparr>t_super_status := x\<rparr>) = timed_out ts t"
  by (simp_all add: timed_out_def split: option.splits)




definition ucc_pq_mt_progress ::
    "('q \<Rightarrow> task_id option \<times> 'q) \<Rightarrow> ('q \<Rightarrow> task_id \<Rightarrow> 'q) \<Rightarrow> 'q sched_env \<Rightarrow> 'q task_call \<Rightarrow> int \<Rightarrow> 'q sched_state
      \<Rightarrow> (int \<times> 'q sched_state) option" where
  "ucc_pq_mt_progress dequeue enqueue env complete timestamp s0 =
     (case dequeue (ss_pq s0) of
        (None, q) \<Rightarrow> Some (0, s0\<lparr>ss_pq := q\<rparr>)
      | (Some i, q) \<Rightarrow>
          let s = s0\<lparr>ss_pq := q\<rparr>;
              s1 = upd i (\<lambda>x. x\<lparr>t_status := env_progress env i s\<rparr>) s
          in if t_status (ss_task s1 i) = UCC_INPROGRESS then
               if timed_out timestamp (ss_task s1 i) then
                 map_option (\<lambda>(_, s3). (status_code UCC_ERR_TIMED_OUT, s3))
                   (complete i (upd i (\<lambda>x. x\<lparr>t_status := UCC_ERR_TIMED_OUT\<rparr>) s1))
               else Some (0, s1\<lparr>ss_pq := enqueue (ss_pq s1) i\<rparr>)
             else
               map_option (\<lambda>(status, s2). (if status_code status < 0 then status_code status else 1, s2)) (complete i s1))"

section \<open>Handlers only add tasks\<close>

text \<open>An operation of the schedule engine keeps the queue well-formed and takes no task out of it.\<close>

definition pq_adds :: "('q \<Rightarrow> bool) \<Rightarrow> ('q \<Rightarrow> nat multiset) \<Rightarrow> 'q sched_state \<Rightarrow> 'q sched_state \<Rightarrow> bool" where
  "pq_adds invar content s s' \<longleftrightarrow> (invar (ss_pq s) \<longrightarrow> invar (ss_pq s') \<and> content (ss_pq s) \<subseteq># content (ss_pq s'))"

definition pq_adding :: "('q \<Rightarrow> bool) \<Rightarrow> ('q \<Rightarrow> nat multiset) \<Rightarrow> ('q sched_state \<Rightarrow> 'q outcome) \<Rightarrow> bool" where
  "pq_adding invar content f \<longleftrightarrow> (\<forall>s st s'. f s = Some (st, s') \<longrightarrow> pq_adds invar content s s')"

lemma error_loop_pq:
  fixes s s' :: "'q sched_state"
  assumes h: "\<And>p t (s :: 'q sched_state) s'. ucc_task_error_handler f p t s = Some s' \<Longrightarrow> ss_pq s' = ss_pq s"
  shows "error_loop f parent task ls s = Some s' \<Longrightarrow> ss_pq s' = ss_pq s"
proof (induction ls arbitrary: s)
  case (Cons l ls)
  show ?case
  proof (cases "t_super_status (ss_task s (l_task l)) \<noteq> t_super_status (ss_task s parent)")
    case True
    then obtain s1 where s1: "ucc_task_error_handler f task (l_task l) s = Some s1" "error_loop f parent task ls s1 = Some s'"
      using Cons.prems by (simp split: option.splits)
    show ?thesis using Cons.IH [OF s1(2)] h [OF s1(1)] by (rule trans)
  next
    case False
    then have "error_loop f parent task ls s = Some s'" using Cons.prems by simp
    then show ?thesis by (rule Cons.IH)
  qed
qed simp

lemma error_handler_pq: "ucc_task_error_handler f parent task s = Some s' \<Longrightarrow> ss_pq s' = ss_pq s"
proof (induction f arbitrary: parent task s s')
  case (Suc f)
  from Suc.prems have "error_loop f parent task (listeners (ss_task s parent))
      (upd task (\<lambda>x. x\<lparr>t_super_status := t_super_status (ss_task s parent)\<rparr>) s) = Some s'"
    by simp
  from error_loop_pq [OF Suc.IH this] show ?case by simp
qed simp

lemma fold_upd_pq: "ss_pq (fold (\<lambda>i. upd i g) is s) = ss_pq s"
  by (induction "is" arbitrary: s) simp_all

lemma restart_frag_pq: "ss_pq (restart_frag frag s) = ss_pq s"
  by (simp add: restart_frag_def Let_def fold_upd_pq)

lemma reset_frag_pq: "reset_frag i n k s = Some s' \<Longrightarrow> ss_pq s' = ss_pq s"
proof -
  have "ss_pq (fold (reset_frag_task b) is s1) = ss_pq s1" for b "is" and s1 :: "'a sched_state"
    by (induction "is" arbitrary: s1) (simp_all add: reset_frag_task_def)
  then show "reset_frag i n k s = Some s' \<Longrightarrow> ss_pq s' = ss_pq s"
    by (auto simp: reset_frag_def Let_def split: if_splits)
qed

lemma fold_bind_None: "fold (\<lambda>k r. Option.bind r (f k)) ks None = None"
  by (induction ks) simp_all

lemma reset_frags_pq: "fold (\<lambda>k r. Option.bind r (reset_frag i n k)) ks (Some s) = Some s' \<Longrightarrow> ss_pq s' = ss_pq s"
proof (induction ks arbitrary: s)
  case (Cons k ks)
  then obtain s1 where "reset_frag i n k s = Some s1"
    by (cases "reset_frag i n k s") (simp_all add: fold_bind_None)
  then show ?case using Cons.prems Cons.IH [of s1] reset_frag_pq by fastforce
qed simp

context task_queue
begin

abbreviation adds :: "'q sched_state \<Rightarrow> 'q sched_state \<Rightarrow> bool" where "adds \<equiv> pq_adds invar content"

abbreviation adding :: "('q sched_state \<Rightarrow> 'q outcome) \<Rightarrow> bool" where "adding \<equiv> pq_adding invar content"

lemma adds_same: "ss_pq s' = ss_pq s \<Longrightarrow> adds s s'"
  by (simp add: pq_adds_def)

lemma adds_trans: "adds s s1 \<Longrightarrow> adds s1 s2 \<Longrightarrow> adds s s2"
  using subset_mset.order_trans by (auto simp: pq_adds_def)

lemma adds_left: "ss_pq s1 = ss_pq s \<Longrightarrow> adds s1 s2 \<Longrightarrow> adds s s2"
  by (simp add: pq_adds_def)

lemma adds_enq: "ss_pq s' = enq (ss_pq s) i \<Longrightarrow> adds s s'"
  by (simp add: pq_adds_def invar_enq content_enq)

lemma addingI: "(\<And>s st s'. f s = Some (st, s') \<Longrightarrow> adds s s') \<Longrightarrow> adding f"
  by (auto simp: pq_adding_def)

lemma addingD: "adding f \<Longrightarrow> f s1 = Some (st, s') \<Longrightarrow> ss_pq s1 = ss_pq s \<Longrightarrow> adds s s'"
  by (auto simp: pq_adding_def intro: adds_left)

lemma notify_loop_adds:
  assumes "\<And>h p t. adding (call h p t)"
  shows "notify_loop f call parent ev ls s = Some (st, s') \<Longrightarrow> adds s s'"
proof (induction ls arbitrary: s)
  case (Cons l ls)
  show ?case
  proof (cases "ev = UCC_EVENT_ERROR \<or> l_event l \<noteq> ev")
    case True
    have "\<exists>s1. ss_pq s1 = ss_pq s \<and> notify_loop f call parent ev ls s1 = Some (st, s')"
    proof (cases "ev = UCC_EVENT_ERROR")
      case True
      then obtain s1 where "ucc_task_error_handler f parent (l_task l) s = Some s1" "notify_loop f call parent ev ls s1 = Some (st, s')"
        using Cons.prems by (simp split: option.splits)
      then show ?thesis using error_handler_pq by blast
    next
      case False
      then have "notify_loop f call parent ev ls s = Some (st, s')" using True Cons.prems by simp
      then show ?thesis by blast
    qed
    then show ?thesis using Cons.IH adds_left by blast
  next
    case False
    then obtain st1 s1 where c: "call (l_handler l) parent (l_task l) s = Some (st1, s1)"
      using Cons.prems by (cases "call (l_handler l) parent (l_task l) s") auto
    then have "s' = s1 \<or> notify_loop f call parent ev ls s1 = Some (st, s')"
      using Cons.prems False by (cases "st1 = UCC_OK") simp_all
    then show ?thesis using c Cons.IH addingD [OF assms] adds_trans by metis
  qed
qed (simp add: adds_same)

lemma notify_adding:
  assumes "\<And>h p t. adding (call h p t)"
  shows "adding (ucc_event_manager_notify f call parent ev)"
proof (rule addingI)
  fix s st s'
  assume "ucc_event_manager_notify f call parent ev s = Some (st, s')"
  then show "adds s s'" unfolding ucc_event_manager_notify_def by (rule notify_loop_adds [OF assms])
qed

lemma complete_adding:
  assumes n: "\<And>i ev. adding (notify i ev)"
  shows "adding (ucc_task_complete env notify i)"
proof (rule addingI)
  fix s st s'
  assume c: "ucc_task_complete env notify i s = Some (st, s')"
  then obtain st0 s1 where n0: "complete_notify notify i s = Some (st0, s1)"
    unfolding ucc_task_complete_def Let_def by (cases "complete_notify notify i s") auto
  obtain st1 s0 ev where "notify i ev s0 = Some (st1, s1)" "ss_pq s0 = ss_pq s"
    using n0 unfolding complete_notify_def Let_def by (auto split: if_splits)
  then have a: "adds s s1" using addingD [OF n] by blast
  obtain st2 s2 where e: "complete_executor env i st0 s1 = (st2, s2)" by (cases "complete_executor env i st0 s1")
  have p: "ss_pq s2 = ss_pq s1" using e by (auto simp: complete_executor_def Let_def split: option.splits if_splits)
  have "adds s2 s'"
    using c n0 e unfolding ucc_task_complete_def Let_def by (auto split: if_splits intro: addingD [OF n] adds_same)
  then have "adds s1 s'" by (rule adds_left [OF p])
  then show "adds s s'" using a adds_trans by blast
qed

lemma start_adding:
  assumes n: "\<And>i ev. adding (notify i ev)"
  shows "adding (ucc_schedule_start notify i)"
  unfolding ucc_schedule_start_def by (rule addingI) (erule addingD [OF n], simp)

lemma pipelined_post_adding:
  assumes n: "\<And>i ev. adding (notify i ev)"
  shows "adding (ucc_schedule_pipelined_post notify i)"
proof (rule addingI)
  fix s st s'
  assume "ucc_schedule_pipelined_post notify i s = Some (st, s')"
  then obtain s2 where "ss_pq s2 = ss_pq s" "ucc_schedule_start notify i s2 = Some (st, s')"
    unfolding ucc_schedule_pipelined_post_def Let_def by (auto simp: Option.bind_eq_Some_conv dest!: reset_frags_pq)
  then show "adds s s'" using addingD [OF start_adding [of notify, OF n]] by blast
qed

lemma tl_post_adding:
  assumes c: "\<And>i. adding (complete i)" and env: "env_enqueue env = enq"
  shows "adding (tl_post env complete i)"
proof (rule addingI)
  fix s st s'
  assume "tl_post env complete i s = Some (st, s')"
  then show "adds s s'"
    unfolding tl_post_def ucc_progress_queue_enqueue_def Let_def env
    by (auto split: if_splits intro: addingD [OF c] adds_enq)
qed

lemma post_adding:
  assumes n: "\<And>i ev. adding (notify i ev)" and c: "\<And>i. adding (complete i)" and env: "env_enqueue env = enq"
  shows "adding (task_post env notify complete i)"
proof (rule addingI)
  fix s st s'
  assume "task_post env notify complete i s = Some (st, s')"
  then show "adds s s'"
    unfolding task_post_def Let_def ucc_dummy_post_def
    by (auto split: post_fn.splits intro: addingD [OF c] addingD [OF start_adding [of notify, OF n]]
          addingD [OF pipelined_post_adding [of notify, OF n]] addingD [OF tl_post_adding [of complete, OF c env]])
qed

lemma completed_handler_adding:
  assumes c: "\<And>i. adding (complete i)"
  shows "adding (ucc_schedule_completed_handler complete parent i)"
  unfolding ucc_schedule_completed_handler_def Let_def
  by (rule addingI) (auto split: if_splits intro: addingD [OF c] adds_same)

lemma start_handler_adding:
  assumes p: "\<And>i. adding (post i)"
  shows "adding (ucc_task_start_handler post parent i)"
  unfolding ucc_task_start_handler_def by (rule addingI) (auto intro: addingD [OF p])

lemma dependency_handler_adding:
  assumes p: "\<And>i. adding (post i)" and n: "\<And>i ev. adding (notify i ev)"
  shows "adding (ucc_dependency_handler post notify parent i)"
proof (rule addingI)
  fix s st s'
  assume h: "ucc_dependency_handler post notify parent i s = Some (st, s')"
  have r: "adds s s1" if "post i (upd i f (upd i g s)) = Some (st1, s1)" for f g st1 s1
    using addingD [OF p that] by simp
  have q: "adds s1 s2" if "notify i ev s1 = Some (st1, s2)" for ev st1 s1 s2
    using addingD [OF n that] by simp
  show "adds s s'"
    using h unfolding ucc_dependency_handler_def Let_def
    by (auto split: if_splits option.splits dest!: r q intro: adds_same adds_trans)
qed

lemma frag_start_handler_adding:
  assumes p: "\<And>i. adding (post i)"
  shows "adding (ucc_frag_start_handler env post parent i)"
  unfolding ucc_frag_start_handler_def Let_def
  by (rule addingI) (auto split: if_splits intro: addingD [OF p] adds_same)

lemma post_frags_loop_adds:
  assumes h: "\<And>p t. adding (fs p t)"
  shows "post_frags_loop f fs parent i frag s = Some s' \<Longrightarrow> adds s s'"
proof (induction f arbitrary: frag s)
  case (Suc f)
  have r: "adds s s1" if "fs i x (restart_frag x s) = Some (st, s1)" for x st s1
    using that restart_frag_pq by (rule addingD [OF h])
  show ?case
    using Suc.prems by (auto simp: Let_def split: if_splits option.splits dest!: r Suc.IH intro: adds_same adds_trans)
qed simp

lemma pipelined_completed_handler_adding:
  assumes c: "\<And>i. adding (complete i)" and p: "\<And>i. adding (post i)"
  shows "adding (ucc_schedule_pipelined_completed_handler f env complete post parent i)"
proof (rule addingI)
  fix s st s'
  assume h: "ucc_schedule_pipelined_completed_handler f env complete post parent i s = Some (st, s')"
  have r: "adds s s1" if "post_frags_loop f (ucc_frag_start_handler env post) parent i parent (upd i g s) = Some s1" for g s1
    using post_frags_loop_adds [of "ucc_frag_start_handler env post", OF frag_start_handler_adding [of post, OF p] that]
    by (rule adds_left [rotated]) simp
  show "adds s s'"
    using h unfolding ucc_schedule_pipelined_completed_handler_def Let_def
    by (auto split: if_splits dest!: r intro: addingD [OF c])
qed

lemma run_handler_adding: "env_enqueue env = enq \<Longrightarrow> adding (run_handler f env h parent i)"
proof (induction f arbitrary: h parent i)
  case 0
  then show ?case by (simp add: pq_adding_def)
next
  case (Suc f)
  define notify where "notify = ucc_event_manager_notify f (run_handler f env)"
  define complete where "complete = ucc_task_complete env notify"
  define post where "post = task_post env notify complete"
  have n: "adding (notify i ev)" for i ev unfolding notify_def by (rule notify_adding) (rule Suc.IH [OF Suc.prems])
  have c: "adding (complete i)" for i unfolding complete_def by (rule complete_adding) (rule n)
  have p: "adding (post i)" for i unfolding post_def by (rule post_adding [OF n c Suc.prems])
  have r: "run_handler (Suc f) env h parent i = (case h of
           Dependency_handler \<Rightarrow> ucc_dependency_handler post notify parent i
         | Task_start_handler \<Rightarrow> ucc_task_start_handler post parent i
         | Schedule_completed_handler \<Rightarrow> ucc_schedule_completed_handler complete parent i
         | Frag_start_handler \<Rightarrow> ucc_frag_start_handler env post parent i
         | Pipelined_completed_handler \<Rightarrow> ucc_schedule_pipelined_completed_handler f env complete post parent i)"
    by (rule ext) (simp add: Let_def notify_def complete_def post_def split: event_handler.splits)
  show ?case
    unfolding r using n c p
    by (auto split: event_handler.splits intro!: dependency_handler_adding start_handler_adding completed_handler_adding
        frag_start_handler_adding pipelined_completed_handler_adding)
qed

lemma complete_task_adding: "env_enqueue env = enq \<Longrightarrow> adding (complete_task f env i)"
  unfolding complete_task_def notify_event_def by (intro complete_adding notify_adding run_handler_adding)

text \<open>One call of the multi-threaded progress function.\<close>

lemma mt_progress:
  assumes inv: "invar (ss_pq s)" and env: "env_enqueue env = enq"
    and pr: "ucc_pq_mt_progress deq enq env (complete_task f env) ts s = Some (n, s')"
  shows "invar (ss_pq s')
    \<and> (content (ss_pq s) = {#} \<longrightarrow> n = 0 \<and> content (ss_pq s') = {#})
    \<and> (content (ss_pq s) \<noteq> {#} \<longrightarrow>
        (\<exists>i q. deq (ss_pq s) = (Some i, q) \<and> i \<in># content (ss_pq s)
          \<and> (let st = env_progress env i (s\<lparr>ss_pq := q\<rparr>)
             in if st = UCC_INPROGRESS \<and> \<not> timed_out ts (ss_task s i)
                then n = 0 \<and> content (ss_pq s') = content (ss_pq s)
                else content (ss_pq s) - {#i#} \<subseteq># content (ss_pq s'))))"
proof -
  obtain x q where d: "deq (ss_pq s) = (x, q)" by (cases "deq (ss_pq s)")
  have iq: "invar q" using invar_deq [OF inv d] .
  show ?thesis
  proof (cases x)
    case None
    then show ?thesis using pr d deq_None [OF inv] iq by (auto simp: ucc_pq_mt_progress_def)
  next
    case (Some i)
    have cq: "content (ss_pq s) = add_mset i (content q)" using deq_Some [OF inv] d Some by simp
    have a: "invar (ss_pq s2) \<and> content q \<subseteq># content (ss_pq s2)"
      if "complete_task f env i s1 = Some (st, s2)" "ss_pq s1 = q" for s1 st s2
      using addingD [OF complete_task_adding [OF env] that(1)] that(2) iq by (auto simp: pq_adds_def)
    show ?thesis
      using pr d Some cq iq
      by (auto simp: ucc_pq_mt_progress_def Let_def invar_enq content_enq split: if_splits dest!: a)
  qed
qed

end

section \<open>The single-threaded queue\<close>


text \<open>Tasks nobody waits for: no listeners and no executor. Completing one only changes its own status.\<close>

definition lonely :: "'q sched_state \<Rightarrow> bool" where
  "lonely s \<longleftrightarrow> (\<forall>j. listeners (ss_task s j) = [] \<and> t_executor (ss_task s j) = None)"


lemma timed_out_upd_status [simp]:
  "timed_out ts (ss_task (upd i (\<lambda>x. x\<lparr>t_status := st\<rparr>) s) j) = timed_out ts (ss_task s j)"
  "timed_out ts (ss_task (upd i (\<lambda>x. x\<lparr>t_super_status := st\<rparr>) s) j) = timed_out ts (ss_task s j)"
  by (simp_all add: upd_def timed_out_def split: option.splits)

lemma lonely_upd_status [simp]:
  "lonely s \<Longrightarrow> lonely (upd i (\<lambda>x. x\<lparr>t_status := st\<rparr>) s)" "lonely s \<Longrightarrow> lonely (upd i (\<lambda>x. x\<lparr>t_super_status := st\<rparr>) s)"
  "lonely s \<Longrightarrow> lonely (log e s)" "lonely s \<Longrightarrow> lonely (s\<lparr>ss_pq := q\<rparr>)"
  by (simp_all add: lonely_def upd_def log_def listeners_def)



section \<open>Properties\<close>









end
