(* ===== verification/Tl_Ucp.thy ===== *)
theory Tl_Ucp
  imports Knomial "HOL-Library.Word"
begin

text \<open>
  The point-to-point layer of the UCP transport layer: the message tags of
  \<open>src/components/tl/ucp/tl_ucp_tag.h\<close> and \<open>tl_ucp_sendrecv.h\<close>, the task of \<open>tl_ucp_coll.h\<close> with its
  counters of posted and completed operations, posting, completion callbacks and the test routines.

  UCP itself is not modelled: what a call of \<open>ucp_tag_send_nbx\<close> or \<open>ucp_tag_recv_nbx\<close> returns is an argument
  of the routine that makes it, and what \<open>ucp_worker_progress\<close> does is the list of callbacks it runs.
\<close>

unbundle bit_operations_syntax

section \<open>Status codes of UCS\<close>

datatype ucs_status =
    UCS_OK
  | UCS_INPROGRESS
  | UCS_ERR_NO_MESSAGE
  | UCS_ERR_NO_RESOURCE
  | UCS_ERR_NO_MEMORY
  | UCS_ERR_INVALID_PARAM
  | UCS_ERR_OTHER nat

fun ucs_status_to_ucc_status :: "ucs_status \<Rightarrow> ucc_status" where
  "ucs_status_to_ucc_status UCS_OK = UCC_OK"
| "ucs_status_to_ucc_status UCS_INPROGRESS = UCC_INPROGRESS"
| "ucs_status_to_ucc_status UCS_ERR_NO_MEMORY = UCC_ERR_NO_MEMORY"
| "ucs_status_to_ucc_status UCS_ERR_INVALID_PARAM = UCC_ERR_INVALID_PARAM"
| "ucs_status_to_ucc_status UCS_ERR_NO_RESOURCE = UCC_ERR_NO_RESOURCE"
| "ucs_status_to_ucc_status _ = UCC_ERR_NO_MESSAGE"

fun ucc_status_to_ucs_status :: "ucc_status \<Rightarrow> ucs_status" where
  "ucc_status_to_ucs_status UCC_OK = UCS_OK"
| "ucc_status_to_ucs_status UCC_INPROGRESS = UCS_INPROGRESS"
| "ucc_status_to_ucs_status UCC_ERR_NO_MEMORY = UCS_ERR_NO_MEMORY"
| "ucc_status_to_ucs_status UCC_ERR_INVALID_PARAM = UCS_ERR_INVALID_PARAM"
| "ucc_status_to_ucs_status UCC_ERR_NO_RESOURCE = UCS_ERR_NO_RESOURCE"
| "ucc_status_to_ucs_status _ = UCS_ERR_NO_MESSAGE"

section \<open>Tags\<close>

definition UCC_TL_UCP_SCOPE_BITS :: nat where "UCC_TL_UCP_SCOPE_BITS = 3"

definition UCC_TL_UCP_SCOPE_ID_BITS :: nat where "UCC_TL_UCP_SCOPE_ID_BITS = 3"

definition UCC_TL_UCP_USER_TAG_BITS :: nat where "UCC_TL_UCP_USER_TAG_BITS = 1"

definition UCC_TL_UCP_TAG_BITS :: nat where "UCC_TL_UCP_TAG_BITS = 15"

definition UCC_TL_UCP_SENDER_BITS :: nat where "UCC_TL_UCP_SENDER_BITS = 24"

definition UCC_TL_UCP_ID_BITS :: nat where "UCC_TL_UCP_ID_BITS = 16"

definition UCC_TL_UCP_RESERVED_BITS_OFFSET :: nat where
  "UCC_TL_UCP_RESERVED_BITS_OFFSET = UCC_TL_UCP_ID_BITS + UCC_TL_UCP_SENDER_BITS + UCC_TL_UCP_SCOPE_ID_BITS
     + UCC_TL_UCP_SCOPE_BITS + UCC_TL_UCP_TAG_BITS + UCC_TL_UCP_USER_TAG_BITS"

definition UCC_TL_UCP_USER_TAG_BITS_OFFSET :: nat where
  "UCC_TL_UCP_USER_TAG_BITS_OFFSET = UCC_TL_UCP_ID_BITS + UCC_TL_UCP_SENDER_BITS + UCC_TL_UCP_SCOPE_ID_BITS
     + UCC_TL_UCP_SCOPE_BITS + UCC_TL_UCP_TAG_BITS"

definition UCC_TL_UCP_TAG_BITS_OFFSET :: nat where
  "UCC_TL_UCP_TAG_BITS_OFFSET = UCC_TL_UCP_ID_BITS + UCC_TL_UCP_SENDER_BITS + UCC_TL_UCP_SCOPE_ID_BITS
     + UCC_TL_UCP_SCOPE_BITS"

definition UCC_TL_UCP_SCOPE_BITS_OFFSET :: nat where
  "UCC_TL_UCP_SCOPE_BITS_OFFSET = UCC_TL_UCP_ID_BITS + UCC_TL_UCP_SENDER_BITS + UCC_TL_UCP_SCOPE_ID_BITS"

definition UCC_TL_UCP_SCOPE_ID_BITS_OFFSET :: nat where
  "UCC_TL_UCP_SCOPE_ID_BITS_OFFSET = UCC_TL_UCP_ID_BITS + UCC_TL_UCP_SENDER_BITS"

definition UCC_TL_UCP_SENDER_BITS_OFFSET :: nat where
  "UCC_TL_UCP_SENDER_BITS_OFFSET = UCC_TL_UCP_ID_BITS"

definition UCC_TL_UCP_ID_BITS_OFFSET :: nat where "UCC_TL_UCP_ID_BITS_OFFSET = 0"

lemmas tag_bits = UCC_TL_UCP_SCOPE_BITS_def UCC_TL_UCP_SCOPE_ID_BITS_def UCC_TL_UCP_USER_TAG_BITS_def
  UCC_TL_UCP_TAG_BITS_def UCC_TL_UCP_SENDER_BITS_def UCC_TL_UCP_ID_BITS_def UCC_TL_UCP_RESERVED_BITS_OFFSET_def
  UCC_TL_UCP_USER_TAG_BITS_OFFSET_def UCC_TL_UCP_TAG_BITS_OFFSET_def UCC_TL_UCP_SCOPE_BITS_OFFSET_def
  UCC_TL_UCP_SCOPE_ID_BITS_OFFSET_def UCC_TL_UCP_SENDER_BITS_OFFSET_def UCC_TL_UCP_ID_BITS_OFFSET_def

definition UCC_TL_UCP_MAX_TAG :: nat where "UCC_TL_UCP_MAX_TAG = 2 ^ UCC_TL_UCP_TAG_BITS - 1"

definition UCC_TL_UCP_RESERVED_TAGS :: nat where "UCC_TL_UCP_RESERVED_TAGS = 8"

definition UCC_TL_UCP_MAX_COLL_TAG :: nat where
  "UCC_TL_UCP_MAX_COLL_TAG = UCC_TL_UCP_MAX_TAG - UCC_TL_UCP_RESERVED_TAGS"

definition UCC_TL_UCP_SERVICE_TAG :: nat where "UCC_TL_UCP_SERVICE_TAG = UCC_TL_UCP_MAX_COLL_TAG + 1"

definition UCC_TL_UCP_ACTIVE_SET_TAG :: nat where "UCC_TL_UCP_ACTIVE_SET_TAG = UCC_TL_UCP_MAX_COLL_TAG + 2"

definition UCC_COLL_ARGS_FIELD_TAG :: "64 word" where "UCC_COLL_ARGS_FIELD_TAG = 2"

definition UCC_TL_UCP_MAKE_TAG ::
    "64 word \<Rightarrow> 64 word \<Rightarrow> 64 word \<Rightarrow> 64 word \<Rightarrow> 64 word \<Rightarrow> 64 word \<Rightarrow> 64 word" where
  "UCC_TL_UCP_MAKE_TAG user_tag tag rank team_id scope_id scope =
     push_bit UCC_TL_UCP_USER_TAG_BITS_OFFSET user_tag OR
     push_bit UCC_TL_UCP_TAG_BITS_OFFSET tag OR
     push_bit UCC_TL_UCP_SENDER_BITS_OFFSET rank OR
     push_bit UCC_TL_UCP_SCOPE_BITS_OFFSET scope OR
     push_bit UCC_TL_UCP_SCOPE_ID_BITS_OFFSET scope_id OR
     push_bit UCC_TL_UCP_ID_BITS_OFFSET team_id"

definition UCC_TL_UCP_GET_SENDER :: "64 word \<Rightarrow> 64 word" where
  "UCC_TL_UCP_GET_SENDER tag = take_bit 32 (drop_bit UCC_TL_UCP_SENDER_BITS_OFFSET tag AND mask UCC_TL_UCP_SENDER_BITS)"

text \<open>
  The tag of a send, and the tag and mask of the receive that is to match it; the first field is the
  \<open>TAG\<close> bit of the mask of the collective's arguments.
\<close>

definition UCC_TL_UCP_MAKE_SEND_TAG ::
    "64 word \<Rightarrow> 64 word \<Rightarrow> 64 word \<Rightarrow> 64 word \<Rightarrow> 64 word \<Rightarrow> 64 word \<Rightarrow> 64 word" where
  "UCC_TL_UCP_MAKE_SEND_TAG amask tag rank team_id scope_id scope =
     UCC_TL_UCP_MAKE_TAG (amask AND UCC_COLL_ARGS_FIELD_TAG) tag rank team_id scope_id scope"

definition UCC_TL_UCP_MAKE_RECV_TAG ::
    "64 word \<Rightarrow> 64 word \<Rightarrow> 64 word \<Rightarrow> 64 word \<Rightarrow> 64 word \<Rightarrow> 64 word \<Rightarrow> 64 word \<times> 64 word" where
  "UCC_TL_UCP_MAKE_RECV_TAG amask tag src team_id scope_id scope =
     (UCC_TL_UCP_MAKE_TAG (amask AND UCC_COLL_ARGS_FIELD_TAG) tag src team_id scope_id scope, - 1)"

text \<open>
  The tag \<open>ucc_tl_ucp_init_task\<close> gives a task, with the new sequence number of the team: the tag of the user,
  the tag for active sets, or the next sequence number.
\<close>

definition init_task_tag :: "bool \<Rightarrow> nat option \<Rightarrow> nat \<Rightarrow> nat \<times> nat" where
  "init_task_tag is_active_set user_tag seq_num =
     (if is_active_set then
        (case user_tag of Some t \<Rightarrow> t | None \<Rightarrow> UCC_TL_UCP_ACTIVE_SET_TAG, seq_num)
      else
        (case user_tag of
           Some t \<Rightarrow> (t, seq_num)
         | None \<Rightarrow> let s = u32 (seq_num + 1) mod UCC_TL_UCP_MAX_COLL_TAG in (s, s)))"

section \<open>Tasks\<close>

datatype kn_phase =
    UCC_KN_PHASE_INIT
  | UCC_KN_PHASE_LOOP
  | UCC_KN_PHASE_REDUCE
  | UCC_KN_PHASE_EXTRA
  | UCC_KN_PHASE_EXTRA_REDUCE
  | UCC_KN_PHASE_PROXY
  | UCC_KN_PHASE_COMPLETE

record ucc_tl_ucp_task =
  tt_status :: ucc_status
  tt_send_posted :: nat
  tt_send_completed :: nat
  tt_recv_posted :: nat
  tt_recv_completed :: nat
  tt_tag :: nat
  tt_n_polls :: nat
  tt_phase :: kn_phase
  tt_p :: ucc_knomial_pattern

definition ucc_tl_ucp_task_reset :: "ucc_tl_ucp_task \<Rightarrow> ucc_status \<Rightarrow> ucc_tl_ucp_task" where
  "ucc_tl_ucp_task_reset t status =
     t\<lparr>tt_send_posted := 0, tt_send_completed := 0, tt_recv_posted := 0, tt_recv_completed := 0, tt_status := status\<rparr>"

section \<open>Posting\<close>

text \<open>
  What a non-blocking UCP call returns: done at once, a request, or an error. An endpoint that cannot be
  had is an error before anything is counted.
\<close>

datatype ucs_req = Req_ok | Req_pending | Req_err ucs_status

definition ucc_tl_ucp_send_nb :: "bool \<Rightarrow> ucs_req \<Rightarrow> ucc_tl_ucp_task \<Rightarrow> ucc_status \<times> ucc_tl_ucp_task" where
  "ucc_tl_ucp_send_nb ep_ok req t =
     (if \<not> ep_ok then (ucs_status_to_ucc_status UCS_ERR_NO_MESSAGE, t)
      else
        let t1 = t\<lparr>tt_send_posted := u32 (tt_send_posted t + 1)\<rparr>
        in case req of
             Req_ok \<Rightarrow> (UCC_OK, t1\<lparr>tt_send_completed := u32 (tt_send_completed t1 + 1)\<rparr>)
           | Req_pending \<Rightarrow> (UCC_OK, t1)
           | Req_err e \<Rightarrow> (ucs_status_to_ucc_status e, t1))"

definition ucc_tl_ucp_recv_nb :: "ucs_req \<Rightarrow> ucc_tl_ucp_task \<Rightarrow> ucc_status \<times> ucc_tl_ucp_task" where
  "ucc_tl_ucp_recv_nb req t =
     (let t1 = t\<lparr>tt_recv_posted := u32 (tt_recv_posted t + 1)\<rparr>
      in case req of
           Req_ok \<Rightarrow> (UCC_OK, t1\<lparr>tt_recv_completed := u32 (tt_recv_completed t1 + 1)\<rparr>)
         | Req_pending \<Rightarrow> (UCC_OK, t1)
         | Req_err e \<Rightarrow> (ucs_status_to_ucc_status e, t1))"

definition ucc_tl_ucp_send_nz :: "nat \<Rightarrow> bool \<Rightarrow> ucs_req \<Rightarrow> ucc_tl_ucp_task \<Rightarrow> ucc_status \<times> ucc_tl_ucp_task" where
  "ucc_tl_ucp_send_nz msglen ep_ok req t =
     (if msglen = 0 then
        (UCC_OK, t\<lparr>tt_send_posted := u32 (tt_send_posted t + 1), tt_send_completed := u32 (tt_send_completed t + 1)\<rparr>)
      else ucc_tl_ucp_send_nb ep_ok req t)"

definition ucc_tl_ucp_recv_nz :: "nat \<Rightarrow> ucs_req \<Rightarrow> ucc_tl_ucp_task \<Rightarrow> ucc_status \<times> ucc_tl_ucp_task" where
  "ucc_tl_ucp_recv_nz msglen req t =
     (if msglen = 0 then
        (UCC_OK, t\<lparr>tt_recv_posted := u32 (tt_recv_posted t + 1), tt_recv_completed := u32 (tt_recv_completed t + 1)\<rparr>)
      else ucc_tl_ucp_recv_nb req t)"

section \<open>Completion and tests\<close>

definition ucc_tl_ucp_send_completion_cb :: "ucs_status \<Rightarrow> ucc_tl_ucp_task \<Rightarrow> ucc_tl_ucp_task" where
  "ucc_tl_ucp_send_completion_cb status t =
     (let t1 = (if status \<noteq> UCS_OK then t\<lparr>tt_status := ucs_status_to_ucc_status status\<rparr> else t)
      in t1\<lparr>tt_send_completed := u32 (tt_send_completed t1 + 1)\<rparr>)"

definition ucc_tl_ucp_recv_completion_cb :: "ucs_status \<Rightarrow> ucc_tl_ucp_task \<Rightarrow> ucc_tl_ucp_task" where
  "ucc_tl_ucp_recv_completion_cb status t =
     (let t1 = (if status \<noteq> UCS_OK then t\<lparr>tt_status := ucs_status_to_ucc_status status\<rparr> else t)
      in t1\<lparr>tt_recv_completed := u32 (tt_recv_completed t1 + 1)\<rparr>)"

datatype ucp_event = Send_completed ucs_status | Recv_completed ucs_status

fun ucp_callback :: "ucp_event \<Rightarrow> ucc_tl_ucp_task \<Rightarrow> ucc_tl_ucp_task" where
  "ucp_callback (Send_completed st) t = ucc_tl_ucp_send_completion_cb st t"
| "ucp_callback (Recv_completed st) t = ucc_tl_ucp_recv_completion_cb st t"

definition UCC_TL_UCP_TASK_RECV_COMPLETE :: "ucc_tl_ucp_task \<Rightarrow> bool" where
  "UCC_TL_UCP_TASK_RECV_COMPLETE t \<longleftrightarrow> tt_recv_posted t = tt_recv_completed t"

definition UCC_TL_UCP_TASK_SEND_COMPLETE :: "ucc_tl_ucp_task \<Rightarrow> bool" where
  "UCC_TL_UCP_TASK_SEND_COMPLETE t \<longleftrightarrow> tt_send_posted t = tt_send_completed t"

definition UCC_TL_UCP_TASK_P2P_COMPLETE :: "ucc_tl_ucp_task \<Rightarrow> bool" where
  "UCC_TL_UCP_TASK_P2P_COMPLETE t \<longleftrightarrow>
     tt_send_posted t = tt_send_completed t \<and> tt_recv_posted t = tt_recv_completed t"

definition UCC_TL_UCP_TASK_RING_P2P_COMPLETE :: "ucc_tl_ucp_task \<Rightarrow> bool" where
  "UCC_TL_UCP_TASK_RING_P2P_COMPLETE t \<longleftrightarrow>
     sub32 (tt_send_posted t) (tt_send_completed t) \<le> 1 \<and> tt_recv_posted t = tt_recv_completed t"

text \<open>
  The polling loop of the test routines. Each element of the list is what one call of
  \<open>ucp_worker_progress\<close> does to the task; no element stands for a call that completes nothing. The state is
  not looked at again after the last poll.
\<close>

fun test_loop ::
    "(ucc_tl_ucp_task \<Rightarrow> bool) \<Rightarrow> nat \<Rightarrow> ucp_event list list \<Rightarrow> ucc_tl_ucp_task
      \<Rightarrow> ucc_status \<times> ucc_tl_ucp_task \<times> ucp_event list list" where
  "test_loop complete 0 evs t = (UCC_INPROGRESS, t, evs)"
| "test_loop complete (Suc polls) evs t =
     (if complete t then (UCC_OK, t, evs)
      else case evs of
             [] \<Rightarrow> test_loop complete polls [] t
           | es # evs' \<Rightarrow> test_loop complete polls evs' (fold ucp_callback es t))"

definition test_with ::
    "(ucc_tl_ucp_task \<Rightarrow> bool) \<Rightarrow> ucp_event list list \<Rightarrow> ucc_tl_ucp_task \<Rightarrow> ucc_status \<times> ucc_tl_ucp_task \<times> ucp_event list list" where
  "test_with complete evs t = (if complete t then (UCC_OK, t, evs) else test_loop complete (tt_n_polls t) evs t)"

definition ucc_tl_ucp_test :: "ucp_event list list \<Rightarrow> ucc_tl_ucp_task \<Rightarrow> ucc_status \<times> ucc_tl_ucp_task \<times> ucp_event list list" where
  "ucc_tl_ucp_test = test_with UCC_TL_UCP_TASK_P2P_COMPLETE"

definition ucc_tl_ucp_test_recv :: "ucp_event list list \<Rightarrow> ucc_tl_ucp_task \<Rightarrow> ucc_status \<times> ucc_tl_ucp_task \<times> ucp_event list list" where
  "ucc_tl_ucp_test_recv = test_with UCC_TL_UCP_TASK_RECV_COMPLETE"

definition ucc_tl_ucp_test_send :: "ucp_event list list \<Rightarrow> ucc_tl_ucp_task \<Rightarrow> ucc_status \<times> ucc_tl_ucp_task \<times> ucp_event list list" where
  "ucc_tl_ucp_test_send = test_with UCC_TL_UCP_TASK_SEND_COMPLETE"

definition ucc_tl_ucp_test_ring :: "ucp_event list list \<Rightarrow> ucc_tl_ucp_task \<Rightarrow> ucc_status \<times> ucc_tl_ucp_task \<times> ucp_event list list" where
  "ucc_tl_ucp_test_ring = test_with UCC_TL_UCP_TASK_RING_P2P_COMPLETE"

section \<open>Facts on tags\<close>

text \<open>The fields, where the layout of \<open>tl_ucp_tag.h\<close> has room for them.\<close>

definition tag_fields_ok :: "64 word \<Rightarrow> 64 word \<Rightarrow> 64 word \<Rightarrow> 64 word \<Rightarrow> 64 word \<Rightarrow> bool" where
  "tag_fields_ok tag rank team_id scope_id scope \<longleftrightarrow> take_bit 15 tag = tag \<and> take_bit 24 rank = rank \<and> take_bit 16 team_id = team_id
     \<and> take_bit 3 scope_id = scope_id \<and> take_bit 3 scope = scope"

lemma bit_field: "take_bit k w = (w :: 64 word) \<Longrightarrow> bit w n \<longleftrightarrow> n < k \<and> bit w n"
  by (metis bit_take_bit_iff)

lemma bit_send_tag:
  assumes "tag_fields_ok tag rank team_id scope_id scope" "n < 64"
  shows "bit (UCC_TL_UCP_MAKE_SEND_TAG amask tag rank team_id scope_id scope) n \<longleftrightarrow>
    (if n < 16 then bit team_id n else if n < 40 then bit rank (n - 16) else if n < 43 then bit scope_id (n - 40)
     else if n < 46 then bit scope (n - 43) else if n < 61 then bit tag (n - 46) else n = 62 \<and> bit amask 1)"
proof -
  note f = assms(1) [unfolded tag_fields_ok_def]
  define u where "u = amask AND 2"
  have u: "bit u k \<longleftrightarrow> k = 1 \<and> bit amask k" for k by (auto simp: u_def bit_and_iff bit_2_iff)
  have nb: "16 \<le> k \<Longrightarrow> \<not> bit team_id k" "24 \<le> k \<Longrightarrow> \<not> bit rank k" "3 \<le> k \<Longrightarrow> \<not> bit scope_id k"
    "3 \<le> k \<Longrightarrow> \<not> bit scope k" "15 \<le> k \<Longrightarrow> \<not> bit tag k" for k
    using f bit_field by (metis not_less)+
  have e: "bit (UCC_TL_UCP_MAKE_SEND_TAG amask tag rank team_id scope_id scope) n \<longleftrightarrow>
      61 \<le> n \<and> n - 61 = 1 \<and> bit amask (n - 61) \<or> 46 \<le> n \<and> bit tag (n - 46) \<or> 16 \<le> n \<and> bit rank (n - 16)
      \<or> 43 \<le> n \<and> bit scope (n - 43) \<or> 40 \<le> n \<and> bit scope_id (n - 40) \<or> bit team_id n"
    unfolding UCC_TL_UCP_MAKE_SEND_TAG_def UCC_TL_UCP_MAKE_TAG_def tag_bits UCC_COLL_ARGS_FIELD_TAG_def u_def [symmetric]
    using assms(2) by (simp add: bit_or_iff bit_push_bit_iff u)
  consider "n < 16" | "16 \<le> n" "n < 40" | "40 \<le> n" "n < 43" | "43 \<le> n" "n < 46" | "46 \<le> n" "n < 61" | "61 \<le> n" "n \<noteq> 62" | "n = 62"
    by linarith
  then show ?thesis unfolding e by cases (simp_all add: nb, linarith)
qed

lemma send_tag_fields:
  fixes amask :: "64 word"
  assumes "tag_fields_ok tag rank team_id scope_id scope"
  defines "w \<equiv> UCC_TL_UCP_MAKE_SEND_TAG amask tag rank team_id scope_id scope"
  shows "take_bit 16 w = team_id" "take_bit 24 (drop_bit 16 w) = rank" "take_bit 3 (drop_bit 40 w) = scope_id"
    "take_bit 3 (drop_bit 43 w) = scope" "take_bit 15 (drop_bit 46 w) = tag"
proof -
  note f = assms(1) [unfolded tag_fields_ok_def]
  have field: "take_bit k (drop_bit j w) = x"
    if "take_bit k x = x" "j + k \<le> 64" "\<And>n. n < k \<Longrightarrow> bit w (j + n) \<longleftrightarrow> bit x n" for k j x
  proof (rule bit_eqI)
    fix n
    show "bit (take_bit k (drop_bit j w)) n \<longleftrightarrow> bit x n"
      using that(3) [of n] bit_field [OF that(1), of n] by (auto simp: bit_take_bit_iff bit_drop_bit_eq)
  qed
  show "take_bit 16 w = team_id" using field [of 16 team_id 0] f bit_send_tag [OF assms(1)] by (simp add: w_def)
  show "take_bit 24 (drop_bit 16 w) = rank" by (rule field) (use f bit_send_tag [OF assms(1)] in \<open>simp_all add: w_def\<close>)
  show "take_bit 3 (drop_bit 40 w) = scope_id" by (rule field) (use f bit_send_tag [OF assms(1)] in \<open>simp_all add: w_def\<close>)
  show "take_bit 3 (drop_bit 43 w) = scope" by (rule field) (use f bit_send_tag [OF assms(1)] in \<open>simp_all add: w_def\<close>)
  show "take_bit 15 (drop_bit 46 w) = tag" by (rule field) (use f bit_send_tag [OF assms(1)] in \<open>simp_all add: w_def\<close>)
qed

text \<open>
  C35: for fields that fit the layout, the tag of a send equals the tag of a receive exactly when message tag,
  sender, team, scope, scope number and the presence of a user tag agree; the sender can be read back
  from the tag. The presence of a user tag is bit 62, in the field the layout reserves; bit 61, the
  field the layout has for it, is never set.
\<close>

theorem ucp_tag_matches_iff:
  assumes "tag_fields_ok tag rank team_id scope_id scope" "tag_fields_ok tag' src team_id' scope_id' scope'"
  shows "(UCC_TL_UCP_MAKE_SEND_TAG amask tag rank team_id scope_id scope = fst (UCC_TL_UCP_MAKE_RECV_TAG amask' tag' src team_id' scope_id' scope')
      \<longleftrightarrow> tag = tag' \<and> rank = src \<and> team_id = team_id' \<and> scope_id = scope_id' \<and> scope = scope' \<and> (bit amask 1 \<longleftrightarrow> bit amask' 1))
    \<and> UCC_TL_UCP_GET_SENDER (UCC_TL_UCP_MAKE_SEND_TAG amask tag rank team_id scope_id scope) = rank
    \<and> (bit (UCC_TL_UCP_MAKE_SEND_TAG amask tag rank team_id scope_id scope) 62 \<longleftrightarrow> bit amask 1)
    \<and> \<not> bit (UCC_TL_UCP_MAKE_SEND_TAG amask tag rank team_id scope_id scope) UCC_TL_UCP_USER_TAG_BITS_OFFSET"
proof -
  let ?a = "UCC_TL_UCP_MAKE_SEND_TAG amask tag rank team_id scope_id scope"
  let ?b = "UCC_TL_UCP_MAKE_SEND_TAG amask' tag' src team_id' scope_id' scope'"
  have r: "fst (UCC_TL_UCP_MAKE_RECV_TAG amask' tag' src team_id' scope_id' scope') = ?b"
    by (simp add: UCC_TL_UCP_MAKE_RECV_TAG_def UCC_TL_UCP_MAKE_SEND_TAG_def)
  have b62: "bit ?a 62 \<longleftrightarrow> bit amask 1" "bit ?b 62 \<longleftrightarrow> bit amask' 1" and b61: "\<not> bit ?a 61"
    using bit_send_tag [OF assms(1), of 62 amask] bit_send_tag [OF assms(2), of 62 amask'] bit_send_tag [OF assms(1), of 61 amask]
    by simp_all
  have "?a = ?b" if "tag = tag' \<and> rank = src \<and> team_id = team_id' \<and> scope_id = scope_id' \<and> scope = scope' \<and> (bit amask 1 \<longleftrightarrow> bit amask' 1)"
    by (rule bit_word_eqI) (use that bit_send_tag [OF assms(1)] bit_send_tag [OF assms(2)] in simp)
  moreover have "tag = tag' \<and> rank = src \<and> team_id = team_id' \<and> scope_id = scope_id' \<and> scope = scope' \<and> (bit amask 1 \<longleftrightarrow> bit amask' 1)" if "?a = ?b"
    using that b62 send_tag_fields [OF assms(1), of amask] send_tag_fields [OF assms(2), of amask'] by metis
  moreover have "UCC_TL_UCP_GET_SENDER ?a = rank"
  proof -
    have "UCC_TL_UCP_GET_SENDER ?a = take_bit 32 (take_bit 24 (drop_bit 16 ?a))"
      by (simp only: UCC_TL_UCP_GET_SENDER_def tag_bits take_bit_eq_mask)
    then show ?thesis using send_tag_fields(2) [OF assms(1), of amask] by (metis take_bit_take_bit min.absorb2 numeral_le_iff semiring_norm(68-81))
  qed
  ultimately show ?thesis using r b62 b61 by (auto simp: tag_bits)
qed

theorem ucp_tag_matches_iff_witness:
  "UCC_TL_UCP_MAKE_SEND_TAG 0 7 3 1 0 0 \<noteq> fst (UCC_TL_UCP_MAKE_RECV_TAG 0 7 4 1 0 0)
    \<and> UCC_TL_UCP_GET_SENDER (UCC_TL_UCP_MAKE_SEND_TAG 2 7 3 1 0 0) = 3 \<and> bit (UCC_TL_UCP_MAKE_SEND_TAG 2 7 3 1 0 0) 62"
proof -
  have "tag_fields_ok 7 3 1 0 0" "tag_fields_ok 7 4 1 0 0" by (simp_all add: tag_fields_ok_def)
  then show ?thesis
    using ucp_tag_matches_iff [of 7 3 1 0 0 7 4 1 0 0 0 0] ucp_tag_matches_iff [of 7 3 1 0 0 7 4 1 0 0 2 0] by (simp add: bit_2_iff)
qed

end
