(* ===== verification/Tl_Ucp_Barrier.thy ===== *)
theory Tl_Ucp_Barrier
  imports Tl_Ucp
begin

text \<open>
  The knomial barrier of the UCP transport layer, \<open>src/components/tl/ucp/barrier/barrier_knomial.c\<close>: the
  progress function of one rank, and the system of all ranks of a team that run it and exchange
  messages. What the system guarantees is proved in the theories \<open>Barrier_Inv\<close> and \<open>Barrier_Props\<close>.
\<close>

section \<open>One rank\<close>

definition ucc_tl_ucp_barrier_knomial_start ::
    "nat \<Rightarrow> ucc_rank \<Rightarrow> nat \<Rightarrow> ucc_tl_ucp_task \<Rightarrow> ucc_tl_ucp_task option" where
  "ucc_tl_ucp_barrier_knomial_start n rank cfg_radix t =
     (let t1 = (ucc_tl_ucp_task_reset t UCC_INPROGRESS)\<lparr>tt_phase := UCC_KN_PHASE_INIT\<rparr>
      in map_option (\<lambda>p. t1\<lparr>tt_p := p\<rparr>) (ucc_knomial_pattern_init n rank (u16 (min cfg_radix n)) (tt_p t1)))"

text \<open>
  The operations a rank posts. \<open>net\<close> answers a post: whether the endpoint can be had, and what the
  UCP call returns. \<open>post_ops\<close> is a sequence of posts under \<open>UCPCHECK_GOTO\<close>: it stops at the first error, which
  becomes the status of the task. It returns whether all succeeded and the operations that did.
\<close>

datatype p2p_op = P2p_send ucc_rank | P2p_recv ucc_rank

type_synonym p2p_net = "p2p_op \<Rightarrow> bool \<times> ucs_req"

fun post_op :: "p2p_net \<Rightarrow> p2p_op \<Rightarrow> ucc_tl_ucp_task \<Rightarrow> ucc_status \<times> ucc_tl_ucp_task" where
  "post_op net (P2p_send q) t = ucc_tl_ucp_send_nb (fst (net (P2p_send q))) (snd (net (P2p_send q))) t"
| "post_op net (P2p_recv q) t = ucc_tl_ucp_recv_nb (snd (net (P2p_recv q))) t"

fun post_ops :: "p2p_net \<Rightarrow> p2p_op list \<Rightarrow> ucc_tl_ucp_task \<Rightarrow> bool \<times> ucc_tl_ucp_task \<times> p2p_op list" where
  "post_ops net [] t = (True, t, [])"
| "post_ops net (op # ops) t =
     (let (status, t1) = post_op net op t
      in if status \<noteq> UCC_OK then (False, t1\<lparr>tt_status := status\<rparr>, [])
         else let (ok, t2, posted) = post_ops net ops t1 in (ok, t2, op # posted))"

definition loop_peers :: "ucc_knomial_pattern \<Rightarrow> ucc_rank \<Rightarrow> ucc_rank list" where
  "loop_peers p rank =
     filter (\<lambda>q. q \<noteq> UCC_KN_PEER_NULL) (map (ucc_knomial_pattern_get_loop_peer p rank) [1..<kp_radix p])"

text \<open>
  The blocks of the progress function between its labels. A block ends at a label, with \<open>phase\<close> the label,
  or ends the function: after an error, or at the label \<open>completion\<close>. The first component tells which.
  The source stores the phase when it returns at a label; after an error the phase is not read again.
\<close>

definition bar_post ::
    "p2p_net \<Rightarrow> p2p_op list \<Rightarrow> kn_phase \<Rightarrow> ucc_tl_ucp_task \<Rightarrow> bool \<times> ucc_tl_ucp_task \<times> p2p_op list" where
  "bar_post net ops label t =
     (let (ok, t1, posted) = post_ops net ops t in (\<not> ok, t1\<lparr>tt_phase := label\<rparr>, posted))"

definition bar_completion :: "ucc_tl_ucp_task \<Rightarrow> bool \<times> ucc_tl_ucp_task \<times> p2p_op list" where
  "bar_completion t = (True, t\<lparr>tt_status := UCC_OK\<rparr>, [])"

definition bar_init_ops :: "ucc_knomial_pattern \<Rightarrow> ucc_rank \<Rightarrow> p2p_op list" where
  "bar_init_ops p rank =
     (case kp_node_type p of
        KN_NODE_EXTRA \<Rightarrow> [P2p_send (ucc_knomial_pattern_get_proxy p rank), P2p_recv (ucc_knomial_pattern_get_proxy p rank)]
      | KN_NODE_PROXY \<Rightarrow> [P2p_recv (ucc_knomial_pattern_get_extra p rank)]
      | KN_NODE_BASE \<Rightarrow> [])"

definition bar_loop_head :: "p2p_net \<Rightarrow> ucc_rank \<Rightarrow> ucc_tl_ucp_task \<Rightarrow> bool \<times> ucc_tl_ucp_task \<times> p2p_op list" where
  "bar_loop_head net rank t =
     (let p = tt_p t
      in if \<not> ucc_knomial_pattern_loop_done p then
           bar_post net (map P2p_send (loop_peers p rank) @ map P2p_recv (loop_peers p rank)) UCC_KN_PHASE_LOOP t
         else if kp_node_type p = KN_NODE_PROXY then
           bar_post net [P2p_send (ucc_knomial_pattern_get_extra p rank)] UCC_KN_PHASE_PROXY t
         else bar_completion t)"

definition bar_continue :: "p2p_net \<Rightarrow> ucc_rank \<Rightarrow> ucc_tl_ucp_task \<Rightarrow> bool \<times> ucc_tl_ucp_task \<times> p2p_op list" where
  "bar_continue net rank t =
     (case tt_phase t of
        UCC_KN_PHASE_EXTRA \<Rightarrow>
          if kp_node_type (tt_p t) = KN_NODE_EXTRA then bar_completion t else bar_loop_head net rank t
      | UCC_KN_PHASE_LOOP \<Rightarrow> bar_loop_head net rank (t\<lparr>tt_p := ucc_knomial_pattern_next_iteration (tt_p t)\<rparr>)
      | UCC_KN_PHASE_PROXY \<Rightarrow> bar_completion t
      | _ \<Rightarrow> bar_post net (bar_init_ops (tt_p t) rank) UCC_KN_PHASE_EXTRA t)"

text \<open>Whether a test guards the block that starts at the label.\<close>

definition bar_tests :: "ucc_tl_ucp_task \<Rightarrow> bool" where
  "bar_tests t =
     (case tt_phase t of
        UCC_KN_PHASE_EXTRA \<Rightarrow> kp_node_type (tt_p t) = KN_NODE_PROXY \<or> kp_node_type (tt_p t) = KN_NODE_EXTRA
      | UCC_KN_PHASE_LOOP \<Rightarrow> True
      | UCC_KN_PHASE_PROXY \<Rightarrow> True
      | _ \<Rightarrow> False)"

partial_function (option) ucc_tl_ucp_barrier_knomial_progress ::
    "p2p_net \<Rightarrow> ucc_rank \<Rightarrow> ucp_event list list \<Rightarrow> ucc_tl_ucp_task
      \<Rightarrow> (ucc_tl_ucp_task \<times> p2p_op list \<times> ucp_event list list) option" where
  "ucc_tl_ucp_barrier_knomial_progress net rank evs t =
     (let (st, t1, evs1) = (if bar_tests t then ucc_tl_ucp_test evs t else (UCC_OK, t, evs))
      in if st = UCC_INPROGRESS then Some (t1, [], evs1)
         else
           let (stop, t2, ops) = bar_continue net rank t1
           in if stop then Some (t2, ops, evs1)
              else Option.bind (ucc_tl_ucp_barrier_knomial_progress net rank evs1 t2)
                     (\<lambda>(t3, ops', evs2). Some (t3, ops @ ops', evs2)))"

section \<open>The team\<close>

text \<open>
  All ranks of a team with their tasks, the number of messages each rank has sent to each other rank,
  and the number of receives it has posted and completed from each.
\<close>

record bar_sys =
  bs_started :: "ucc_rank \<Rightarrow> bool"
  bs_task :: "ucc_rank \<Rightarrow> ucc_tl_ucp_task"
  bs_sent :: "ucc_rank \<Rightarrow> ucc_rank \<Rightarrow> nat"
  bs_rposted :: "ucc_rank \<Rightarrow> ucc_rank \<Rightarrow> nat"
  bs_rdone :: "ucc_rank \<Rightarrow> ucc_rank \<Rightarrow> nat"

definition set_task :: "ucc_rank \<Rightarrow> ucc_tl_ucp_task \<Rightarrow> bar_sys \<Rightarrow> bar_sys" where
  "set_task r t s = s\<lparr>bs_task := (bs_task s)(r := t)\<rparr>"

definition note_ops :: "ucc_rank \<Rightarrow> p2p_op list \<Rightarrow> bar_sys \<Rightarrow> bar_sys" where
  "note_ops r ops s =
     s\<lparr>bs_sent := (bs_sent s)(r := \<lambda>q. bs_sent s r q + count_list ops (P2p_send q)),
       bs_rposted := (bs_rposted s)(r := \<lambda>q. bs_rposted s r q + count_list ops (P2p_recv q))\<rparr>"

text \<open>
  What UCP promises, as the steps it can take: a send completes some time after it was posted, and a
  receive from a rank when that rank has sent as many messages as complete; both report success. A post
  answers with a request or an error; one that completes at once is one whose completion is the next
  step. The polls inside \<open>ucc_tl_ucp_test\<close> are such steps, so a block runs when its test succeeds.
\<close>

definition net_async :: "p2p_net \<Rightarrow> bool" where
  "net_async net \<longleftrightarrow> (\<forall>op. snd (net op) = Req_pending
     \<or> (\<exists>e. snd (net op) = Req_err e \<and> e \<noteq> UCS_OK \<and> e \<noteq> UCS_INPROGRESS))"

definition bar_ready :: "ucc_tl_ucp_task \<Rightarrow> bool" where
  "bar_ready t \<longleftrightarrow> (bar_tests t \<longrightarrow> UCC_TL_UCP_TASK_P2P_COMPLETE t)"

inductive bar_step :: "nat \<Rightarrow> nat \<Rightarrow> bar_sys \<Rightarrow> bar_sys \<Rightarrow> bool" for n cfg_radix where
  start: "r < n \<Longrightarrow> \<not> bs_started s r \<Longrightarrow> ucc_tl_ucp_barrier_knomial_start n r cfg_radix (bs_task s r) = Some t \<Longrightarrow>
    bar_step n cfg_radix s ((set_task r t s)\<lparr>bs_started := (bs_started s)(r := True)\<rparr>)"
| run: "r < n \<Longrightarrow> bs_started s r \<Longrightarrow> tt_status (bs_task s r) = UCC_INPROGRESS \<Longrightarrow> bar_ready (bs_task s r) \<Longrightarrow>
    net_async net \<Longrightarrow> bar_continue net r (bs_task s r) = (stop, t, ops) \<Longrightarrow>
    bar_step n cfg_radix s (note_ops r ops (set_task r t s))"
| send_done: "r < n \<Longrightarrow> bs_started s r \<Longrightarrow> tt_send_completed (bs_task s r) \<noteq> tt_send_posted (bs_task s r) \<Longrightarrow>
    bar_step n cfg_radix s (set_task r (ucc_tl_ucp_send_completion_cb UCS_OK (bs_task s r)) s)"
| recv_done: "r < n \<Longrightarrow> q < n \<Longrightarrow> bs_started s r \<Longrightarrow> bs_rdone s r q < bs_rposted s r q \<Longrightarrow> bs_rdone s r q < bs_sent s q r \<Longrightarrow>
    bar_step n cfg_radix s ((set_task r (ucc_tl_ucp_recv_completion_cb UCS_OK (bs_task s r)) s)
      \<lparr>bs_rdone := (bs_rdone s)(r := (bs_rdone s r)(q := bs_rdone s r q + 1))\<rparr>)"

definition bar_initial :: "bar_sys \<Rightarrow> bool" where
  "bar_initial s \<longleftrightarrow> bs_started s = (\<lambda>_. False) \<and> bs_sent s = (\<lambda>_ _. 0) \<and> bs_rposted s = (\<lambda>_ _. 0) \<and> bs_rdone s = (\<lambda>_ _. 0)"

inductive bar_reach :: "nat \<Rightarrow> nat \<Rightarrow> bar_sys \<Rightarrow> bool" for n cfg_radix where
  init: "bar_initial s \<Longrightarrow> bar_reach n cfg_radix s"
| step: "bar_reach n cfg_radix s \<Longrightarrow> bar_step n cfg_radix s s' \<Longrightarrow> bar_reach n cfg_radix s'"

end
