(* ===== verification/Barrier_Inv.thy ===== *)
theory Barrier_Inv
  imports Tl_Ucp_Barrier
begin

text \<open>
  The invariant of the knomial barrier: the messages a rank has posted are those of the rounds it has
  entered, and a rank in a round knows that every rank whose contribution can have reached it has
  started. Every step of the system keeps it.
\<close>

section \<open>Peers\<close>

text \<open>The number of times rank \<open>q\<close> is a peer of rank \<open>r\<close> in the first \<open>k\<close> iterations.\<close>

definition peers_upto :: "ucc_knomial_pattern \<Rightarrow> ucc_rank \<Rightarrow> nat \<Rightarrow> ucc_rank list" where
  "peers_upto P r k = concat (map (\<lambda>j. loop_peers (kn_at P j) r) [0..<k])"

lemma peers_upto_Suc: "peers_upto P r (Suc k) = peers_upto P r k @ loop_peers (kn_at P k) r"
  by (simp add: peers_upto_def)

lemma count_list_map_filter:
  assumes "distinct xs" "y \<noteq> z"
  shows "count_list (filter (\<lambda>q. q \<noteq> z) (map f xs)) y = card {x \<in> set xs. f x = y}"
  using assms
proof (induction xs)
  case (Cons x xs)
  have "{v \<in> set (x # xs). f v = y} = (if f x = y then insert x {v \<in> set xs. f v = y} else {v \<in> set xs. f v = y})"
    by auto
  then show ?case using Cons by auto
qed simp

lemma count_loop_peers:
  assumes "q \<noteq> UCC_KN_PEER_NULL"
  shows "count_list (loop_peers p r) q = card {s \<in> {1..<kp_radix p}. ucc_knomial_pattern_get_loop_peer p r s = q}"
  unfolding loop_peers_def using count_list_map_filter [of "[1..<kp_radix p]" q UCC_KN_PEER_NULL] assms by simp

lemma in_loop_not_null:
  assumes "kn_pattern_wf P e" "kn_in_loop P q"
  shows "q \<noteq> UCC_KN_PEER_NULL"
  using loop_rank_inv_not_null [OF assms(1) loop_rank_lt [OF assms]] loop_rank_inv_of [OF assms] by simp

lemma loop_peers_in_loop:
  assumes "kn_pattern_wf P e" "kp_radix_pow P = 1" "k < kp_n_iters P" "kn_in_loop P r" "q \<in> set (loop_peers (kn_at P k) r)"
  shows "kn_in_loop P q" "q \<noteq> r"
proof -
  obtain s where "0 < s" "s < kp_radix P" "ucc_knomial_pattern_get_loop_peer (kn_at P k) r s = q" "q \<noteq> UCC_KN_PEER_NULL"
    using assms(5) by (auto simp: loop_peers_def kn_at_fields Suc_le_eq)
  from kn_peer_symmetric_wf [OF assms(1-4) this] show "kn_in_loop P q" "q \<noteq> r" by simp_all
qed

lemma count_peers_le:
  assumes wf: "kn_pattern_wf P e" "kp_radix_pow P = 1" "k < kp_n_iters P" and r: "kn_in_loop P r" "kn_in_loop P q"
  shows "count_list (loop_peers (kn_at P k) r) q \<le> count_list (loop_peers (kn_at P k) q) r"
proof -
  let ?f = "ucc_knomial_pattern_get_loop_peer (kn_at P k)" and ?R = "kp_radix P"
  let ?A = "{s \<in> {1..<?R}. ?f r s = q}" and ?B = "{s \<in> {1..<?R}. ?f q s = r}"
  have "?R - s \<in> ?B" if "s \<in> ?A" for s
    using kn_peer_symmetric_wf [OF wf r(1), of s q] in_loop_not_null [OF wf(1) r(2)] that by auto
  moreover have "inj_on (\<lambda>s. ?R - s) ?A" by (auto simp: inj_on_def)
  moreover have "finite ?B" by simp
  ultimately have "card ?A \<le> card ?B" by (intro card_inj_on_le [of "\<lambda>s. ?R - s"]) auto
  then show ?thesis
    using in_loop_not_null [OF wf(1) r(1)] in_loop_not_null [OF wf(1) r(2)] by (simp add: count_loop_peers kn_at_fields)
qed

lemma count_peers_sym:
  assumes "kn_pattern_wf P e" "kp_radix_pow P = 1" "k < kp_n_iters P" "kn_in_loop P r" "kn_in_loop P q"
  shows "count_list (loop_peers (kn_at P k) r) q = count_list (loop_peers (kn_at P k) q) r"
  using count_peers_le [OF assms] count_peers_le [OF assms(1-3,5,4)] by simp

lemma count_upto_sym:
  assumes "kn_pattern_wf P e" "kp_radix_pow P = 1" "k \<le> kp_n_iters P" "kn_in_loop P r" "kn_in_loop P q"
  shows "count_list (peers_upto P r k) q = count_list (peers_upto P q k) r"
  using assms(3)
proof (induction k)
  case (Suc k)
  then show ?case using count_peers_sym [OF assms(1,2) _ assms(4,5), of k] by (simp add: peers_upto_Suc)
qed (simp add: peers_upto_def)

lemma count_upto_mono: "k \<le> j \<Longrightarrow> count_list (peers_upto P r k) q \<le> count_list (peers_upto P r j) q"
  by (induction j) (auto simp: peers_upto_Suc le_Suc_eq)

lemma count_upto_strict:
  assumes "q \<in> set (loop_peers (kn_at P k) r)" "j \<le> k"
  shows "count_list (peers_upto P r j) q < count_list (peers_upto P r (Suc k)) q"
proof -
  have "0 < count_list (loop_peers (kn_at P k) r) q" using assms(1) by (metis count_list_0_iff gr0I)
  then show ?thesis using count_upto_mono [OF assms(2), of P r q] by (simp add: peers_upto_Suc)
qed

lemma peers_upto_in_loop:
  assumes "kn_pattern_wf P e" "kp_radix_pow P = 1" "k \<le> kp_n_iters P" "kn_in_loop P r" "q \<in> set (peers_upto P r k)"
  shows "kn_in_loop P q"
  using assms(3,5)
proof (induction k)
  case (Suc k)
  then show ?case using loop_peers_in_loop(1) [OF assms(1,2) _ assms(4), of k q] by (auto simp: peers_upto_Suc)
qed (simp add: peers_upto_def)

lemma length_peers_upto: "length (peers_upto P r k) \<le> k * (kp_radix P - 1)"
proof (induction k)
  case (Suc k)
  have "length (loop_peers (kn_at P k) r) \<le> kp_radix P - 1"
    unfolding loop_peers_def using length_filter_le [of _ "map _ [1..<kp_radix (kn_at P k)]"] by (simp add: kn_at_fields)
  then show ?case using Suc by (simp add: peers_upto_Suc)
qed (simp add: peers_upto_def)

lemma loop_peers_same_tree:
  assumes "kn_same_tree p q"
  shows "loop_peers p r = loop_peers q r"
proof -
  have "ucc_knomial_pattern_get_loop_peer p r = ucc_knomial_pattern_get_loop_peer q r"
    by (rule ext) (rule kn_same_tree_peer(1) [OF assms])
  then show ?thesis using assms by (simp add: loop_peers_def kn_same_tree_def)
qed

section \<open>The invariant\<close>

text \<open>
  \<open>P\<close> is the pattern of the team: it describes the tree that every rank's own pattern describes. The kind
  of node of a rank, the rounds whose messages a task has posted, and all messages it has posted
  when it stands at its label.
\<close>

definition kn_node_of :: "ucc_knomial_pattern \<Rightarrow> ucc_rank \<Rightarrow> kn_node" where
  "kn_node_of P r = (if r < 2 * kp_n_extra P then (if odd r then KN_NODE_EXTRA else KN_NODE_PROXY) else KN_NODE_BASE)"

definition bar_rounds :: "ucc_tl_ucp_task \<Rightarrow> nat" where
  "bar_rounds t = (if tt_phase t = UCC_KN_PHASE_LOOP \<and> \<not> ucc_knomial_pattern_loop_done (tt_p t)
     then kp_iteration (tt_p t) + 1 else kp_iteration (tt_p t))"

definition bar_sends :: "ucc_knomial_pattern \<Rightarrow> ucc_rank \<Rightarrow> ucc_tl_ucp_task \<Rightarrow> ucc_rank list" where
  "bar_sends P r t =
     (if kn_node_of P r = KN_NODE_EXTRA then (if tt_phase t = UCC_KN_PHASE_INIT then [] else [r - 1])
      else peers_upto P r (bar_rounds t) @ (if tt_phase t = UCC_KN_PHASE_PROXY then [r + 1] else []))"

definition bar_recvs :: "ucc_knomial_pattern \<Rightarrow> ucc_rank \<Rightarrow> ucc_tl_ucp_task \<Rightarrow> ucc_rank list" where
  "bar_recvs P r t =
     (if kn_node_of P r = KN_NODE_EXTRA then (if tt_phase t = UCC_KN_PHASE_INIT then [] else [r - 1])
      else (if kn_node_of P r = KN_NODE_PROXY \<and> tt_phase t \<noteq> UCC_KN_PHASE_INIT then [r + 1] else [])
        @ peers_upto P r (bar_rounds t))"

definition pat_ok :: "ucc_knomial_pattern \<Rightarrow> ucc_rank \<Rightarrow> ucc_knomial_pattern \<Rightarrow> bool" where
  "pat_ok P r p \<longleftrightarrow> kn_same_tree p (kn_at P (kp_iteration p)) \<and> kp_iteration p \<le> kp_n_iters P
     \<and> kp_n_iters p = kp_n_iters P \<and> kp_node_type p = kn_node_of P r"

definition bar_task_ok :: "ucc_knomial_pattern \<Rightarrow> ucc_rank \<Rightarrow> ucc_tl_ucp_task \<Rightarrow> bool" where
  "bar_task_ok P r t \<longleftrightarrow> pat_ok P r (tt_p t) \<and>
     (case tt_phase t of
        UCC_KN_PHASE_INIT \<Rightarrow> kp_iteration (tt_p t) = 0 \<and> tt_status t = UCC_INPROGRESS
      | UCC_KN_PHASE_EXTRA \<Rightarrow> kp_iteration (tt_p t) = 0 \<and> (tt_status t = UCC_OK \<longrightarrow> kn_node_of P r = KN_NODE_EXTRA)
      | UCC_KN_PHASE_LOOP \<Rightarrow> kn_node_of P r \<noteq> KN_NODE_EXTRA \<and> (tt_status t \<noteq> UCC_OK \<longleftrightarrow> kp_iteration (tt_p t) < kp_n_iters P)
          \<and> (tt_status t = UCC_OK \<longrightarrow> kn_node_of P r = KN_NODE_BASE)
      | UCC_KN_PHASE_PROXY \<Rightarrow> kn_node_of P r = KN_NODE_PROXY \<and> kp_iteration (tt_p t) = kp_n_iters P
      | _ \<Rightarrow> False)"

text \<open>The ledger of a rank agrees with its task; a rank that failed may have posted less.\<close>

definition bar_ledger_ok :: "ucc_knomial_pattern \<Rightarrow> nat \<Rightarrow> bar_sys \<Rightarrow> ucc_rank \<Rightarrow> bool" where
  "bar_ledger_ok P n s r \<longleftrightarrow> (let t = bs_task s r in
     (\<forall>q. bs_sent s r q \<le> count_list (bar_sends P r t) q) \<and> (\<forall>q. bs_rposted s r q \<le> count_list (bar_recvs P r t) q)
     \<and> (\<forall>q. bs_rdone s r q \<le> bs_rposted s r q \<and> bs_rdone s r q \<le> bs_sent s q r)
     \<and> (tt_status t = UCC_OK \<or> tt_status t = UCC_INPROGRESS \<longrightarrow>
          (\<forall>q. bs_sent s r q = count_list (bar_sends P r t) q) \<and> (\<forall>q. bs_rposted s r q = count_list (bar_recvs P r t) q)
          \<and> tt_recv_posted t = u32 (\<Sum>q<n. bs_rposted s r q) \<and> tt_recv_completed t = u32 (\<Sum>q<n. bs_rdone s r q)))"

text \<open>A rank in iteration \<open>k\<close> knows of the ranks whose contribution reached it; all of them have started.\<close>

definition bar_knows :: "ucc_knomial_pattern \<Rightarrow> nat \<Rightarrow> bar_sys \<Rightarrow> ucc_rank \<Rightarrow> bool" where
  "bar_knows P n s r \<longleftrightarrow> (let t = bs_task s r in
     (tt_phase t = UCC_KN_PHASE_LOOP \<or> tt_phase t = UCC_KN_PHASE_PROXY \<longrightarrow>
        (\<forall>x\<in>#kn_combined P (kp_iteration (tt_p t)) r. bs_started s x))
     \<and> (tt_status t = UCC_OK \<longrightarrow> (\<forall>x<n. bs_started s x)))"

definition bar_inv :: "ucc_knomial_pattern \<Rightarrow> nat \<Rightarrow> bar_sys \<Rightarrow> bool" where
  "bar_inv P n s \<longleftrightarrow>
     (\<forall>r. \<not> (r < n \<and> bs_started s r) \<longrightarrow> bs_sent s r = (\<lambda>_. 0) \<and> bs_rposted s r = (\<lambda>_. 0) \<and> bs_rdone s r = (\<lambda>_. 0))
     \<and> (\<forall>r. r < n \<and> bs_started s r \<longrightarrow> bar_task_ok P r (bs_task s r) \<and> bar_ledger_ok P n s r \<and> bar_knows P n s r)"

section \<open>Posting\<close>

lemma u32_add_left: "u32 (u32 a + b) = u32 (a + b)"
  by (simp add: u32_def mod_add_left_eq)

text \<open>What a sequence of posts does: all of it, or a prefix and an error.\<close>

fun n_recvs :: "p2p_op list \<Rightarrow> nat" where
  "n_recvs [] = 0"
| "n_recvs (P2p_send q # ops) = n_recvs ops"
| "n_recvs (P2p_recv q # ops) = Suc (n_recvs ops)"

lemma n_recvs_simps [simp]: "n_recvs (xs @ ys) = n_recvs xs + n_recvs ys" "n_recvs (map P2p_send qs) = 0"
  "n_recvs (map P2p_recv qs) = length qs"
  by (induction xs rule: n_recvs.induct) (simp_all, (induction qs; simp)+)

lemma post_op_facts:
  assumes "net_async net" "post_op net op t = (st, t1)"
  shows "tt_p t1 = tt_p t \<and> tt_phase t1 = tt_phase t \<and> tt_recv_completed t1 = tt_recv_completed t \<and> tt_status t1 = tt_status t
    \<and> tt_recv_posted t1 = (if \<exists>q. op = P2p_recv q then u32 (tt_recv_posted t + 1) else tt_recv_posted t) \<and> st \<noteq> UCC_INPROGRESS"
proof -
  consider "snd (net op) = Req_pending" | e where "snd (net op) = Req_err e" "e \<noteq> UCS_OK" "e \<noteq> UCS_INPROGRESS"
    using assms(1) by (auto simp: net_async_def)
  then show ?thesis
  proof cases
    case 1
    then show ?thesis
      using assms(2) by (cases op) (auto simp: ucc_tl_ucp_send_nb_def ucc_tl_ucp_recv_nb_def Let_def split: if_splits)
  next
    case 2
    then show ?thesis using assms(2)
      by (cases op; cases e) (auto simp: ucc_tl_ucp_send_nb_def ucc_tl_ucp_recv_nb_def Let_def split: if_splits)
  qed
qed

lemma post_ops_facts:
  assumes "net_async net" "post_ops net ops t = (ok, t', posted)"
  shows "tt_p t' = tt_p t \<and> tt_phase t' = tt_phase t \<and> tt_recv_completed t' = tt_recv_completed t
    \<and> (\<forall>op. count_list posted op \<le> count_list ops op)
    \<and> (if ok then posted = ops \<and> tt_status t' = tt_status t
         \<and> (\<forall>x. tt_recv_posted t = u32 x \<longrightarrow> tt_recv_posted t' = u32 (x + n_recvs ops))
       else tt_status t' \<noteq> UCC_OK \<and> tt_status t' \<noteq> UCC_INPROGRESS)"
  using assms(2)
proof (induction ops arbitrary: t ok t' posted)
  case (Cons op ops)
  obtain st t1 where p1: "post_op net op t = (st, t1)" by (cases "post_op net op t")
  note f = post_op_facts [OF assms(1) p1]
  show ?case
  proof (cases "st = UCC_OK")
    case True
    obtain ok2 t2 post2 where p2: "post_ops net ops t1 = (ok2, t2, post2)" by (cases "post_ops net ops t1") auto
    have "ok = ok2" "t' = t2" "posted = op # post2" using Cons.prems True p1 p2 by simp_all
    moreover have "tt_recv_posted t1 = u32 (x + n_recvs [op])" if "tt_recv_posted t = u32 x" for x
      using f that u32_add_left [of x 1] by (cases op) simp_all
    moreover have "n_recvs (op # ops) = n_recvs [op] + n_recvs ops" by (cases op) simp_all
    ultimately show ?thesis using Cons.IH [OF p2] f by (auto simp: add.assoc)
  next
    case False
    then show ?thesis using Cons.prems p1 f by auto
  qed
qed auto

section \<open>Steps keep the invariant\<close>

definition bar_tree :: "ucc_knomial_pattern \<Rightarrow> nat \<Rightarrow> bool" where
  "bar_tree P n \<longleftrightarrow> (\<exists>e. kn_pattern_wf P e) \<and> kp_radix_pow P = 1 \<and> kp_size P = n \<and> 2 \<le> n"

lemma bar_nodes:
  assumes "bar_tree P n" "r < n"
  shows "kn_in_loop P r \<longleftrightarrow> kn_node_of P r \<noteq> KN_NODE_EXTRA"
    "kn_node_of P r = KN_NODE_PROXY \<Longrightarrow> r + 1 < n \<and> kn_node_of P (r + 1) = KN_NODE_EXTRA \<and> u32 (r + 1) = r + 1"
    "kn_node_of P r = KN_NODE_EXTRA \<Longrightarrow> 0 < r \<and> kn_node_of P (r - 1) = KN_NODE_PROXY \<and> sub32 r 1 = r - 1"
proof -
  obtain e where wf: "kn_pattern_wf P e" and n: "kp_size P = n" using assms(1) by (auto simp: bar_tree_def)
  note f = kn_wf_facts(3,5) [OF wf, unfolded n]
  show "kn_in_loop P r \<longleftrightarrow> kn_node_of P r \<noteq> KN_NODE_EXTRA" using assms(2) n by (auto simp: kn_in_loop_def kn_node_of_def)
  show "r + 1 < n \<and> kn_node_of P (r + 1) = KN_NODE_EXTRA \<and> u32 (r + 1) = r + 1" if "kn_node_of P r = KN_NODE_PROXY"
  proof -
    have "even r" "r < 2 * kp_n_extra P" using that by (auto simp: kn_node_of_def split: if_splits)
    then have lt: "r + 1 < 2 * kp_n_extra P" by (auto elim!: evenE)
    then have "r + 1 < n" using f by linarith
    then show ?thesis using lt \<open>even r\<close> f by (simp add: kn_node_of_def u32_id)
  qed
  show "0 < r \<and> kn_node_of P (r - 1) = KN_NODE_PROXY \<and> sub32 r 1 = r - 1" if "kn_node_of P r = KN_NODE_EXTRA"
  proof -
    have "odd r" "r < 2 * kp_n_extra P" using that by (auto simp: kn_node_of_def split: if_splits)
    then show ?thesis using f assms(2) by (auto simp: kn_node_of_def sub32_id elim!: oddE)
  qed
qed

lemma sum_count_recvs:
  assumes "\<And>q. P2p_recv q \<in> set ops \<Longrightarrow> q < n"
  shows "(\<Sum>q<n. count_list ops (P2p_recv q)) = n_recvs ops"
  using assms
proof (induction ops rule: n_recvs.induct)
  case (3 q ops)
  have "(\<Sum>x<n. count_list (P2p_recv q # ops) (P2p_recv x)) = (\<Sum>x<n. of_bool (x = q) + count_list ops (P2p_recv x))"
    by (intro sum.cong) auto
  also have "\<dots> = 1 + (\<Sum>x<n. count_list ops (P2p_recv x))" using 3(2) [of q] by (simp add: sum.distrib of_bool_def)
  finally show ?case using 3 by simp
qed auto

lemma bar_sys_simps [simp]:
  "bs_started (note_ops r ops s) = bs_started s" "bs_task (note_ops r ops s) = bs_task s" "bs_rdone (note_ops r ops s) = bs_rdone s"
  "bs_sent (note_ops r ops s) x = (if x = r then (\<lambda>q. bs_sent s r q + count_list ops (P2p_send q)) else bs_sent s x)"
  "bs_rposted (note_ops r ops s) x = (if x = r then (\<lambda>q. bs_rposted s r q + count_list ops (P2p_recv q)) else bs_rposted s x)"
  "bs_started (set_task r t s) = bs_started s" "bs_task (set_task r t s) x = (if x = r then t else bs_task s x)"
  "bs_rdone (set_task r t s) = bs_rdone s" "bs_sent (set_task r t s) = bs_sent s" "bs_rposted (set_task r t s) = bs_rposted s"
  by (simp_all add: note_ops_def set_task_def)

lemma bar_knows_cong: "bs_task s' x = bs_task s x \<Longrightarrow> bs_started s' = bs_started s \<Longrightarrow> bar_knows P n s' x = bar_knows P n s x"
  by (simp only: bar_knows_def)

lemma bar_invD:
  assumes "bar_inv P n s" "x < n" "bs_started s x"
  shows "bar_task_ok P x (bs_task s x)" "bar_ledger_ok P n s x" "bar_knows P n s x"
  using assms unfolding bar_inv_def by blast+

lemma bar_inv_run:
  assumes inv: "bar_inv P n s" and r: "r < n" "bs_started s r" and st: "tt_status (bs_task s r) = UCC_INPROGRESS"
    and ok: "bar_task_ok P r t'"
    and snd: "\<And>q. count_list (bar_sends P r t') q = count_list (bar_sends P r (bs_task s r)) q + count_list ops (P2p_send q)"
    and rcv: "\<And>q. count_list (bar_recvs P r t') q = count_list (bar_recvs P r (bs_task s r)) q + count_list ops (P2p_recv q)"
    and posted: "\<And>op. count_list posted op \<le> count_list ops op"
    and all: "tt_status t' = UCC_OK \<or> tt_status t' = UCC_INPROGRESS \<Longrightarrow> posted = ops
      \<and> (\<forall>x. tt_recv_posted (bs_task s r) = u32 x \<longrightarrow> tt_recv_posted t' = u32 (x + n_recvs ops))"
    and rc: "tt_recv_completed t' = tt_recv_completed (bs_task s r)"
    and tgt: "\<And>q. P2p_recv q \<in> set ops \<Longrightarrow> q < n"
    and knows: "bar_knows P n (set_task r t' s) r"
  shows "bar_inv P n (note_ops r posted (set_task r t' s))"
proof -
  let ?s = "note_ops r posted (set_task r t' s)"
  have L: "bar_ledger_ok P n s r" by (rule bar_invD(2) [OF inv r])
  have mono: "bs_sent s x q \<le> bs_sent ?s x q" "bs_rposted s x q \<le> bs_rposted ?s x q" for x q by simp_all
  have "bar_ledger_ok P n ?s r"
  proof -
    let ?t = "bs_task s r"
    have e: "bs_sent s r q = count_list (bar_sends P r ?t) q" "bs_rposted s r q = count_list (bar_recvs P r ?t) q"
      and c: "tt_recv_posted ?t = u32 (\<Sum>q<n. bs_rposted s r q)" "tt_recv_completed ?t = u32 (\<Sum>q<n. bs_rdone s r q)"
      and d: "bs_rdone s r q \<le> bs_rposted s r q" "bs_rdone s r q \<le> bs_sent s q r" for q
      using L [unfolded bar_ledger_ok_def Let_def] st by blast+
    have sum: "(\<Sum>q<n. bs_rposted s r q + count_list ops (P2p_recv q)) = (\<Sum>q<n. bs_rposted s r q) + n_recvs ops"
      using sum_count_recvs [OF tgt] by (simp only: sum.distrib)
    have "bs_sent ?s r q \<le> count_list (bar_sends P r t') q" "bs_rposted ?s r q \<le> count_list (bar_recvs P r t') q" for q
      using posted by (simp_all add: e snd rcv)
    moreover have "bs_rdone ?s r q \<le> bs_rposted ?s r q" "bs_rdone ?s r q \<le> bs_sent ?s q r" for q
      using d(1) [of q] le_trans [OF d(2) [of q] mono(1)] by simp_all
    moreover have "bs_sent ?s r q = count_list (bar_sends P r t') q" "bs_rposted ?s r q = count_list (bar_recvs P r t') q"
      "tt_recv_posted t' = u32 (\<Sum>q<n. bs_rposted ?s r q)" "tt_recv_completed t' = u32 (\<Sum>q<n. bs_rdone ?s r q)"
      if "tt_status t' = UCC_OK \<or> tt_status t' = UCC_INPROGRESS" for q
      using all [OF that] c rc sum by (simp_all add: e(1) snd rcv) (simp_all add: e(2))
    ultimately show ?thesis by (simp add: bar_ledger_ok_def Let_def del: bar_sys_simps(3-5))
  qed
  moreover have "bar_ledger_ok P n ?s x" if "x < n" "bs_started s x" "x \<noteq> r" for x
  proof -
    note l = bar_invD(2) [OF inv that(1,2), unfolded bar_ledger_ok_def Let_def]
    then have "bs_rdone s x q \<le> bs_sent ?s q x" for q using le_trans [OF _ mono(1)] by blast
    then show ?thesis using that(3) l unfolding bar_ledger_ok_def Let_def by (simp del: bar_sys_simps(4))
      (simp add: bar_sys_simps(4))
  qed
  moreover have "bar_knows P n ?s x" if "x < n" "bs_started s x" for x
  proof (cases "x = r")
    case True
    then show ?thesis using knows bar_knows_cong [of ?s r "set_task r t' s"] by simp
  next
    case False
    then show ?thesis using bar_invD(3) [OF inv that] bar_knows_cong [of ?s x s] by simp
  qed
  moreover have "bar_task_ok P x (bs_task ?s x)" if "x < n" "bs_started s x" for x
    using bar_invD(1) [OF inv that] ok by simp
  moreover have "bs_sent ?s x = (\<lambda>_. 0) \<and> bs_rposted ?s x = (\<lambda>_. 0) \<and> bs_rdone ?s x = (\<lambda>_. 0)" if "\<not> (x < n \<and> bs_started s x)" for x
  proof -
    have "x \<noteq> r" using that r by blast
    then show ?thesis using inv that by (simp add: bar_inv_def)
  qed
  ultimately show ?thesis unfolding bar_inv_def bar_sys_simps(1,6) by blast
qed

section \<open>What a completed round tells\<close>

lemma kn_combined_mono: "i \<le> j \<Longrightarrow> kn_combined P i r \<subseteq># kn_combined P j r"
proof (induction j)
  case (Suc j)
  have "kn_combined P j r \<subseteq># kn_combined P (Suc j) r" by simp
  then show ?case using Suc by (metis le_Suc_eq subset_mset.order_refl subset_mset.order_trans)
qed simp

lemma bar_tree_iters:
  assumes "bar_tree P n"
  shows "0 < kp_n_iters P" "kp_n_iters P < 256" "kp_radix P < 2 ^ 16"
proof -
  obtain e where wf: "kn_pattern_wf P e" and n: "kp_size P = n" "2 \<le> n" using assms by (auto simp: bar_tree_def)
  show "0 < kp_n_iters P" "kp_n_iters P < 256" using wf n by (cases e; auto simp: kn_pattern_wf_def Let_def)+
  show "kp_radix P < 2 ^ 16" by (rule kn_wf_facts(2) [OF wf])
qed

lemma bar_all_combined:
  assumes "bar_tree P n" "kn_in_loop P r" "x < n"
  shows "x \<in># kn_combined P (kp_n_iters P) r"
proof -
  obtain e where wf: "kn_pattern_wf P e" "kp_radix_pow P = 1" and n: "kp_size P = n" using assms(1) by (auto simp: bar_tree_def)
  have "ucc_knomial_pattern_loop_rank P y div kp_radix P ^ kp_n_iters P = 0" if "y < n" for y
    using all_loop_rank_lt [OF wf(1), of y] kn_wf_facts(9) [OF wf(1)] that n by simp
  then have "count (kn_combined P (kp_n_iters P) r) x = 1"
    using count_kn_combined [OF wf order_refl assms(2), of x] assms(2,3) n by (simp add: kn_in_loop_def)
  then show ?thesis by (metis count_inI zero_neq_one)
qed

lemma bar_rounds_facts:
  assumes "pat_ok P r (tt_p t)"
  shows "bar_rounds t \<le> kp_n_iters P" "bar_rounds t \<le> kp_iteration (tt_p t) + 1" "kp_iteration (tt_p t) \<le> bar_rounds t"
  using assms by (auto simp: pat_ok_def bar_rounds_def ucc_knomial_pattern_loop_done_def)

lemma sum_count_le: "(\<Sum>q<n. count_list xs q) \<le> length (xs :: nat list)"
proof (induction xs)
  case (Cons x xs)
  have "(\<Sum>q<n. count_list (x # xs) q) = (\<Sum>q<n. of_bool (q = x) + count_list xs q)" by (intro sum.cong) auto
  also have "\<dots> = (\<Sum>q<n. of_bool (q = x)) + (\<Sum>q<n. count_list xs q)" by (rule sum.distrib)
  also have "(\<Sum>q<n. of_bool (q = x)) \<le> (1::nat)" by (simp add: of_bool_def)
  finally show ?case using Cons by simp
qed simp

text \<open>When the counters agree, every receive that was posted has completed.\<close>

lemma bar_all_received:
  assumes tree: "bar_tree P n" and inv: "bar_inv P n s" and r: "r < n" "bs_started s r"
    and st: "tt_status (bs_task s r) = UCC_INPROGRESS" and c: "UCC_TL_UCP_TASK_P2P_COMPLETE (bs_task s r)" and q: "q < n"
  shows "count_list (bar_recvs P r (bs_task s r)) q \<le> bs_sent s q r"
proof -
  let ?t = "bs_task s r"
  note l = bar_invD(2) [OF inv r, unfolded bar_ledger_ok_def Let_def]
  have e: "bs_rposted s r x = count_list (bar_recvs P r ?t) x" and d: "bs_rdone s r x \<le> bs_rposted s r x" "bs_rdone s r x \<le> bs_sent s x r"
    and eq: "u32 (\<Sum>x<n. bs_rposted s r x) = u32 (\<Sum>x<n. bs_rdone s r x)" for x
    using l st c by (auto simp: UCC_TL_UCP_TASK_P2P_COMPLETE_def)
  have pat: "pat_ok P r (tt_p ?t)" using bar_invD(1) [OF inv r] by (simp add: bar_task_ok_def)
  have "length (peers_upto P r (bar_rounds ?t)) \<le> bar_rounds ?t * (kp_radix P - 1)" by (rule length_peers_upto)
  also have "\<dots> \<le> 256 * 2 ^ 16"
    using bar_rounds_facts(1) [OF pat] bar_tree_iters [OF tree] by (intro mult_le_mono) simp_all
  finally have "length (bar_recvs P r ?t) < 2 ^ 32" by (simp add: bar_recvs_def)
  moreover have "(\<Sum>x<n. bs_rposted s r x) \<le> length (bar_recvs P r ?t)" unfolding e by (rule sum_count_le)
  moreover have le: "(\<Sum>x<n. bs_rdone s r x) \<le> (\<Sum>x<n. bs_rposted s r x)" using d(1) by (intro sum_mono)
  ultimately have "(\<Sum>x<n. bs_rposted s r x) < 2 ^ 32" "(\<Sum>x<n. bs_rdone s r x) < 2 ^ 32" by linarith+
  then have "(\<Sum>x<n. bs_rdone s r x) = (\<Sum>x<n. bs_rposted s r x)" using eq u32_id by metis
  then have "bs_rdone s r q = bs_rposted s r q" by (rule sum_mono_inv) (use d(1) q in auto)
  then show ?thesis using e [of q] d(2) [of q] by linarith
qed

lemma bar_sent_started:
  assumes "bar_inv P n s" "0 < bs_sent s q r"
  shows "q < n" "bs_started s q"
  using assms unfolding bar_inv_def by (metis less_numeral_extra(3))+

text \<open>A peer that has sent its message of iteration \<open>k\<close> has completed the iterations before.\<close>

lemma bar_peer_known:
  assumes tree: "bar_tree P n" and inv: "bar_inv P n s" and r: "kn_in_loop P r" and k: "k < kp_n_iters P"
    and q: "q \<in> set (loop_peers (kn_at P k) r)" and le: "count_list (peers_upto P r (Suc k)) q \<le> bs_sent s q r"
    and x: "x \<in># kn_combined P k q"
  shows "bs_started s x"
proof -
  obtain e where wf: "kn_pattern_wf P e" "kp_radix_pow P = 1" and n: "kp_size P = n" using tree by (auto simp: bar_tree_def)
  have ql: "kn_in_loop P q" by (rule loop_peers_in_loop(1) [OF wf k r q])
  have "0 < bs_sent s q r" using le count_upto_strict [OF q, of 0] by linarith
  note qs = bar_sent_started [OF inv this]
  let ?t = "bs_task s q"
  note ok = bar_invD(1) [OF inv qs, unfolded bar_task_ok_def] and kn = bar_invD(3) [OF inv qs, unfolded bar_knows_def Let_def]
  have rn: "r < n" using r n by (simp add: kn_in_loop_def)
  have nq: "kn_node_of P q \<noteq> KN_NODE_EXTRA" and nr: "kn_node_of P r \<noteq> KN_NODE_EXTRA"
    using bar_nodes(1) [OF tree qs(1)] bar_nodes(1) [OF tree rn] ql r by simp_all
  have "r \<noteq> q + 1" if "tt_phase ?t = UCC_KN_PHASE_PROXY" using ok that nr bar_nodes(2) [OF tree qs(1)] by auto
  then have "count_list (bar_sends P q ?t) r = count_list (peers_upto P q (bar_rounds ?t)) r" using nq by (auto simp: bar_sends_def)
  also have "\<dots> = count_list (peers_upto P r (bar_rounds ?t)) q"
    using bar_rounds_facts(1) ok by (intro count_upto_sym [OF wf _ ql r]) blast
  finally have "bs_sent s q r \<le> count_list (peers_upto P r (bar_rounds ?t)) q"
    using conjunct1 [OF bar_invD(2) [OF inv qs, unfolded bar_ledger_ok_def Let_def]] by metis
  then have "\<not> bar_rounds ?t \<le> k" using le count_upto_strict [OF q] by (meson leD le_trans)
  then have rounds: "k < bar_rounds ?t" by simp
  then have it: "k \<le> kp_iteration (tt_p ?t)" using bar_rounds_facts(2) [of P q ?t] ok by auto
  have "tt_phase ?t = UCC_KN_PHASE_LOOP \<or> tt_phase ?t = UCC_KN_PHASE_PROXY"
    using ok rounds by (auto simp: bar_rounds_def split: kn_phase.splits if_splits)
  moreover have "x \<in># kn_combined P (kp_iteration (tt_p ?t)) q" using mset_subset_eqD [OF kn_combined_mono [OF it] x] .
  ultimately show ?thesis using kn by blast
qed

lemma bar_loop_round:
  assumes tree: "bar_tree P n" and inv: "bar_inv P n s" and r: "r < n" "bs_started s r"
    and st: "tt_status (bs_task s r) = UCC_INPROGRESS" and c: "UCC_TL_UCP_TASK_P2P_COMPLETE (bs_task s r)"
    and ph: "tt_phase (bs_task s r) = UCC_KN_PHASE_LOOP" and x: "x \<in># kn_combined P (Suc (kp_iteration (tt_p (bs_task s r)))) r"
  shows "bs_started s x"
proof -
  let ?t = "bs_task s r" and ?k = "kp_iteration (tt_p (bs_task s r))"
  have ok: "pat_ok P r (tt_p ?t)" "kn_node_of P r \<noteq> KN_NODE_EXTRA" "?k < kp_n_iters P"
    using bar_invD(1) [OF inv r] ph st by (auto simp: bar_task_ok_def)
  have loop: "kn_in_loop P r" using bar_nodes(1) [OF tree r(1)] ok(2) by simp
  obtain e where wf: "kn_pattern_wf P e" "kp_radix_pow P = 1" and n: "kp_size P = n" using tree by (auto simp: bar_tree_def)
  have rounds: "bar_rounds ?t = Suc ?k" using ok ph by (simp add: bar_rounds_def ucc_knomial_pattern_loop_done_def pat_ok_def)
  consider "x \<in># kn_combined P ?k r"
    | sp where "sp \<in> {1..<kp_radix P}" "ucc_knomial_pattern_get_loop_peer (kn_at P ?k) r sp \<noteq> UCC_KN_PEER_NULL"
      "x \<in># kn_combined P ?k (ucc_knomial_pattern_get_loop_peer (kn_at P ?k) r sp)"
    using x by (auto simp: Let_def set_mset_sum split: if_splits)
  then show ?thesis
  proof cases
    case 1
    then show ?thesis using bar_invD(3) [OF inv r] ph by (auto simp: bar_knows_def Let_def)
  next
    case 2
    let ?q = "ucc_knomial_pattern_get_loop_peer (kn_at P ?k) r sp"
    have q: "?q \<in> set (loop_peers (kn_at P ?k) r)" using 2(1,2) by (auto simp: loop_peers_def kn_at_fields)
    have "?q < n" using loop_peers_in_loop(1) [OF wf ok(3) loop q] n by (simp add: kn_in_loop_def)
    then have "count_list (bar_recvs P r ?t) ?q \<le> bs_sent s ?q r" by (rule bar_all_received [OF tree inv r st c])
    then have "count_list (peers_upto P r (Suc ?k)) ?q \<le> bs_sent s ?q r" using ok(2) rounds by (simp add: bar_recvs_def)
    then show ?thesis by (rule bar_peer_known [OF tree inv loop ok(3) q _ 2(3)])
  qed
qed

lemma bar_extra_round:
  assumes tree: "bar_tree P n" and inv: "bar_inv P n s" and r: "r < n" "bs_started s r"
    and st: "tt_status (bs_task s r) = UCC_INPROGRESS" and rd: "bar_ready (bs_task s r)"
    and ph: "tt_phase (bs_task s r) = UCC_KN_PHASE_EXTRA"
  shows "kn_node_of P r \<noteq> KN_NODE_EXTRA \<Longrightarrow> x \<in># kn_combined P 0 r \<Longrightarrow> bs_started s x"
    "kn_node_of P r = KN_NODE_EXTRA \<Longrightarrow> x < n \<Longrightarrow> bs_started s x"
proof -
  let ?t = "bs_task s r"
  have nt: "kp_node_type (tt_p ?t) = kn_node_of P r" using bar_invD(1) [OF inv r] by (simp add: bar_task_ok_def pat_ok_def)
  show "bs_started s x" if nx: "kn_node_of P r \<noteq> KN_NODE_EXTRA" and x: "x \<in># kn_combined P 0 r"
  proof (cases "x = r")
    case False
    then have pr: "kn_node_of P r = KN_NODE_PROXY" "x = ucc_knomial_pattern_get_extra P r"
      using x nx by (auto simp: kn_node_of_def split: if_splits)
    note nd = bar_nodes(2) [OF tree r(1) pr(1)]
    have c: "UCC_TL_UCP_TASK_P2P_COMPLETE ?t" using rd ph nt pr(1) by (simp add: bar_ready_def bar_tests_def)
    have "count_list (bar_recvs P r ?t) (r + 1) \<le> bs_sent s (r + 1) r"
      using nd by (intro bar_all_received [OF tree inv r st c]) simp
    then have "0 < bs_sent s (r + 1) r" using pr(1) ph by (simp add: bar_recvs_def)
    from bar_sent_started(2) [OF inv this] show ?thesis using pr(2) nd by (simp add: ucc_knomial_pattern_get_extra_def)
  qed (use r in simp)
  show "bs_started s x" if ex: "kn_node_of P r = KN_NODE_EXTRA" and x: "x < n"
  proof -
    note nd = bar_nodes(3) [OF tree r(1) ex]
    have c: "UCC_TL_UCP_TASK_P2P_COMPLETE ?t" using rd ph nt ex by (simp add: bar_ready_def bar_tests_def)
    let ?q = "r - 1"
    have "count_list (bar_recvs P r ?t) ?q \<le> bs_sent s ?q r" using r(1) by (intro bar_all_received [OF tree inv r st c]) simp
    then have pos: "0 < bs_sent s ?q r" using ex ph by (simp add: bar_recvs_def)
    note qs = bar_sent_started [OF inv pos]
    have le: "bs_sent s ?q r \<le> count_list (bar_sends P ?q (bs_task s ?q)) r"
      using conjunct1 [OF bar_invD(2) [OF inv qs, unfolded bar_ledger_ok_def Let_def]] by blast
    obtain e where wf: "kn_pattern_wf P e" "kp_radix_pow P = 1" using tree by (auto simp: bar_tree_def)
    have ok: "pat_ok P ?q (tt_p (bs_task s ?q))" using bar_invD(1) [OF inv qs] by (simp add: bar_task_ok_def)
    have loop: "kn_in_loop P ?q" "\<not> kn_in_loop P r" using bar_nodes(1) [OF tree] qs(1) r(1) nd ex by simp_all
    have "r \<notin> set (peers_upto P ?q (bar_rounds (bs_task s ?q)))"
      using peers_upto_in_loop [OF wf bar_rounds_facts(1) [OF ok] loop(1)] loop(2) by blast
    then have "tt_phase (bs_task s ?q) = UCC_KN_PHASE_PROXY"
      using le pos nd by (auto simp: bar_sends_def split: if_splits)
    then have "\<forall>y\<in>#kn_combined P (kp_n_iters P) ?q. bs_started s y"
      using bar_invD(1,3) [OF inv qs] by (auto simp: bar_task_ok_def bar_knows_def Let_def)
    then show ?thesis using bar_all_combined [OF tree loop(1) x] by blast
  qed
qed

section \<open>The blocks keep the invariant\<close>

lemma bar_post_facts:
  assumes "net_async net" "bar_post net ops label t = (stop, t', posted)"
  shows "tt_phase t' = label" "tt_p t' = tt_p t" "tt_recv_completed t' = tt_recv_completed t" "count_list posted op \<le> count_list ops op"
    "tt_status t' = tt_status t \<and> posted = ops \<and> (\<forall>x. tt_recv_posted t = u32 x \<longrightarrow> tt_recv_posted t' = u32 (x + n_recvs ops))
      \<or> tt_status t' \<noteq> UCC_OK \<and> tt_status t' \<noteq> UCC_INPROGRESS"
proof -
  obtain ok t1 posted1 where p: "post_ops net ops t = (ok, t1, posted1)" by (cases "post_ops net ops t") auto
  then have "t' = t1\<lparr>tt_phase := label\<rparr>" "posted = posted1" using assms(2) by (auto simp: bar_post_def)
  then show "tt_phase t' = label" "tt_p t' = tt_p t" "tt_recv_completed t' = tt_recv_completed t" "count_list posted op \<le> count_list ops op"
    "tt_status t' = tt_status t \<and> posted = ops \<and> (\<forall>x. tt_recv_posted t = u32 x \<longrightarrow> tt_recv_posted t' = u32 (x + n_recvs ops))
      \<or> tt_status t' \<noteq> UCC_OK \<and> tt_status t' \<noteq> UCC_INPROGRESS"
    using post_ops_facts [OF assms(1) p] by (auto split: if_splits)
qed

lemma count_map_ops [simp]:
  "count_list (map P2p_send qs) (P2p_send q) = count_list qs q" "count_list (map P2p_recv qs) (P2p_send q) = 0"
  "count_list (map P2p_recv qs) (P2p_recv q) = count_list qs q" "count_list (map P2p_send qs) (P2p_recv q) = 0"
  by (induction qs) auto

lemma bar_loop_head_inv:
  assumes tree: "bar_tree P n" and inv: "bar_inv P n s" and r: "r < n" "bs_started s r"
    and st: "tt_status (bs_task s r) = UCC_INPROGRESS" and net: "net_async net"
    and p: "pat_ok P r p" "kn_node_of P r \<noteq> KN_NODE_EXTRA" "tt_phase (bs_task s r) \<noteq> UCC_KN_PHASE_INIT"
    and S: "bar_sends P r (bs_task s r) = peers_upto P r (kp_iteration p)"
    and R: "bar_recvs P r (bs_task s r) = (if kn_node_of P r = KN_NODE_PROXY then [r + 1] else []) @ peers_upto P r (kp_iteration p)"
    and K: "\<And>x. x \<in># kn_combined P (kp_iteration p) r \<Longrightarrow> bs_started s x"
    and ph: "tt_phase (bs_task s r) = UCC_KN_PHASE_LOOP \<or> kp_iteration p < kp_n_iters P"
    and run: "bar_loop_head net r ((bs_task s r)\<lparr>tt_p := p\<rparr>) = (stop, t', posted)"
  shows "bar_inv P n (note_ops r posted (set_task r t' s))"
proof -
  let ?t = "(bs_task s r)\<lparr>tt_p := p\<rparr>" and ?k = "kp_iteration p" and ?L = "loop_peers (kn_at P (kp_iteration p)) r"
  obtain e where wf: "kn_pattern_wf P e" "kp_radix_pow P = 1" and n: "kp_size P = n" using tree by (auto simp: bar_tree_def)
  have loop: "kn_in_loop P r" using bar_nodes(1) [OF tree r(1)] p(2) by simp
  have lp: "loop_peers p r = ?L" using p(1) by (intro loop_peers_same_tree) (simp add: pat_ok_def)
  have dn: "ucc_knomial_pattern_loop_done p \<longleftrightarrow> ?k = kp_n_iters P" using p(1) by (simp add: pat_ok_def ucc_knomial_pattern_loop_done_def)
  have nt: "kp_node_type p = kn_node_of P r" using p(1) by (simp add: pat_ok_def)
  have kle: "?k \<le> kp_n_iters P" using p(1) by (simp add: pat_ok_def)
  consider "?k < kp_n_iters P" | "?k = kp_n_iters P" "kn_node_of P r = KN_NODE_PROXY" | "?k = kp_n_iters P" "kn_node_of P r = KN_NODE_BASE"
    using kle p(2) by (cases "kn_node_of P r") linarith+
  then show ?thesis
  proof cases
    case 1
    then have post: "bar_post net (map P2p_send ?L @ map P2p_recv ?L) UCC_KN_PHASE_LOOP ?t = (stop, t', posted)"
      using run dn by (simp add: bar_loop_head_def Let_def lp)
    note f = bar_post_facts [OF net post]
    have rounds: "bar_rounds t' = Suc ?k" using f 1 dn by (simp add: bar_rounds_def)
    show ?thesis
    proof (rule bar_inv_run [OF inv r st])
      show "bar_task_ok P r t'" using f(1,2,5) p 1 st by (auto simp: bar_task_ok_def)
      show "count_list (bar_sends P r t') q = count_list (bar_sends P r (bs_task s r)) q + count_list (map P2p_send ?L @ map P2p_recv ?L) (P2p_send q)" for q
        unfolding S using f(1) p(2) rounds by (simp add: bar_sends_def peers_upto_Suc)
      show "count_list (bar_recvs P r t') q = count_list (bar_recvs P r (bs_task s r)) q + count_list (map P2p_send ?L @ map P2p_recv ?L) (P2p_recv q)" for q
        unfolding R using f(1) p(2) rounds by (simp add: bar_recvs_def peers_upto_Suc)
      show "q < n" if "P2p_recv q \<in> set (map P2p_send ?L @ map P2p_recv ?L)" for q
        using that loop_peers_in_loop(1) [OF wf 1 loop, of q] n by (auto simp: kn_in_loop_def)
      show "bar_knows P n (set_task r t' s) r" using f(2,5) K st by (auto simp: bar_knows_def Let_def)
    qed (use f(3-5) st in auto)
  next
    case 2
    note nd = bar_nodes(2) [OF tree r(1) 2(2)]
    have post: "bar_post net [P2p_send (r + 1)] UCC_KN_PHASE_PROXY ?t = (stop, t', posted)"
      using run dn 2 nt nd by (simp add: bar_loop_head_def Let_def ucc_knomial_pattern_get_extra_def)
    note f = bar_post_facts [OF net post]
    have rounds: "bar_rounds t' = ?k" using f by (simp add: bar_rounds_def)
    show ?thesis
    proof (rule bar_inv_run [OF inv r st])
      show "bar_task_ok P r t'" using f(1,2) p 2 by (simp add: bar_task_ok_def)
      show "count_list (bar_sends P r t') q = count_list (bar_sends P r (bs_task s r)) q + count_list [P2p_send (r + 1)] (P2p_send q)" for q
        unfolding S using f(1) p(2) rounds by (simp add: bar_sends_def)
      show "count_list (bar_recvs P r t') q = count_list (bar_recvs P r (bs_task s r)) q + count_list [P2p_send (r + 1)] (P2p_recv q)" for q
        unfolding R using f(1) p(2) rounds 2(2) by (simp add: bar_recvs_def)
      show "bar_knows P n (set_task r t' s) r" using f(2,5) K st by (auto simp: bar_knows_def Let_def)
    qed (use f(3-5) st in auto)
  next
    case 3
    then have fin: "t' = ?t\<lparr>tt_status := UCC_OK\<rparr>" "posted = []"
      using run dn nt by (auto simp: bar_loop_head_def Let_def bar_completion_def)
    have phl: "tt_phase (bs_task s r) = UCC_KN_PHASE_LOOP" using ph 3(1) by simp
    have rounds: "bar_rounds t' = ?k" using fin 3(1) dn by (simp add: bar_rounds_def)
    have "\<forall>x<n. bs_started s x" using K bar_all_combined [OF tree loop] 3(1) by simp
    then have kn: "bar_knows P n (set_task r t' s) r" using fin K by (simp add: bar_knows_def Let_def)
    show ?thesis
    proof (rule bar_inv_run [OF inv r st, where ops = "[]"])
      show "bar_task_ok P r t'" using fin phl p 3 by (simp add: bar_task_ok_def)
      show "count_list (bar_sends P r t') q = count_list (bar_sends P r (bs_task s r)) q + count_list [] (P2p_send q)" for q
        unfolding S using fin phl p(2) rounds by (simp add: bar_sends_def)
      show "count_list (bar_recvs P r t') q = count_list (bar_recvs P r (bs_task s r)) q + count_list [] (P2p_recv q)" for q
        unfolding R using fin phl p(2) rounds by (simp add: bar_recvs_def)
    qed (use fin kn in auto)
  qed
qed

lemma pat_ok_next:
  assumes tree: "bar_tree P n" and p: "pat_ok P r p" "kp_iteration p < kp_n_iters P"
  shows "pat_ok P r (ucc_knomial_pattern_next_iteration p)" "kp_iteration (ucc_knomial_pattern_next_iteration p) = Suc (kp_iteration p)"
proof -
  show it: "kp_iteration (ucc_knomial_pattern_next_iteration p) = Suc (kp_iteration p)"
    using p(2) bar_tree_iters(2) [OF tree] by (simp add: ucc_knomial_pattern_next_iteration_def u8_id)
  have "kn_same_tree (ucc_knomial_pattern_next_iteration p) (kn_at P (Suc (kp_iteration p)))"
    using p(1) by (simp add: pat_ok_def kn_same_tree_def kn_at_def ucc_knomial_pattern_next_iteration_def)
  then show "pat_ok P r (ucc_knomial_pattern_next_iteration p)"
    using p unfolding pat_ok_def it by (simp add: ucc_knomial_pattern_next_iteration_def)
qed

text \<open>A block that only ends the function.\<close>

lemma bar_completion_inv:
  assumes inv: "bar_inv P n s" and r: "r < n" "bs_started s r" and st: "tt_status (bs_task s r) = UCC_INPROGRESS"
    and all: "\<And>x. x < n \<Longrightarrow> bs_started s x"
    and ph: "tt_phase (bs_task s r) = UCC_KN_PHASE_PROXY \<or> tt_phase (bs_task s r) = UCC_KN_PHASE_EXTRA \<and> kn_node_of P r = KN_NODE_EXTRA"
    and run: "bar_completion (bs_task s r) = (stop, t', posted)"
  shows "bar_inv P n (note_ops r posted (set_task r t' s))"
proof (rule bar_inv_run [OF inv r st, where ops = "[]"])
  have fin: "t' = (bs_task s r)\<lparr>tt_status := UCC_OK\<rparr>" "posted = []" using run by (auto simp: bar_completion_def)
  have rounds: "bar_rounds ((bs_task s r)\<lparr>tt_status := UCC_OK\<rparr>) = bar_rounds (bs_task s r)" by (simp add: bar_rounds_def)
  show "bar_task_ok P r t'" using bar_invD(1) [OF inv r] ph fin by (auto simp: bar_task_ok_def)
  show "count_list (bar_sends P r t') q = count_list (bar_sends P r (bs_task s r)) q + count_list [] (P2p_send q)" for q
    by (simp add: bar_sends_def rounds fin)
  show "count_list (bar_recvs P r t') q = count_list (bar_recvs P r (bs_task s r)) q + count_list [] (P2p_recv q)" for q
    by (simp add: bar_recvs_def rounds fin)
  show "bar_knows P n (set_task r t' s) r" using bar_invD(3) [OF inv r] all fin by (simp add: bar_knows_def Let_def)
  show "count_list posted op \<le> count_list [] op" for op by (simp add: fin)
  show "posted = [] \<and> (\<forall>x. tt_recv_posted (bs_task s r) = u32 x \<longrightarrow> tt_recv_posted t' = u32 (x + n_recvs []))"
    by (simp add: fin)
  show "tt_recv_completed t' = tt_recv_completed (bs_task s r)" by (simp add: fin)
qed simp

lemma bar_init_inv:
  assumes tree: "bar_tree P n" and inv: "bar_inv P n s" and r: "r < n" "bs_started s r"
    and st: "tt_status (bs_task s r) = UCC_INPROGRESS" and net: "net_async net"
    and ph: "tt_phase (bs_task s r) = UCC_KN_PHASE_INIT"
    and run: "bar_post net (bar_init_ops (tt_p (bs_task s r)) r) UCC_KN_PHASE_EXTRA (bs_task s r) = (stop, t', posted)"
  shows "bar_inv P n (note_ops r posted (set_task r t' s))"
proof -
  let ?t = "bs_task s r" and ?ops = "bar_init_ops (tt_p (bs_task s r)) r"
  note f = bar_post_facts [OF net run]
  have ok: "pat_ok P r (tt_p ?t)" "kp_iteration (tt_p ?t) = 0" using bar_invD(1) [OF inv r] ph by (simp_all add: bar_task_ok_def)
  have rounds: "bar_rounds t' = 0" "bar_rounds ?t = 0" using f ok ph by (simp_all add: bar_rounds_def)
  have up: "peers_upto P r 0 = []" by (simp add: peers_upto_def)
  have ops: "?ops = (if kn_node_of P r = KN_NODE_EXTRA then [P2p_send (r - 1), P2p_recv (r - 1)]
      else if kn_node_of P r = KN_NODE_PROXY then [P2p_recv (r + 1)] else [])"
    using ok bar_nodes(2,3) [OF tree r(1)]
    by (cases "kn_node_of P r")
      (simp_all add: bar_init_ops_def pat_ok_def ucc_knomial_pattern_get_proxy_def ucc_knomial_pattern_get_extra_def)
  show ?thesis
  proof (rule bar_inv_run [OF inv r st])
    show "bar_task_ok P r t'" using f(1,2,5) ok st by (auto simp: bar_task_ok_def)
    show "count_list (bar_sends P r t') q = count_list (bar_sends P r ?t) q + count_list ?ops (P2p_send q)" for q
      using f(1) ph by (simp add: bar_sends_def rounds up ops)
    show "count_list (bar_recvs P r t') q = count_list (bar_recvs P r ?t) q + count_list ?ops (P2p_recv q)" for q
      using f(1) ph by (simp add: bar_recvs_def rounds up ops)
    show "q < n" if "P2p_recv q \<in> set ?ops" for q
      using that bar_nodes(2) [OF tree r(1)] r(1) by (auto simp: ops split: if_splits)
    show "bar_knows P n (set_task r t' s) r" using f(1,5) st by (auto simp: bar_knows_def Let_def)
  qed (use f(3-5) st in auto)
qed

lemma bar_continue_inv:
  assumes tree: "bar_tree P n" and inv: "bar_inv P n s" and r: "r < n" "bs_started s r"
    and st: "tt_status (bs_task s r) = UCC_INPROGRESS" and rd: "bar_ready (bs_task s r)" and net: "net_async net"
    and run: "bar_continue net r (bs_task s r) = (stop, t', posted)"
  shows "bar_inv P n (note_ops r posted (set_task r t' s))"
proof -
  let ?t = "bs_task s r" and ?p = "tt_p (bs_task s r)"
  have ok: "bar_task_ok P r ?t" by (rule bar_invD(1) [OF inv r])
  have p: "pat_ok P r ?p" and nt: "kp_node_type ?p = kn_node_of P r" using ok by (simp_all add: bar_task_ok_def pat_ok_def)
  show ?thesis
  proof (cases "tt_phase ?t")
    case UCC_KN_PHASE_INIT
    then show ?thesis using run by (intro bar_init_inv [OF tree inv r st net, of stop]) (simp_all add: bar_continue_def)
  next
    case UCC_KN_PHASE_EXTRA
    then have it: "kp_iteration ?p = 0" and rounds: "bar_rounds ?t = 0" using ok by (simp_all add: bar_task_ok_def bar_rounds_def)
    note ex = bar_extra_round [OF tree inv r st rd UCC_KN_PHASE_EXTRA]
    show ?thesis
    proof (cases "kn_node_of P r = KN_NODE_EXTRA")
      case True
      then show ?thesis
        using run nt UCC_KN_PHASE_EXTRA ex(2) by (intro bar_completion_inv [OF inv r st, of stop]) (simp_all add: bar_continue_def)
    next
      case False
      show ?thesis
      proof (rule bar_loop_head_inv [OF tree inv r st net p False])
        show "bar_loop_head net r (?t\<lparr>tt_p := ?p\<rparr>) = (stop, t', posted)"
          using run nt UCC_KN_PHASE_EXTRA False by (simp add: bar_continue_def)
      qed (use UCC_KN_PHASE_EXTRA False it rounds ex(1) bar_tree_iters(1) [OF tree] in \<open>simp_all add: bar_sends_def bar_recvs_def\<close>)
    qed
  next
    case UCC_KN_PHASE_LOOP
    then have nx: "kn_node_of P r \<noteq> KN_NODE_EXTRA" "kp_iteration ?p < kp_n_iters P" using ok st by (auto simp: bar_task_ok_def)
    note nxt = pat_ok_next [OF tree p nx(2)]
    have rounds: "bar_rounds ?t = Suc (kp_iteration ?p)"
      using UCC_KN_PHASE_LOOP nx p by (simp add: bar_rounds_def ucc_knomial_pattern_loop_done_def pat_ok_def)
    have c: "UCC_TL_UCP_TASK_P2P_COMPLETE ?t" using rd UCC_KN_PHASE_LOOP by (simp add: bar_ready_def bar_tests_def)
    show ?thesis
    proof (rule bar_loop_head_inv [OF tree inv r st net nxt(1) nx(1)])
      show "bar_loop_head net r (?t\<lparr>tt_p := ucc_knomial_pattern_next_iteration ?p\<rparr>) = (stop, t', posted)"
        using run UCC_KN_PHASE_LOOP by (simp add: bar_continue_def)
      show "bs_started s x" if "x \<in># kn_combined P (kp_iteration (ucc_knomial_pattern_next_iteration ?p)) r" for x
        using bar_loop_round [OF tree inv r st c UCC_KN_PHASE_LOOP] that nxt(2) by simp
    qed (use UCC_KN_PHASE_LOOP nx(1) rounds nxt(2) in \<open>simp_all add: bar_sends_def bar_recvs_def\<close>)
  next
    case UCC_KN_PHASE_PROXY
    then have nd: "kn_node_of P r = KN_NODE_PROXY" "kp_iteration ?p = kp_n_iters P" using ok by (simp_all add: bar_task_ok_def)
    have "bs_started s x" if "x < n" for x
      using bar_invD(3) [OF inv r] UCC_KN_PHASE_PROXY nd bar_all_combined [OF tree _ that, of r] bar_nodes(1) [OF tree r(1)]
      by (simp add: bar_knows_def Let_def)
    then show ?thesis
      using run UCC_KN_PHASE_PROXY by (intro bar_completion_inv [OF inv r st, of stop]) (simp_all add: bar_continue_def)
  qed (use ok in \<open>simp_all add: bar_task_ok_def\<close>)
qed

section \<open>All steps keep the invariant\<close>

lemma kn_node_of_init:
  assumes "kn_args_ok n R" "ucc_knomial_pattern_init n r R p0 = Some p"
  shows "kp_node_type p = kn_node_of p r" "kp_iteration p = 0" "kp_radix_pow p = 1" "kp_size p = n" "\<exists>e. kn_pattern_wf p e"
proof -
  obtain p' e where p': "ucc_knomial_pattern_init_impl n r R p0 False True = Some p'" "kn_pattern_wf p' e" "kp_size p' = n"
    "kp_iteration p' = 0" "kp_radix_pow p' = 1"
    "kp_node_type p' = (if r < 2 * kp_n_extra p' then (if odd r then KN_NODE_EXTRA else KN_NODE_PROXY) else KN_NODE_BASE)"
    by (rule kn_init_returns [OF assms(1), of r p0 False]) simp
  have "p' = p" using p'(1) assms(2) by (simp add: ucc_knomial_pattern_init_def)
  then show "kp_node_type p = kn_node_of p r" "kp_iteration p = 0" "kp_radix_pow p = 1" "kp_size p = n" "\<exists>e. kn_pattern_wf p e"
    using p' by (auto simp: kn_node_of_def)
qed

text \<open>The pattern of the team: that of rank 0.\<close>

definition bar_args_ok :: "nat \<Rightarrow> nat \<Rightarrow> bool" where
  "bar_args_ok n cfg_radix \<longleftrightarrow> 2 \<le> n \<and> 2 \<le> cfg_radix \<and> min cfg_radix n < 2 ^ 16 \<and> n * min cfg_radix n < 2 ^ 32"

definition team_pattern :: "nat \<Rightarrow> nat \<Rightarrow> ucc_knomial_pattern" where
  "team_pattern n cfg_radix = the (ucc_knomial_pattern_init n 0 (min cfg_radix n) kn_blank)"

lemma team_pattern_tree:
  assumes "bar_args_ok n cfg_radix"
  shows "bar_tree (team_pattern n cfg_radix) n"
    "ucc_knomial_pattern_init n r (min cfg_radix n) p0 = Some p \<Longrightarrow> pat_ok (team_pattern n cfg_radix) r p \<and> kp_iteration p = 0"
    "u16 (min cfg_radix n) = min cfg_radix n"
proof -
  let ?R = "min cfg_radix n" and ?P = "team_pattern n cfg_radix"
  have ok: "kn_args_ok n ?R" "2 \<le> n" using assms by (auto simp: bar_args_ok_def kn_args_ok_def)
  have P: "ucc_knomial_pattern_init n 0 ?R kn_blank = Some ?P"
    using kn_init_returns [OF ok(1), of 0 kn_blank False] unfolding team_pattern_def ucc_knomial_pattern_init_def by (metis option.sel)
  note i = kn_node_of_init [OF ok(1) P]
  show "bar_tree ?P n" using i ok(2) by (simp add: bar_tree_def)
  show "pat_ok ?P r p \<and> kp_iteration p = 0" if p: "ucc_knomial_pattern_init n r ?R p0 = Some p"
  proof -
    have same: "kn_same_tree p ?P" "kp_n_iters ?P = kp_n_iters p" using kn_init_same_tree [OF ok(1) p P] .
    moreover have "kn_node_of p r = kn_node_of ?P r" using same(1) by (simp add: kn_node_of_def kn_same_tree_def)
    ultimately show ?thesis using kn_node_of_init [OF ok(1) p] by (simp add: pat_ok_def kn_at_def)
  qed
  show "u16 ?R = ?R" using assms by (intro u16_id) (simp add: bar_args_ok_def)
qed

lemma bar_ledger_cong:
  assumes "bs_task s' x = bs_task s x" "bs_sent s' = bs_sent s" "bs_rposted s' = bs_rposted s" "bs_rdone s' x = bs_rdone s x"
  shows "bar_ledger_ok P n s' x = bar_ledger_ok P n s x"
  by (simp only: bar_ledger_ok_def assms)

lemma bar_start_inv:
  assumes args: "bar_args_ok n cfg_radix" and inv: "bar_inv (team_pattern n cfg_radix) n s" and r: "r < n" "\<not> bs_started s r"
    and start: "ucc_tl_ucp_barrier_knomial_start n r cfg_radix (bs_task s r) = Some t"
  shows "bar_inv (team_pattern n cfg_radix) n ((set_task r t s)\<lparr>bs_started := (bs_started s)(r := True)\<rparr>)"
proof -
  let ?P = "team_pattern n cfg_radix" and ?s = "(set_task r t s)\<lparr>bs_started := (bs_started s)(r := True)\<rparr>"
  note tp = team_pattern_tree [OF args]
  obtain p where p: "ucc_knomial_pattern_init n r (min cfg_radix n) (tt_p (bs_task s r)) = Some p"
    and t: "t = ((ucc_tl_ucp_task_reset (bs_task s r) UCC_INPROGRESS)\<lparr>tt_phase := UCC_KN_PHASE_INIT\<rparr>)\<lparr>tt_p := p\<rparr>"
    using start tp(3) by (auto simp: ucc_tl_ucp_barrier_knomial_start_def Let_def ucc_tl_ucp_task_reset_def)
  have z: "bs_sent s r = (\<lambda>_. 0)" "bs_rposted s r = (\<lambda>_. 0)" "bs_rdone s r = (\<lambda>_. 0)" using inv r by (simp_all add: bar_inv_def)
  have up: "peers_upto ?P r 0 = []" "bar_rounds t = 0" using tp(2) [OF p] by (simp_all add: peers_upto_def bar_rounds_def t)
  have "bar_task_ok ?P r t" using tp(2) [OF p] by (simp add: bar_task_ok_def t ucc_tl_ucp_task_reset_def)
  moreover have "bar_ledger_ok ?P n ?s r"
    using z up by (simp add: bar_ledger_ok_def Let_def bar_sends_def bar_recvs_def t ucc_tl_ucp_task_reset_def u32_def)
  moreover have "bar_knows ?P n ?s r" by (simp add: bar_knows_def Let_def t ucc_tl_ucp_task_reset_def)
  moreover have "bar_ledger_ok ?P n ?s x" "bar_knows ?P n ?s x" "bar_task_ok ?P x (bs_task ?s x)" if "x < n" "bs_started s x" "x \<noteq> r" for x
    using bar_invD [OF inv that(1,2)] that(3) bar_ledger_cong [of ?s x s ?P n] by (auto simp: bar_knows_def Let_def)
  ultimately have "bar_task_ok ?P x (bs_task ?s x) \<and> bar_ledger_ok ?P n ?s x \<and> bar_knows ?P n ?s x" if "x < n" "bs_started ?s x" for x
    using that by (cases "x = r") simp_all
  moreover have "bs_sent ?s x = (\<lambda>_. 0) \<and> bs_rposted ?s x = (\<lambda>_. 0) \<and> bs_rdone ?s x = (\<lambda>_. 0)" if "\<not> (x < n \<and> bs_started ?s x)" for x
    using that inv r by (auto simp: bar_inv_def split: if_splits)
  ultimately show ?thesis unfolding bar_inv_def by blast
qed

lemma bar_same_task:
  assumes "tt_phase t' = tt_phase t" "tt_p t' = tt_p t" "tt_status t' = tt_status t"
  shows "bar_task_ok P r t' = bar_task_ok P r t" "bar_sends P r t' = bar_sends P r t" "bar_recvs P r t' = bar_recvs P r t"
  by (simp_all only: bar_task_ok_def bar_sends_def bar_recvs_def bar_rounds_def assms)

lemma bar_send_done_inv:
  assumes inv: "bar_inv P n s" and r: "r < n" "bs_started s r"
  shows "bar_inv P n (set_task r (ucc_tl_ucp_send_completion_cb UCS_OK (bs_task s r)) s)"
proof -
  let ?t = "ucc_tl_ucp_send_completion_cb UCS_OK (bs_task s r)" and ?s = "set_task r (ucc_tl_ucp_send_completion_cb UCS_OK (bs_task s r)) s"
  have f: "tt_phase ?t = tt_phase (bs_task s r)" "tt_p ?t = tt_p (bs_task s r)" "tt_status ?t = tt_status (bs_task s r)"
    "tt_recv_posted ?t = tt_recv_posted (bs_task s r)" "tt_recv_completed ?t = tt_recv_completed (bs_task s r)"
    by (simp_all add: ucc_tl_ucp_send_completion_cb_def Let_def)
  note same = bar_same_task [OF f(1-3)]
  have "bar_task_ok P x (bs_task ?s x) \<and> bar_ledger_ok P n ?s x \<and> bar_knows P n ?s x" if "x < n" "bs_started s x" for x
    using bar_invD [OF inv that] same f bar_ledger_cong [of ?s x s P n] bar_knows_cong [of ?s x s P n]
    by (cases "x = r") (simp_all add: bar_ledger_ok_def bar_knows_def Let_def)
  then show ?thesis using inv by (simp add: bar_inv_def)
qed

lemma bar_recv_done_inv:
  assumes inv: "bar_inv P n s" and r: "r < n" "bs_started s r" and q: "q < n" "bs_rdone s r q < bs_rposted s r q" "bs_rdone s r q < bs_sent s q r"
  shows "bar_inv P n ((set_task r (ucc_tl_ucp_recv_completion_cb UCS_OK (bs_task s r)) s)
      \<lparr>bs_rdone := (bs_rdone s)(r := (bs_rdone s r)(q := bs_rdone s r q + 1))\<rparr>)" (is "bar_inv P n ?s")
proof -
  let ?t = "ucc_tl_ucp_recv_completion_cb UCS_OK (bs_task s r)"
  have f: "tt_phase ?t = tt_phase (bs_task s r)" "tt_p ?t = tt_p (bs_task s r)" "tt_status ?t = tt_status (bs_task s r)"
    "tt_recv_posted ?t = tt_recv_posted (bs_task s r)" "tt_recv_completed ?t = u32 (tt_recv_completed (bs_task s r) + 1)"
    by (simp_all add: ucc_tl_ucp_recv_completion_cb_def Let_def)
  note same = bar_same_task [OF f(1-3)]
  have "(\<Sum>x<n. ((bs_rdone s r)(q := bs_rdone s r q + 1)) x) = (\<Sum>x<n. bs_rdone s r x + of_bool (x = q))"
    by (intro sum.cong) auto
  also have "\<dots> = (\<Sum>x<n. bs_rdone s r x) + 1" using q(1) by (simp add: sum.distrib of_bool_def)
  finally have sum: "(\<Sum>x<n. ((bs_rdone s r)(q := bs_rdone s r q + 1)) x) = (\<Sum>x<n. bs_rdone s r x) + 1" .
  note l = bar_invD(2) [OF inv r, unfolded bar_ledger_ok_def Let_def]
  have "bar_ledger_ok P n ?s r"
    unfolding bar_ledger_ok_def Let_def using l q(2,3) same f sum u32_add_left [of "\<Sum>x<n. bs_rdone s r x" 1] by auto
  moreover have "bar_ledger_ok P n ?s x" if "x < n" "bs_started s x" "x \<noteq> r" for x
    using bar_invD(2) [OF inv that(1,2)] that(3) bar_ledger_cong [of ?s x s P n] by simp
  moreover have "bar_task_ok P x (bs_task ?s x) \<and> bar_knows P n ?s x" if "x < n" "bs_started s x" for x
    using bar_invD(1,3) [OF inv that] same f bar_knows_cong [of ?s x s P n] by (cases "x = r") (simp_all add: bar_knows_def Let_def)
  ultimately have "bar_task_ok P x (bs_task ?s x) \<and> bar_ledger_ok P n ?s x \<and> bar_knows P n ?s x" if "x < n" "bs_started s x" for x
    using that by (cases "x = r") blast+
  moreover have "bs_rdone ?s x = (\<lambda>_. 0)" if "\<not> (x < n \<and> bs_started s x)" for x using that inv r by (auto simp: bar_inv_def)
  ultimately show ?thesis using inv by (simp add: bar_inv_def)
qed

lemma bar_reach_inv:
  assumes "bar_args_ok n cfg_radix" "bar_reach n cfg_radix s"
  shows "bar_inv (team_pattern n cfg_radix) n s"
  using assms(2)
proof (induction rule: bar_reach.induct)
  case (init s)
  then show ?case by (simp add: bar_initial_def bar_inv_def)
next
  case (step s s')
  from step.hyps(2) show ?case
  proof cases
    case (start r t)
    then show ?thesis using bar_start_inv [OF assms(1) step.IH] by simp
  next
    case (run r net stop t ops)
    then show ?thesis using bar_continue_inv [OF team_pattern_tree(1) [OF assms(1)] step.IH] by simp
  next
    case (send_done r)
    then show ?thesis using bar_send_done_inv [OF step.IH] by simp
  next
    case (recv_done r q)
    then show ?thesis using bar_recv_done_inv [OF step.IH] by simp
  qed
qed

end
