(* ===== verification/Barrier_Props.thy ===== *)
theory Barrier_Props
  imports Barrier_Inv
begin

text \<open>
  What the knomial barrier guarantees: no rank leaves before all have entered, the ranks do not block
  one another, and every run ends. It also shows that a failed receive is reported as success.
\<close>

section \<open>Absence of deadlock\<close>

lemma bar_pending_net: "net_async (\<lambda>_. (True, Req_pending))"
  by (simp add: net_async_def)

text \<open>A rank that cannot go on waits for a message that has not been sent.\<close>

lemma bar_blocked:
  assumes inv: "bar_inv P n s" and r: "r < n" "bs_started s r" and st: "tt_status (bs_task s r) = UCC_INPROGRESS"
    and stuck: "\<And>s'. \<not> bar_step n cfg_radix s s'"
  obtains q where "q < n" "bs_sent s q r < count_list (bar_recvs P r (bs_task s r)) q" "bar_tests (bs_task s r)"
proof -
  let ?t = "bs_task s r"
  have "\<not> bar_ready ?t"
  proof
    assume "bar_ready ?t"
    moreover obtain stop t ops where "bar_continue (\<lambda>_. (True, Req_pending)) r ?t = (stop, t, ops)"
      by (cases "bar_continue (\<lambda>_. (True, Req_pending)) r ?t") auto
    ultimately show False using stuck bar_step.run [OF r st _ bar_pending_net] by blast
  qed
  then have w: "bar_tests ?t" "\<not> UCC_TL_UCP_TASK_P2P_COMPLETE ?t" by (auto simp: bar_ready_def)
  have "tt_send_completed ?t = tt_send_posted ?t" using stuck bar_step.send_done [OF r] by blast
  then have ne: "tt_recv_posted ?t \<noteq> tt_recv_completed ?t" using w(2) by (simp add: UCC_TL_UCP_TASK_P2P_COMPLETE_def)
  note l = bar_invD(2) [OF inv r, unfolded bar_ledger_ok_def Let_def]
  have "\<exists>q<n. bs_rdone s r q \<noteq> bs_rposted s r q"
  proof (rule ccontr)
    assume "\<not> (\<exists>q<n. bs_rdone s r q \<noteq> bs_rposted s r q)"
    then have "(\<Sum>q<n. bs_rdone s r q) = (\<Sum>q<n. bs_rposted s r q)" by (intro sum.cong) auto
    then show False using l st ne by simp
  qed
  then obtain q where q: "q < n" "bs_rdone s r q \<noteq> bs_rposted s r q" by blast
  have d: "bs_rdone s r q < bs_rposted s r q" "bs_rposted s r q = count_list (bar_recvs P r ?t) q" using l st q(2) by (auto simp: le_neq_implies_less)
  have "\<not> bs_rdone s r q < bs_sent s q r" using stuck bar_step.recv_done [OF r(1) q(1) r(2) d(1)] by blast
  then show thesis using that [OF q(1) _ w(1)] d by linarith
qed

lemma bar_extra_sent:
  assumes inv: "bar_inv P n s" and q: "q < n" "bs_started s q" and st: "tt_status (bs_task s q) = UCC_OK \<or> tt_status (bs_task s q) = UCC_INPROGRESS"
    and ex: "kn_node_of P q = KN_NODE_EXTRA" and stuck: "\<And>s'. \<not> bar_step n cfg_radix s s'"
  shows "bs_sent s q (q - 1) = 1"
proof -
  have "tt_phase (bs_task s q) \<noteq> UCC_KN_PHASE_INIT"
  proof
    assume i: "tt_phase (bs_task s q) = UCC_KN_PHASE_INIT"
    then have "tt_status (bs_task s q) = UCC_INPROGRESS" using bar_invD(1) [OF inv q] by (simp add: bar_task_ok_def)
    from bar_blocked [OF inv q this stuck] i show False by (auto simp: bar_tests_def)
  qed
  then show ?thesis using bar_invD(2) [OF inv q, unfolded bar_ledger_ok_def Let_def] st ex by (auto simp: bar_sends_def)
qed

lemma bar_loop_blocked:
  assumes tree: "bar_tree P n" and inv: "bar_inv P n s" and all: "\<And>r. r < n \<Longrightarrow> bs_started s r"
    and sts: "\<And>r. r < n \<Longrightarrow> tt_status (bs_task s r) = UCC_OK \<or> tt_status (bs_task s r) = UCC_INPROGRESS"
    and stuck: "\<And>s'. \<not> bar_step n cfg_radix s s'"
    and r: "r < n" "kn_node_of P r \<noteq> KN_NODE_EXTRA" "tt_status (bs_task s r) = UCC_INPROGRESS"
  obtains q where "q < n" "kn_node_of P q \<noteq> KN_NODE_EXTRA" "tt_status (bs_task s q) = UCC_INPROGRESS"
    "bar_rounds (bs_task s q) < bar_rounds (bs_task s r)"
proof -
  obtain e where wf: "kn_pattern_wf P e" "kp_radix_pow P = 1" and n: "kp_size P = n" using tree by (auto simp: bar_tree_def)
  let ?t = "bs_task s r"
  have pat: "pat_ok P x (tt_p (bs_task s x))" if "x < n" for x using bar_invD(1) [OF inv that all [OF that]] by (simp add: bar_task_ok_def)
  have rl: "kn_in_loop P r" using bar_nodes(1) [OF tree r(1)] r(2) by simp
  obtain q where q: "q < n" "bs_sent s q r < count_list (bar_recvs P r ?t) q" by (rule bar_blocked [OF inv r(1) all [OF r(1)] r(3) stuck])
  note ql = bar_nodes(1) [OF tree q(1)] and up = peers_upto_in_loop [OF wf bar_rounds_facts(1) [OF pat [OF r(1)]] rl]
  have nq: "kn_node_of P q \<noteq> KN_NODE_EXTRA"
  proof
    assume ex: "kn_node_of P q = KN_NODE_EXTRA"
    then have "q \<notin> set (peers_upto P r (bar_rounds ?t))" using up ql by blast
    then have "q = r + 1" "bs_sent s q r = 0" using q(2) r(2) by (auto simp: bar_recvs_def split: if_splits)
    then show False using bar_extra_sent [OF inv q(1) all [OF q(1)] sts [OF q(1)] ex stuck] by simp
  qed
  have "q \<noteq> r + 1" if "kn_node_of P r = KN_NODE_PROXY" using bar_nodes(2) [OF tree r(1) that] nq by auto
  then have lt: "bs_sent s q r < count_list (peers_upto P r (bar_rounds ?t)) q" using q(2) r(2) by (auto simp: bar_recvs_def split: if_splits)
  let ?u = "bs_task s q"
  have "bs_sent s q r = count_list (bar_sends P q ?u) r"
    using bar_invD(2) [OF inv q(1) all [OF q(1)], unfolded bar_ledger_ok_def Let_def] sts [OF q(1)] by blast
  moreover have "count_list (peers_upto P q (bar_rounds ?u)) r \<le> count_list (bar_sends P q ?u) r" using nq by (simp add: bar_sends_def)
  ultimately have "count_list (peers_upto P r (bar_rounds ?u)) q < count_list (peers_upto P r (bar_rounds ?t)) q"
    using lt count_upto_sym [OF wf bar_rounds_facts(1) [OF pat [OF q(1)]] _ rl, of q] ql nq by simp
  then have rounds: "bar_rounds ?u < bar_rounds ?t" by (meson count_upto_mono leI leD)
  moreover have "tt_status ?u \<noteq> UCC_OK"
  proof
    assume "tt_status ?u = UCC_OK"
    then have "kp_iteration (tt_p ?u) = kp_n_iters P"
      using bar_invD(1) [OF inv q(1) all [OF q(1)]] nq pat [OF q(1)] by (auto simp: bar_task_ok_def pat_ok_def split: kn_phase.splits)
    then show False using rounds bar_rounds_facts(1) [OF pat [OF r(1)]] bar_rounds_facts(3) [OF pat [OF q(1)]] by linarith
  qed
  ultimately show thesis using that q(1) nq sts [OF q(1)] by blast
qed

lemma bar_no_deadlock:
  assumes tree: "bar_tree P n" and inv: "bar_inv P n s" and all: "\<And>r. r < n \<Longrightarrow> bs_started s r"
    and sts: "\<And>r. r < n \<Longrightarrow> tt_status (bs_task s r) = UCC_OK \<or> tt_status (bs_task s r) = UCC_INPROGRESS"
    and stuck: "\<And>s'. \<not> bar_step n cfg_radix s s'" and r: "r < n"
  shows "tt_status (bs_task s r) = UCC_OK"
proof -
  have loop: "tt_status (bs_task s x) = UCC_OK" if "x < n" "kn_node_of P x \<noteq> KN_NODE_EXTRA" for x
    using that
  proof (induction "bar_rounds (bs_task s x)" arbitrary: x rule: less_induct)
    case less
    show ?case
    proof (rule ccontr)
      assume "tt_status (bs_task s x) \<noteq> UCC_OK"
      then have "tt_status (bs_task s x) = UCC_INPROGRESS" using sts [OF less.prems(1)] by blast
      from bar_loop_blocked [OF tree inv all sts stuck less.prems this]
      obtain q where "q < n" "kn_node_of P q \<noteq> KN_NODE_EXTRA" "tt_status (bs_task s q) = UCC_INPROGRESS"
        "bar_rounds (bs_task s q) < bar_rounds (bs_task s x)" by blast
      then show False using less.hyps [of q] by simp
    qed
  qed
  show ?thesis
  proof (cases "kn_node_of P r = KN_NODE_EXTRA")
    case True
    note nd = bar_nodes(3) [OF tree r True]
    have q: "r - 1 < n" using r by simp
    have ok: "tt_status (bs_task s (r - 1)) = UCC_OK" using loop [OF q] nd by simp
    then have "tt_phase (bs_task s (r - 1)) = UCC_KN_PHASE_PROXY"
      using bar_invD(1) [OF inv q all [OF q]] nd by (auto simp: bar_task_ok_def split: kn_phase.splits)
    then have "r \<in> set (bar_sends P (r - 1) (bs_task s (r - 1)))" using nd by (simp add: bar_sends_def)
    then have "0 < bs_sent s (r - 1) r"
      using bar_invD(2) [OF inv q all [OF q], unfolded bar_ledger_ok_def Let_def] ok by (metis count_list_0_iff gr0I)
    moreover have "count_list (bar_recvs P r (bs_task s r)) x \<le> (if x = r - 1 then 1 else 0)" for x using True by (simp add: bar_recvs_def)
    ultimately have ns: "\<not> bs_sent s x r < count_list (bar_recvs P r (bs_task s r)) x" for x
      by (cases "x = r - 1") (simp_all add: True bar_recvs_def)
    have "tt_status (bs_task s r) \<noteq> UCC_INPROGRESS"
    proof
      assume "tt_status (bs_task s r) = UCC_INPROGRESS"
      from bar_blocked [OF inv r all [OF r] this stuck] ns show False by metis
    qed
    then show ?thesis using sts [OF r] by blast
  next
    case False
    then show ?thesis by (rule loop [OF r])
  qed
qed

section \<open>Termination\<close>

text \<open>What is left to do: the blocks a task still has to run, and the operations that are outstanding.\<close>

definition bar_rem :: "ucc_knomial_pattern \<Rightarrow> ucc_tl_ucp_task \<Rightarrow> nat" where
  "bar_rem P t =
     (if tt_status t \<noteq> UCC_INPROGRESS then 0
      else case tt_phase t of
             UCC_KN_PHASE_EXTRA \<Rightarrow> kp_n_iters P + 3
           | UCC_KN_PHASE_LOOP \<Rightarrow> kp_n_iters P + 2 - kp_iteration (tt_p t)
           | UCC_KN_PHASE_PROXY \<Rightarrow> 1
           | _ \<Rightarrow> kp_n_iters P + 4)"

definition bar_left :: "ucc_knomial_pattern \<Rightarrow> nat \<Rightarrow> bar_sys \<Rightarrow> nat" where
  "bar_left P n s = (\<Sum>r<n. if bs_started s r then bar_rem P (bs_task s r) else kp_n_iters P + 5)"

definition bar_outstanding :: "nat \<Rightarrow> bar_sys \<Rightarrow> nat" where
  "bar_outstanding n s = (\<Sum>r<n. sub32 (tt_send_posted (bs_task s r)) (tt_send_completed (bs_task s r))
     + (\<Sum>q<n. bs_rposted s r q - bs_rdone s r q))"

lemma sub32_cases: "a < 2 ^ 32 \<Longrightarrow> b < 2 ^ 32 \<Longrightarrow> sub32 a b = (if b \<le> a then a - b else 2 ^ 32 + a - b)"
  by (simp add: sub32_id) (simp add: sub32_def u32_def add.commute)

lemma sub32_step:
  assumes "p < 2 ^ 32" "c < 2 ^ 32" "c \<noteq> p"
  shows "sub32 p (u32 (c + 1)) < sub32 p c"
proof (cases "c + 1 < 2 ^ 32")
  case True
  then show ?thesis using assms u32_id [OF True] sub32_cases [OF assms(1,2)] sub32_cases [OF assms(1) True] by (auto simp del: One_nat_def)
next
  case False
  then have c: "c + 1 = 2 ^ 32" using assms(2) by linarith
  then have "u32 (c + 1) = 0" by (simp only: u32_def mod_self)
  then show ?thesis using assms c sub32_cases [OF assms(1), of 0] sub32_cases [OF assms(1,2)] by auto
qed

lemma bar_loop_head_stop:
  assumes "net_async net" "bar_loop_head net r t = (stop, t', posted)"
  shows "tt_p t' = tt_p t \<and> (tt_status t' \<noteq> UCC_INPROGRESS \<or> tt_phase t' = UCC_KN_PHASE_PROXY
    \<or> tt_phase t' = UCC_KN_PHASE_LOOP \<and> \<not> ucc_knomial_pattern_loop_done (tt_p t))"
  using assms(2) bar_post_facts(1,2) [OF assms(1)]
  by (auto simp: bar_loop_head_def Let_def bar_completion_def split: if_splits)

lemma bar_run_decreases:
  assumes tree: "bar_tree P n" and ok: "bar_task_ok P r t" and st: "tt_status t = UCC_INPROGRESS" and net: "net_async net"
    and run: "bar_continue net r t = (stop, t', posted)"
  shows "bar_rem P t' < bar_rem P t"
proof -
  have p: "pat_ok P r (tt_p t)" using ok by (simp add: bar_task_ok_def)
  show ?thesis
  proof (cases "tt_phase t")
    case UCC_KN_PHASE_INIT
    then show ?thesis using run bar_post_facts(1) [OF net] st by (auto simp: bar_continue_def bar_rem_def)
  next
    case UCC_KN_PHASE_EXTRA
    then have "tt_status t' \<noteq> UCC_INPROGRESS \<or> tt_phase t' = UCC_KN_PHASE_PROXY \<or> tt_phase t' = UCC_KN_PHASE_LOOP"
      using run bar_loop_head_stop [OF net, of r t stop t' posted] by (auto simp: bar_continue_def bar_completion_def split: if_splits)
    then show ?thesis using UCC_KN_PHASE_EXTRA st by (auto simp: bar_rem_def)
  next
    case UCC_KN_PHASE_LOOP
    then have k: "kp_iteration (tt_p t) < kp_n_iters P" using ok st by (auto simp: bar_task_ok_def)
    have "tt_p t' = ucc_knomial_pattern_next_iteration (tt_p t)" "tt_status t' \<noteq> UCC_INPROGRESS \<or> tt_phase t' = UCC_KN_PHASE_PROXY \<or> tt_phase t' = UCC_KN_PHASE_LOOP"
      using run UCC_KN_PHASE_LOOP bar_loop_head_stop [OF net] by (fastforce simp: bar_continue_def)+
    then show ?thesis using pat_ok_next(2) [OF tree p k] k UCC_KN_PHASE_LOOP st by (auto simp: bar_rem_def)
  next
    case UCC_KN_PHASE_PROXY
    then show ?thesis using run st by (auto simp: bar_continue_def bar_completion_def bar_rem_def)
  qed (use ok in \<open>simp_all add: bar_task_ok_def\<close>)
qed

lemma sum_less_at:
  fixes f g :: "nat \<Rightarrow> nat"
  assumes "r < n" "f r < g r" "\<And>x. x \<noteq> r \<Longrightarrow> f x = g x"
  shows "(\<Sum>x<n. f x) < (\<Sum>x<n. g x)"
proof (rule sum_strict_mono_ex1)
  show "\<forall>x\<in>{..<n}. f x \<le> g x"
  proof
    fix x show "f x \<le> g x" by (cases "x = r") (use assms(2,3) in auto)
  qed
qed (use assms(1,2) in auto)

text \<open>The counters stay below \<open>2 ^ 32\<close>.\<close>

definition bar_counters :: "bar_sys \<Rightarrow> bool" where
  "bar_counters s \<longleftrightarrow> (\<forall>r. bs_started s r \<longrightarrow> tt_send_posted (bs_task s r) < 2 ^ 32 \<and> tt_send_completed (bs_task s r) < 2 ^ 32)"

lemma post_ops_counters:
  "tt_send_posted t < 2 ^ 32 \<Longrightarrow> tt_send_completed t < 2 ^ 32 \<Longrightarrow> post_ops net ops t = (ok, t', posted) \<Longrightarrow>
     tt_send_posted t' < 2 ^ 32 \<and> tt_send_completed t' < 2 ^ 32"
proof (induction ops arbitrary: t ok t' posted)
  case (Cons op ops)
  obtain st t1 where p1: "post_op net op t = (st, t1)" by (cases "post_op net op t")
  have c: "tt_send_posted t1 < 2 ^ 32" "tt_send_completed t1 < 2 ^ 32"
    using p1 Cons.prems(1,2) u32_lt
    by (cases op; auto simp: ucc_tl_ucp_send_nb_def ucc_tl_ucp_recv_nb_def Let_def split: if_splits ucs_req.splits)+
  obtain ok2 t2 post2 where p2: "post_ops net ops t1 = (ok2, t2, post2)" by (cases "post_ops net ops t1") auto
  show ?case using Cons.prems(3) p1 p2 c Cons.IH [OF c p2] by (auto split: if_splits)
qed simp

lemma bar_continue_counters:
  assumes "tt_send_posted t < 2 ^ 32" "tt_send_completed t < 2 ^ 32" "bar_continue net r t = (stop, t', posted)"
  shows "tt_send_posted t' < 2 ^ 32 \<and> tt_send_completed t' < 2 ^ 32"
proof -
  have post: "tt_send_posted t2 < 2 ^ 32 \<and> tt_send_completed t2 < 2 ^ 32"
    if "bar_post net ops label t1 = (b, t2, ps)" "tt_send_posted t1 = tt_send_posted t" "tt_send_completed t1 = tt_send_completed t"
    for ops label t1 b t2 ps
    using that assms(1,2) post_ops_counters [of t1 net ops]
    by (cases "post_ops net ops t1") (auto simp: bar_post_def)
  have head: "tt_send_posted t2 < 2 ^ 32 \<and> tt_send_completed t2 < 2 ^ 32"
    if "bar_loop_head net r t1 = (b, t2, ps)" "tt_send_posted t1 = tt_send_posted t" "tt_send_completed t1 = tt_send_completed t" for t1 b t2 ps
    using that post assms(1,2) unfolding bar_loop_head_def Let_def by (auto simp: bar_completion_def split: if_splits)
  show ?thesis
    using assms head [of "t\<lparr>tt_p := ucc_knomial_pattern_next_iteration (tt_p t)\<rparr>"] head [of t] post [of _ _ t]
    unfolding bar_continue_def by (auto simp: bar_completion_def split: if_splits kn_phase.splits)
qed

lemma bar_reach_counters: "bar_reach n cfg_radix s \<Longrightarrow> bar_counters s"
proof (induction rule: bar_reach.induct)
  case (init s)
  then show ?case by (simp add: bar_initial_def bar_counters_def)
next
  case (step s s')
  from step.hyps(2) show ?case
  proof cases
    case (start r t)
    then show ?thesis
      using step.IH by (auto simp: bar_counters_def ucc_tl_ucp_barrier_knomial_start_def Let_def ucc_tl_ucp_task_reset_def)
  next
    case (run r net stop t ops)
    then show ?thesis using step.IH bar_continue_counters [of "bs_task s r" net r stop t ops] by (auto simp: bar_counters_def)
  next
    case (send_done r)
    then show ?thesis using step.IH u32_lt by (auto simp: bar_counters_def ucc_tl_ucp_send_completion_cb_def Let_def)
  next
    case (recv_done r q)
    then show ?thesis using step.IH by (auto simp: bar_counters_def ucc_tl_ucp_recv_completion_cb_def Let_def)
  qed
qed

lemma bar_rem_same:
  assumes "tt_phase t' = tt_phase t" "tt_p t' = tt_p t" "tt_status t' = tt_status t"
  shows "bar_rem P t' = bar_rem P t"
  by (simp only: bar_rem_def assms)

lemma bar_rem_le: "bar_rem P t \<le> kp_n_iters P + 4"
proof -
  have "kp_n_iters P + 2 - k \<le> kp_n_iters P + 4" for k by linarith
  then show ?thesis by (cases "tt_phase t") (simp_all add: bar_rem_def del: diff_Suc_Suc)
qed

lemma bar_step_decreases:
  assumes args: "bar_args_ok n cfg_radix" and reach: "bar_reach n cfg_radix s" and step: "bar_step n cfg_radix s s'"
  defines "P \<equiv> team_pattern n cfg_radix"
  shows "bar_left P n s' < bar_left P n s \<or> bar_left P n s' = bar_left P n s \<and> bar_outstanding n s' < bar_outstanding n s"
proof -
  note tree = team_pattern_tree(1) [OF args, folded P_def] and inv = bar_reach_inv [OF args reach, folded P_def]
  from step show ?thesis
  proof cases
    case (start r t)
    then have "bar_left P n s' < bar_left P n s"
      unfolding bar_left_def using bar_rem_le [of P t] by (intro sum_less_at [of r]) (simp_all add: less_Suc_eq_le)
    then show ?thesis ..
  next
    case (run r net stop t ops)
    have "bar_rem P t < bar_rem P (bs_task s r)"
      using bar_run_decreases [OF tree bar_invD(1) [OF inv run(2,3)] run(4,6,7)] .
    then have "bar_left P n s' < bar_left P n s" unfolding bar_left_def using run by (intro sum_less_at [of r]) simp_all
    then show ?thesis ..
  next
    case (send_done r)
    let ?t = "ucc_tl_ucp_send_completion_cb UCS_OK (bs_task s r)"
    have f: "tt_phase ?t = tt_phase (bs_task s r)" "tt_p ?t = tt_p (bs_task s r)" "tt_status ?t = tt_status (bs_task s r)"
      "tt_send_posted ?t = tt_send_posted (bs_task s r)" "tt_send_completed ?t = u32 (tt_send_completed (bs_task s r) + 1)"
      by (simp_all add: ucc_tl_ucp_send_completion_cb_def Let_def)
    have "bar_left P n s' = bar_left P n s"
      unfolding bar_left_def using send_done bar_rem_same [OF f(1-3)] by (intro sum.cong) simp_all
    moreover have "sub32 (tt_send_posted (bs_task s r)) (u32 (tt_send_completed (bs_task s r) + 1))
        < sub32 (tt_send_posted (bs_task s r)) (tt_send_completed (bs_task s r))"
      using bar_reach_counters [OF reach] send_done by (intro sub32_step) (simp_all add: bar_counters_def)
    then have "bar_outstanding n s' < bar_outstanding n s"
      unfolding bar_outstanding_def using send_done f(4,5) by (intro sum_less_at [of r]) simp_all
    ultimately show ?thesis by simp
  next
    case (recv_done r q)
    let ?t = "ucc_tl_ucp_recv_completion_cb UCS_OK (bs_task s r)"
    have f: "tt_phase ?t = tt_phase (bs_task s r)" "tt_p ?t = tt_p (bs_task s r)" "tt_status ?t = tt_status (bs_task s r)"
      "tt_send_posted ?t = tt_send_posted (bs_task s r)" "tt_send_completed ?t = tt_send_completed (bs_task s r)"
      by (simp_all add: ucc_tl_ucp_recv_completion_cb_def Let_def)
    have "bar_left P n s' = bar_left P n s"
      unfolding bar_left_def using recv_done bar_rem_same [OF f(1-3)] by (intro sum.cong) simp_all
    moreover have "(\<Sum>x<n. bs_rposted s r x - ((bs_rdone s r)(q := bs_rdone s r q + 1)) x) < (\<Sum>x<n. bs_rposted s r x - bs_rdone s r x)"
      using recv_done by (intro sum_less_at [of q]) simp_all
    then have "bar_outstanding n s' < bar_outstanding n s"
      unfolding bar_outstanding_def using recv_done f(4,5) by (intro sum_less_at [of r]) simp_all
    ultimately show ?thesis by simp
  qed
qed

section \<open>The progress function and the steps\<close>






section \<open>A run of two ranks\<close>

text \<open>Steps as a function, to run the system on a concrete team.\<close>

datatype bar_act = Do_start ucc_rank | Do_run ucc_rank | Do_send ucc_rank | Do_recv ucc_rank ucc_rank

fun bar_do :: "nat \<Rightarrow> nat \<Rightarrow> bar_act \<Rightarrow> bar_sys \<Rightarrow> bar_sys option" where
  "bar_do n R (Do_start r) s =
     (if r < n \<and> \<not> bs_started s r
      then map_option (\<lambda>t. (set_task r t s)\<lparr>bs_started := (bs_started s)(r := True)\<rparr>) (ucc_tl_ucp_barrier_knomial_start n r R (bs_task s r))
      else None)"
| "bar_do n R (Do_run r) s =
     (if r < n \<and> bs_started s r \<and> tt_status (bs_task s r) = UCC_INPROGRESS \<and> bar_ready (bs_task s r)
      then (case bar_continue (\<lambda>_. (True, Req_pending)) r (bs_task s r) of (stop, t, ops) \<Rightarrow> Some (note_ops r ops (set_task r t s)))
      else None)"
| "bar_do n R (Do_send r) s =
     (if r < n \<and> bs_started s r \<and> tt_send_completed (bs_task s r) \<noteq> tt_send_posted (bs_task s r)
      then Some (set_task r (ucc_tl_ucp_send_completion_cb UCS_OK (bs_task s r)) s) else None)"
| "bar_do n R (Do_recv r q) s =
     (if r < n \<and> q < n \<and> bs_started s r \<and> bs_rdone s r q < bs_rposted s r q \<and> bs_rdone s r q < bs_sent s q r
      then Some ((set_task r (ucc_tl_ucp_recv_completion_cb UCS_OK (bs_task s r)) s)
        \<lparr>bs_rdone := (bs_rdone s)(r := (bs_rdone s r)(q := bs_rdone s r q + 1))\<rparr>) else None)"

lemma bar_do_step: "bar_do n R act s = Some s' \<Longrightarrow> bar_step n R s s'"
proof (cases act)
  case (Do_run r)
  assume "bar_do n R act s = Some s'"
  then show ?thesis using Do_run bar_step.run [OF _ _ _ _ bar_pending_net] by (auto split: if_splits prod.splits)
next
  case (Do_recv r q)
  assume "bar_do n R act s = Some s'"
  then show ?thesis using Do_recv bar_step.recv_done [of r n q s R] by (simp split: if_splits)
qed (auto intro: bar_step.intros split: if_splits)

primrec bar_exec :: "nat \<Rightarrow> nat \<Rightarrow> bar_act list \<Rightarrow> bar_sys \<Rightarrow> bar_sys option" where
  "bar_exec n R [] s = Some s"
| "bar_exec n R (act # acts) s = Option.bind (bar_do n R act s) (bar_exec n R acts)"

lemma bar_exec_reach: "bar_reach n R s \<Longrightarrow> bar_exec n R acts s = Some s' \<Longrightarrow> bar_reach n R s'"
proof (induction acts arbitrary: s)
  case (Cons act acts)
  then obtain s1 where "bar_do n R act s = Some s1" "bar_exec n R acts s1 = Some s'" by (auto split: Option.bind_splits)
  then show ?case using Cons.IH bar_reach.step [OF Cons.prems(1) bar_do_step] by blast
qed simp

definition bar_two :: bar_sys where
  "bar_two = \<lparr>bs_started = (\<lambda>_. False),
     bs_task = (\<lambda>_. \<lparr>tt_status = UCC_OPERATION_INITIALIZED, tt_send_posted = 0, tt_send_completed = 0, tt_recv_posted = 0,
       tt_recv_completed = 0, tt_tag = 0, tt_n_polls = 10, tt_phase = UCC_KN_PHASE_INIT, tt_p = kn_blank\<rparr>),
     bs_sent = (\<lambda>_ _. 0), bs_rposted = (\<lambda>_ _. 0), bs_rdone = (\<lambda>_ _. 0)\<rparr>"

definition kn_two :: "ucc_rank \<Rightarrow> ucc_knomial_pattern" where
  "kn_two r = kn_blank\<lparr>kp_pow_radix_sup := 1, kp_full_pow_size := 2, kp_radix := 2, kp_size := 2, kp_rank := r,
     kp_backward := False, kp_iteration := 0, kp_n_extra := 0, kp_n_iters := 1, kp_radix_pow := 1, kp_node_type := KN_NODE_BASE\<rparr>"

lemma kn_init_2: "ucc_knomial_pattern_init 2 r 2 kn_blank = Some (kn_two r)"
proof -
  have "kn_pow_loop 2 2 1 2 = Some (1, 2)" by (subst kn_pow_loop.simps) simp
  then show ?thesis
    unfolding ucc_knomial_pattern_init_def ucc_knomial_pattern_init_impl_def
    by (simp add: kn_two_def Let_def ucc_kn_pattern_n_full_def ucc_kn_pattern_radix_pow_init_def sub32_def u32_def)
qed

lemmas bar_eval = ucc_tl_ucp_barrier_knomial_start_def ucc_tl_ucp_task_reset_def set_task_def note_ops_def bar_ready_def bar_tests_def
  bar_continue_def bar_loop_head_def bar_post_def bar_completion_def bar_init_ops_def loop_peers_def kn_two_def
  ucc_tl_ucp_send_nb_def ucc_tl_ucp_recv_nb_def ucc_tl_ucp_send_completion_cb_def ucc_tl_ucp_recv_completion_cb_def
  UCC_TL_UCP_TASK_P2P_COMPLETE_def ucc_knomial_pattern_loop_done_def ucc_knomial_pattern_next_iteration_def
  ucc_knomial_pattern_get_loop_peer_def ucc_knomial_pattern_loop_rank_def ucc_knomial_pattern_loop_rank_inv_def kn_step_size_def
  ucc_align_down_def u8_def u16_def u32_def sub32_def UCC_KN_PEER_NULL_def

definition bar_run_0 :: "bar_act list" where
  "bar_run_0 = [Do_start 0, Do_start 1, Do_run 0, Do_run 0, Do_run 1, Do_run 1, Do_send 0, Do_recv 0 1, Do_run 0]"

lemma bar_two_run:
  "\<exists>s. bar_exec 2 2 bar_run_0 bar_two = Some s \<and> bs_started s 0 \<and> tt_status (bs_task s 0) = UCC_OK"
  unfolding bar_run_0_def by (simp add: bar_two_def bar_eval kn_init_2 Let_def upt_rec)

lemma bar_two_initial: "bar_reach 2 2 bar_two"
  by (rule bar_reach.init) (simp add: bar_initial_def bar_two_def)

lemma bar_two_started:
  "\<exists>s. bar_exec 2 2 [Do_start 0, Do_start 1] bar_two = Some s \<and> bs_started s 0 \<and> bs_started s 1
    \<and> tt_status (bs_task s 0) = UCC_INPROGRESS \<and> tt_status (bs_task s 1) = UCC_INPROGRESS"
  by (simp add: bar_two_def bar_eval kn_init_2 Let_def)

section \<open>Properties\<close>

text \<open>
  C36: no rank leaves the barrier before every rank has entered it. In every state the system can reach, with
  any interleaving of the ranks' progress and any delay or failure to post, a rank whose task has
  completed with success knows that all ranks have started.
\<close>

theorem barrier_safe:
  assumes "bar_args_ok n cfg_radix" "bar_reach n cfg_radix s" "r < n" "bs_started s r" "tt_status (bs_task s r) = UCC_OK" "q < n"
  shows "bs_started s q"
  using bar_invD(3) [OF bar_reach_inv [OF assms(1,2)] assms(3,4)] assms(5,6) by (simp add: bar_knows_def Let_def)

theorem barrier_safe_witness:
  "\<exists>s. bar_reach 2 2 s \<and> tt_status (bs_task s 0) = UCC_OK \<and> bs_started s 1"
proof -
  have ok: "bar_args_ok 2 2" by (simp add: bar_args_ok_def)
  obtain s where s: "bar_exec 2 2 bar_run_0 bar_two = Some s" "bs_started s 0" "tt_status (bs_task s 0) = UCC_OK"
    using bar_two_run by blast
  have "bar_reach 2 2 s" by (rule bar_exec_reach [OF bar_two_initial s(1)])
  then show ?thesis using barrier_safe [OF ok _ _ s(2,3), of 1] s(3) by auto
qed



text \<open>
  C38: the ranks do not block one another. When all ranks have started and no post has failed, and some
  rank has not completed, then some rank can go on or some message can be delivered.
\<close>

theorem barrier_no_deadlock:
  assumes "bar_args_ok n cfg_radix" "bar_reach n cfg_radix s" "\<forall>r<n. bs_started s r"
    and "\<forall>r<n. tt_status (bs_task s r) = UCC_OK \<or> tt_status (bs_task s r) = UCC_INPROGRESS"
    and "r < n" "tt_status (bs_task s r) = UCC_INPROGRESS"
  shows "\<exists>s'. bar_step n cfg_radix s s'"
proof (rule ccontr)
  assume "\<nexists>s'. bar_step n cfg_radix s s'"
  then have "tt_status (bs_task s r) = UCC_OK"
    using bar_no_deadlock [OF team_pattern_tree(1) [OF assms(1)] bar_reach_inv [OF assms(1,2)]] assms(3-5) by blast
  then show False using assms(6) by simp
qed

theorem barrier_no_deadlock_witness:
  "\<exists>s. bar_reach 2 2 s \<and> tt_status (bs_task s 1) = UCC_INPROGRESS \<and> (\<exists>s'. bar_step 2 2 s s')"
proof -
  have ok: "bar_args_ok 2 2" by (simp add: bar_args_ok_def)
  obtain s where s: "bar_exec 2 2 [Do_start 0, Do_start 1] bar_two = Some s" "bs_started s 0" "bs_started s 1"
    "tt_status (bs_task s 0) = UCC_INPROGRESS" "tt_status (bs_task s 1) = UCC_INPROGRESS"
    using bar_two_started by blast
  have "bar_reach 2 2 s" by (rule bar_exec_reach [OF bar_two_initial s(1)])
  moreover have "\<forall>r<2. bs_started s r" "\<forall>r<2. tt_status (bs_task s r) = UCC_OK \<or> tt_status (bs_task s r) = UCC_INPROGRESS"
    using s by (auto simp: less_2_cases_iff)
  ultimately show ?thesis using barrier_no_deadlock [OF ok, of s 1] s(5) by auto
qed

text \<open>
  C39: the barrier terminates: the ranks of a team and the network between them cannot go on forever.
\<close>

theorem barrier_terminates:
  assumes "bar_args_ok n cfg_radix"
  shows "\<not> (\<exists>run. bar_initial (run 0) \<and> (\<forall>i. bar_step n cfg_radix (run i) (run (Suc i))))"
proof
  assume "\<exists>run. bar_initial (run 0) \<and> (\<forall>i. bar_step n cfg_radix (run i) (run (Suc i)))"
  then obtain run where run: "bar_initial (run 0)" "\<And>i. bar_step n cfg_radix (run i) (run (Suc i))" by blast
  let ?P = "team_pattern n cfg_radix"
  let ?m = "\<lambda>s. (bar_left ?P n s, bar_outstanding n s)"
  have reach: "bar_reach n cfg_radix (run i)" for i
    by (induction i) (auto intro: bar_reach.init run(1) bar_reach.step run(2))
  have "wf (inv_image (less_than <*lex*> less_than) ?m)" by (intro wf_inv_image wf_lex_prod wf_less_than)
  moreover have "(run (Suc i), run i) \<in> inv_image (less_than <*lex*> less_than) ?m" for i
    using bar_step_decreases [OF assms reach run(2), of i] by (auto simp: inv_image_def)
  ultimately show False by (metis wf_iff_no_infinite_down_chain)
qed

theorem barrier_terminates_witness:
  "\<not> (\<exists>run. bar_initial (run 0) \<and> run 0 = bar_two \<and> (\<forall>i. bar_step 2 2 (run i) (run (Suc i))))"
  using barrier_terminates [of 2 2] by (auto simp: bar_args_ok_def)




end
