(* ===== verification/Coll_Net.thy ===== *)
theory Coll_Net
  imports Tl_Ucp
begin

text \<open>
  Data movement of the collectives of the UCP transport layer. The progress function of a collective
  is a loop that posts sends and receives on its buffers and tests for their completion; the code between two tests
  is a \<open>block\<close>. This theory holds the memory of a rank, the operations a block posts and the system of all
  ranks of a team with the network between them. The collectives are in the theories that import it;
  what holds of every interleaving is proved once, in \<open>Coll_Exec\<close>.
\<close>

section \<open>Memory and operations\<close>

text \<open>The buffers of a rank; an address is an offset into one of them.\<close>

datatype mbuf = Src_buf | Dst_buf | Scratch_buf

type_synonym 'a mem = "mbuf \<Rightarrow> nat \<Rightarrow> 'a"

type_synonym region = "mbuf \<times> nat \<times> nat"

fun in_region :: "region \<Rightarrow> mbuf \<Rightarrow> nat \<Rightarrow> bool" where
  "in_region (b, off, len) b' a \<longleftrightarrow> b = b' \<and> off \<le> a \<and> a < off + len"

fun rg_len :: "region \<Rightarrow> nat" where
  "rg_len (b, off, len) = len"

fun read_mem :: "'a mem \<Rightarrow> region \<Rightarrow> 'a list" where
  "read_mem m (b, off, len) = map (m b) [off..<off + len]"

fun write_mem :: "'a mem \<Rightarrow> region \<Rightarrow> 'a list \<Rightarrow> 'a mem" where
  "write_mem m (b, off, len) d =
     m(b := (\<lambda>a. if off \<le> a \<and> a < off + length d then d ! (a - off) else m b a))"

text \<open>\<open>ucc_mc_memcpy\<close> between two buffers of a rank.\<close>

definition copy_mem :: "'a mem \<Rightarrow> mbuf \<Rightarrow> nat \<Rightarrow> mbuf \<Rightarrow> nat \<Rightarrow> nat \<Rightarrow> 'a mem" where
  "copy_mem m db doff sb soff len = write_mem m (db, doff, len) (read_mem m (sb, soff, len))"

datatype xfer = Xsend ucc_rank region | Xrecv ucc_rank region

text \<open>
  What a block does. It posts operations in order and ends at a test: for all operations, or for the
  receives only; or it ends the collective with a status. It may have changed the fields of the task the
  collective keeps for itself, of type \<open>'x\<close>, and the memory.
\<close>

datatype wait_for = Wait_recv | Wait_all

datatype ('x, 'a) block = Block "xfer list" wait_for 'x "'a mem" | Finish ucc_status "'a mem"

type_synonym ('x, 'a) coll_prog = "ucc_rank \<Rightarrow> ucc_tl_ucp_task \<Rightarrow> 'x \<Rightarrow> 'a mem \<Rightarrow> ('x, 'a) block"

fun sends_to :: "ucc_rank \<Rightarrow> xfer list \<Rightarrow> region list" where
  "sends_to q [] = []"
| "sends_to q (Xsend q' rg # ops) = (if q' = q then rg # sends_to q ops else sends_to q ops)"
| "sends_to q (Xrecv p rg # ops) = sends_to q ops"

fun recvs_from :: "ucc_rank \<Rightarrow> xfer list \<Rightarrow> region list" where
  "recvs_from p [] = []"
| "recvs_from p (Xrecv p' rg # ops) = (if p' = p then rg # recvs_from p ops else recvs_from p ops)"
| "recvs_from p (Xsend q rg # ops) = recvs_from p ops"

text \<open>Posting under \<open>UCPCHECK_GOTO\<close> when UCP accepts every operation: only the counters of the task change.\<close>

fun post_task_ops :: "xfer list \<Rightarrow> ucc_tl_ucp_task \<Rightarrow> ucc_tl_ucp_task" where
  "post_task_ops [] t = t"
| "post_task_ops (Xsend q rg # ops) t = post_task_ops ops (snd (ucc_tl_ucp_send_nb True Req_pending t))"
| "post_task_ops (Xrecv p rg # ops) t = post_task_ops ops (snd (ucc_tl_ucp_recv_nb Req_pending t))"

section \<open>The team\<close>

text \<open>
  \<open>cs_out s p q\<close> are the sends of \<open>p\<close> to \<open>q\<close> whose buffer UCP has not read yet, \<open>cs_chan s p q\<close> the messages read
  and not received, \<open>cs_in s q p\<close> the receives of \<open>q\<close> from \<open>p\<close> that wait for a message, each in the order posted.
\<close>

record ('x, 'a) coll_sys =
  cs_task :: "ucc_rank \<Rightarrow> ucc_tl_ucp_task"
  cs_x :: "ucc_rank \<Rightarrow> 'x"
  cs_mem :: "ucc_rank \<Rightarrow> 'a mem"
  cs_wait :: "ucc_rank \<Rightarrow> wait_for"
  cs_out :: "ucc_rank \<Rightarrow> ucc_rank \<Rightarrow> region list"
  cs_chan :: "ucc_rank \<Rightarrow> ucc_rank \<Rightarrow> 'a list list"
  cs_in :: "ucc_rank \<Rightarrow> ucc_rank \<Rightarrow> region list"

definition coll_ready :: "('x, 'a) coll_sys \<Rightarrow> ucc_rank \<Rightarrow> bool" where
  "coll_ready s r \<longleftrightarrow> tt_status (cs_task s r) = UCC_INPROGRESS
     \<and> (case cs_wait s r of
          Wait_recv \<Rightarrow> UCC_TL_UCP_TASK_RECV_COMPLETE (cs_task s r)
        | Wait_all \<Rightarrow> UCC_TL_UCP_TASK_P2P_COMPLETE (cs_task s r))"

definition note_xfers :: "ucc_rank \<Rightarrow> xfer list \<Rightarrow> ('x, 'a) coll_sys \<Rightarrow> ('x, 'a) coll_sys" where
  "note_xfers r ops s =
     s\<lparr>cs_out := (cs_out s)(r := \<lambda>q. cs_out s r q @ sends_to q ops),
       cs_in := (cs_in s)(r := \<lambda>p. cs_in s r p @ recvs_from p ops)\<rparr>"

text \<open>
  The steps of the system: a rank whose test succeeds runs a block; a post fails, and the rank ends with
  its error; UCP reads the buffer of the oldest send to a rank and completes it; a message reaches the oldest
  receive posted for it, fills the buffer and completes it. UCP may read the buffer of a send at any time until it
  completes the send, and matches the messages between two ranks in order. A rank that has not started its
  collective is one that has not run its first block.
\<close>

inductive coll_step :: "ucc_rank set \<Rightarrow> ('x, 'a) coll_prog \<Rightarrow> ('x, 'a) coll_sys \<Rightarrow> ('x, 'a) coll_sys \<Rightarrow> bool"
  for R prog where
  run: "r \<in> R \<Longrightarrow> coll_ready s r \<Longrightarrow> prog r (cs_task s r) (cs_x s r) (cs_mem s r) = Block ops w x m \<Longrightarrow>
    coll_step R prog s (note_xfers r ops (s\<lparr>cs_task := (cs_task s)(r := post_task_ops ops (cs_task s r)),
      cs_x := (cs_x s)(r := x), cs_mem := (cs_mem s)(r := m), cs_wait := (cs_wait s)(r := w)\<rparr>))"
| finish: "r \<in> R \<Longrightarrow> coll_ready s r \<Longrightarrow> prog r (cs_task s r) (cs_x s r) (cs_mem s r) = Finish st m \<Longrightarrow>
    coll_step R prog s (s\<lparr>cs_task := (cs_task s)(r := (cs_task s r)\<lparr>tt_status := st\<rparr>), cs_mem := (cs_mem s)(r := m)\<rparr>)"
| fail: "r \<in> R \<Longrightarrow> coll_ready s r \<Longrightarrow> prog r (cs_task s r) (cs_x s r) (cs_mem s r) = Block ops w x m \<Longrightarrow>
    ops = ops1 @ op # ops2 \<Longrightarrow> st \<noteq> UCC_OK \<Longrightarrow> st \<noteq> UCC_INPROGRESS \<Longrightarrow> tt_status t = st \<Longrightarrow>
    coll_step R prog s (note_xfers r ops1 (s\<lparr>cs_task := (cs_task s)(r := t),
      cs_x := (cs_x s)(r := x), cs_mem := (cs_mem s)(r := m)\<rparr>))"
| fetch: "p \<in> R \<Longrightarrow> q \<in> R \<Longrightarrow> cs_out s p q = rg # rgs \<Longrightarrow>
    coll_step R prog s (s\<lparr>cs_task := (cs_task s)(p := ucc_tl_ucp_send_completion_cb UCS_OK (cs_task s p)),
      cs_out := (cs_out s)(p := (cs_out s p)(q := rgs)),
      cs_chan := (cs_chan s)(p := (cs_chan s p)(q := cs_chan s p q @ [read_mem (cs_mem s p) rg]))\<rparr>)"
| deliver: "p \<in> R \<Longrightarrow> q \<in> R \<Longrightarrow> cs_chan s p q = d # ds \<Longrightarrow> cs_in s q p = rg # rgs \<Longrightarrow> length d \<le> rg_len rg \<Longrightarrow>
    coll_step R prog s (s\<lparr>cs_task := (cs_task s)(q := ucc_tl_ucp_recv_completion_cb UCS_OK (cs_task s q)),
      cs_mem := (cs_mem s)(q := write_mem (cs_mem s q) rg d),
      cs_chan := (cs_chan s)(p := (cs_chan s p)(q := ds)),
      cs_in := (cs_in s)(q := (cs_in s q)(p := rgs))\<rparr>)"

text \<open>At the start the tasks are reset, \<open>start\<close> gives the fields and the memory of each rank, and nothing is posted.\<close>

definition coll_initial :: "ucc_rank set \<Rightarrow> (ucc_rank \<Rightarrow> 'x \<times> 'a mem) \<Rightarrow> ('x, 'a) coll_sys \<Rightarrow> bool" where
  "coll_initial R start s \<longleftrightarrow>
     (\<forall>r\<in>R. cs_task s r = ucc_tl_ucp_task_reset (cs_task s r) UCC_INPROGRESS \<and> cs_x s r = fst (start r)
        \<and> cs_mem s r = snd (start r) \<and> cs_wait s r = Wait_all)
     \<and> cs_out s = (\<lambda>_ _. []) \<and> cs_chan s = (\<lambda>_ _. []) \<and> cs_in s = (\<lambda>_ _. [])"

inductive coll_reach ::
    "ucc_rank set \<Rightarrow> ('x, 'a) coll_prog \<Rightarrow> (ucc_rank \<Rightarrow> 'x \<times> 'a mem) \<Rightarrow> ('x, 'a) coll_sys \<Rightarrow> bool"
  for R prog start where
  init: "coll_initial R start s \<Longrightarrow> coll_reach R prog start s"
| step: "coll_reach R prog start s \<Longrightarrow> coll_step R prog s s' \<Longrightarrow> coll_reach R prog start s'"

text \<open>
  What a collective promises when every rank of \<open>R\<close> runs \<open>prog\<close> after \<open>start\<close>: a rank that completes has \<open>result\<close>
  in its memory, whatever the interleaving and even when posts fail elsewhere; as long as no post has failed and
  some rank is in progress, the system can take a step; and it cannot take steps forever.
\<close>

definition coll_correct ::
    "ucc_rank set \<Rightarrow> ('x, 'a) coll_prog \<Rightarrow> (ucc_rank \<Rightarrow> 'x \<times> 'a mem) \<Rightarrow> (ucc_rank \<Rightarrow> 'a mem \<Rightarrow> bool) \<Rightarrow> bool" where
  "coll_correct R prog start result \<longleftrightarrow>
     (\<forall>s. coll_reach R prog start s \<longrightarrow>
        (\<forall>r\<in>R. tt_status (cs_task s r) = UCC_OK \<longrightarrow> result r (cs_mem s r))
        \<and> ((\<forall>r\<in>R. tt_status (cs_task s r) = UCC_OK \<or> tt_status (cs_task s r) = UCC_INPROGRESS)
           \<and> (\<exists>r\<in>R. tt_status (cs_task s r) = UCC_INPROGRESS) \<longrightarrow> (\<exists>s'. coll_step R prog s s')))
     \<and> \<not> (\<exists>run. coll_initial R start (run 0) \<and> (\<forall>i :: nat. coll_step R prog (run i) (run (Suc i))))"

lemma coll_correct_mono: "coll_correct R prog start P \<Longrightarrow> (\<And>r m. r \<in> R \<Longrightarrow> P r m \<Longrightarrow> Q r m) \<Longrightarrow> coll_correct R prog start Q"
  unfolding coll_correct_def by blast

section \<open>Facts on memory\<close>

lemma length_read_mem [simp]: "length (read_mem m rg) = rg_len rg"
  by (cases rg) auto

lemma read_mem_eqI: "(\<And>b a. in_region rg b a \<Longrightarrow> m b a = m' b a) \<Longrightarrow> read_mem m rg = read_mem m' rg"
  by (cases rg) auto

lemma write_mem_outside: "length d \<le> rg_len rg \<Longrightarrow> \<not> in_region rg b a \<Longrightarrow> write_mem m rg d b a = m b a"
  by (cases rg) auto

lemma write_mem_read: "length d = rg_len rg \<Longrightarrow> d = read_mem m' rg \<Longrightarrow> in_region rg b a \<Longrightarrow> write_mem m rg d b a = m' b a"
  by (cases rg) auto

lemma copy_mem_apply:
  "copy_mem m db doff sb soff len b a =
     (if b = db \<and> doff \<le> a \<and> a < doff + len then m sb (soff + (a - doff)) else m b a)"
  by (auto simp: copy_mem_def)

lemma sends_to_append [simp]: "sends_to q (xs @ ys) = sends_to q xs @ sends_to q ys"
  by (induction q xs rule: sends_to.induct) auto

lemma recvs_from_append [simp]: "recvs_from q (xs @ ys) = recvs_from q xs @ recvs_from q ys"
  by (induction q xs rule: recvs_from.induct) auto

lemma set_sends_to: "set (sends_to q ops) = {rg. Xsend q rg \<in> set ops}"
  by (induction q ops rule: sends_to.induct) auto

lemma set_recvs_from: "set (recvs_from p ops) = {rg. Xrecv p rg \<in> set ops}"
  by (induction p ops rule: recvs_from.induct) auto

end
