(* ===== verification/Coll_Exec.thy ===== *)
theory Coll_Exec
  imports Coll_Net
begin

text \<open>
  Collectives in every interleaving. The locale \<open>coll_ideal\<close> is the contract between a collective and the network:
  an ideal execution, in which every rank runs its blocks one after the other with every receive filled
  at once, such that the messages match and each is sent before it is needed. From it follows, for the system of \<open>Coll_Net\<close>,
  that a rank that completes has the memory of the ideal execution, that the system is never stuck, and that it ends.
\<close>

section \<open>Sequences of messages\<close>

text \<open>The data a rank sends to \<open>q\<close> in its first \<open>k\<close> blocks, and its receives from \<open>p\<close> with the data they leave.\<close>

definition sent_data :: "(nat \<Rightarrow> 'a mem) \<Rightarrow> (nat \<Rightarrow> xfer list) \<Rightarrow> ucc_rank \<Rightarrow> nat \<Rightarrow> 'a list list" where
  "sent_data P ops q k = concat (map (\<lambda>j. map (read_mem (P j)) (sends_to q (ops j))) [0..<k])"

definition recv_regs :: "(nat \<Rightarrow> xfer list) \<Rightarrow> ucc_rank \<Rightarrow> nat \<Rightarrow> region list" where
  "recv_regs ops p k = concat (map (\<lambda>j. recvs_from p (ops j)) [0..<k])"

definition recv_data :: "(nat \<Rightarrow> 'a mem) \<Rightarrow> (nat \<Rightarrow> xfer list) \<Rightarrow> ucc_rank \<Rightarrow> nat \<Rightarrow> 'a list list" where
  "recv_data E ops p k = concat (map (\<lambda>j. map (read_mem (E (Suc j))) (recvs_from p (ops j))) [0..<k])"

fun count_sends :: "xfer list \<Rightarrow> nat" where
  "count_sends [] = 0"
| "count_sends (Xsend q rg # ops) = Suc (count_sends ops)"
| "count_sends (Xrecv p rg # ops) = count_sends ops"

fun count_recvs :: "xfer list \<Rightarrow> nat" where
  "count_recvs [] = 0"
| "count_recvs (Xrecv p rg # ops) = Suc (count_recvs ops)"
| "count_recvs (Xsend q rg # ops) = count_recvs ops"

definition n_sends :: "(nat \<Rightarrow> xfer list) \<Rightarrow> nat \<Rightarrow> nat" where
  "n_sends ops k = (\<Sum>j<k. count_sends (ops j))"

definition n_recvs :: "(nat \<Rightarrow> xfer list) \<Rightarrow> nat \<Rightarrow> nat" where
  "n_recvs ops k = (\<Sum>j<k. count_recvs (ops j))"

lemma seq_0 [simp]: "sent_data P ops q 0 = []" "recv_regs ops p 0 = []" "recv_data E ops p 0 = []" "n_sends ops 0 = 0" "n_recvs ops 0 = 0"
  by (simp_all add: sent_data_def recv_regs_def recv_data_def n_sends_def n_recvs_def)

lemma seq_Suc:
  "sent_data P ops q (Suc k) = sent_data P ops q k @ map (read_mem (P k)) (sends_to q (ops k))"
  "recv_regs ops p (Suc k) = recv_regs ops p k @ recvs_from p (ops k)"
  "recv_data E ops p (Suc k) = recv_data E ops p k @ map (read_mem (E (Suc k))) (recvs_from p (ops k))"
  "n_sends ops (Suc k) = n_sends ops k + count_sends (ops k)"
  "n_recvs ops (Suc k) = n_recvs ops k + count_recvs (ops k)"
  by (simp_all add: sent_data_def recv_regs_def recv_data_def n_sends_def n_recvs_def)

lemma length_recv_data [simp]: "length (recv_data E ops p k) = length (recv_regs ops p k)"
  by (induction k) (simp_all add: seq_Suc)

lemma sent_data_mono: "k \<le> n \<Longrightarrow> \<exists>xs. sent_data P ops q n = sent_data P ops q k @ xs"
  by (induction n rule: dec_induct) (auto simp: seq_Suc)

lemma recv_regs_mono: "k \<le> n \<Longrightarrow> \<exists>xs. recv_regs ops q n = recv_regs ops q k @ xs"
  by (induction n rule: dec_induct) (auto simp: seq_Suc)

lemma recv_data_mono: "k \<le> n \<Longrightarrow> \<exists>xs. recv_data E ops q n = recv_data E ops q k @ xs"
  by (induction n rule: dec_induct) (auto simp: seq_Suc)

lemma n_sends_mono: "k \<le> n \<Longrightarrow> n_sends ops k \<le> n_sends ops n"
  by (induction n rule: dec_induct) (auto simp: seq_Suc)

lemma n_recvs_mono: "k \<le> n \<Longrightarrow> n_recvs ops k \<le> n_recvs ops n"
  by (induction n rule: dec_induct) (auto simp: seq_Suc)

lemma count_append [simp]:
  "count_sends (xs @ ys) = count_sends xs + count_sends ys" "count_recvs (xs @ ys) = count_recvs xs + count_recvs ys"
  by (induction xs rule: count_sends.induct) simp_all

lemma sum_sends_to:
  assumes "finite R" "\<And>q rg. Xsend q rg \<in> set ops \<Longrightarrow> q \<in> R"
  shows "(\<Sum>q\<in>R. length (sends_to q ops)) = count_sends ops"
  using assms(2)
proof (induction ops rule: count_sends.induct)
  case (2 q' rg ops)
  have "(\<Sum>q\<in>R. length (sends_to q (Xsend q' rg # ops))) = (\<Sum>q\<in>R. length (sends_to q ops) + (if q = q' then 1 else 0))"
    by (rule sum.cong) auto
  also have "\<dots> = Suc (count_sends ops)"
  proof -
    have "q' \<in> R" using 2(2) [of q' rg] by simp
    moreover have "(\<Sum>q\<in>R. length (sends_to q ops)) = count_sends ops"
      by (rule 2(1)) (meson 2(2) list.set_intros(2))
    ultimately show ?thesis using assms(1) by (simp add: sum.distrib)
  qed
  finally show ?case by simp
qed (simp_all)

lemma sum_recvs_from:
  assumes "finite R" "\<And>q rg. Xrecv q rg \<in> set ops \<Longrightarrow> q \<in> R"
  shows "(\<Sum>q\<in>R. length (recvs_from q ops)) = count_recvs ops"
  using assms(2)
proof (induction ops rule: count_recvs.induct)
  case (2 q' rg ops)
  have "(\<Sum>q\<in>R. length (recvs_from q (Xrecv q' rg # ops))) = (\<Sum>q\<in>R. length (recvs_from q ops) + (if q = q' then 1 else 0))"
    by (rule sum.cong) auto
  also have "\<dots> = Suc (count_recvs ops)"
  proof -
    have "q' \<in> R" using 2(2) [of q' rg] by simp
    moreover have "(\<Sum>q\<in>R. length (recvs_from q ops)) = count_recvs ops"
      by (rule 2(1)) (meson 2(2) list.set_intros(2))
    ultimately show ?thesis using assms(1) by (simp add: sum.distrib)
  qed
  finally show ?case by simp
qed (simp_all)

lemma post_task_ops_task:
  "tt_send_posted t + count_sends ops < 2 ^ 32 \<Longrightarrow> tt_recv_posted t + count_recvs ops < 2 ^ 32 \<Longrightarrow>
     post_task_ops ops t = t\<lparr>tt_send_posted := tt_send_posted t + count_sends ops, tt_recv_posted := tt_recv_posted t + count_recvs ops\<rparr>"
proof (induction ops t rule: post_task_ops.induct)
  case (2 q rg ops t)
  then show ?case by (simp add: ucc_tl_ucp_send_nb_def u32_id)
next
  case (3 p rg ops t)
  then show ?case by (simp add: ucc_tl_ucp_recv_nb_def u32_id)
qed simp

text \<open>The first message of a rank to \<open>r\<close> is posted after a test on \<open>n\<close> messages from \<open>r\<close>.\<close>

definition answers :: "(nat \<Rightarrow> 'a mem) \<Rightarrow> (nat \<Rightarrow> xfer list) \<Rightarrow> ucc_rank \<Rightarrow> nat \<Rightarrow> nat \<Rightarrow> bool" where
  "answers P ops r k n \<longleftrightarrow> (\<forall>m\<le>k. 0 < length (sent_data P ops r m) \<longrightarrow> n \<le> length (recv_regs ops r (m - 1)))"

section \<open>Ideal executions\<close>

text \<open>
  In the ideal execution rank \<open>r\<close> runs \<open>nb r\<close> blocks. Block \<open>k\<close> finds the fields \<open>X r k\<close> and the memory \<open>E r k\<close>, leaves
  the memory \<open>P r k\<close>, posts \<open>ops r k\<close> and waits for \<open>wt r k\<close>; the end leaves \<open>F r\<close>. \<open>T r k\<close> is the time at which rank \<open>r\<close> has passed the test
  before block \<open>k\<close>, or before its end when \<open>k = nb r\<close>: what the test waits for has been sent earlier. A buffer that is being sent is not changed, and it is received into
  only from the rank it is sent to, when that rank answers: it posts its first message after it has received all of them.
\<close>

locale coll_ideal =
  fixes R :: "ucc_rank set"
    and prog :: "('x, 'a) coll_prog"
    and start :: "ucc_rank \<Rightarrow> 'x \<times> 'a mem"
    and nb :: "ucc_rank \<Rightarrow> nat"
    and X :: "ucc_rank \<Rightarrow> nat \<Rightarrow> 'x"
    and E :: "ucc_rank \<Rightarrow> nat \<Rightarrow> 'a mem"
    and P :: "ucc_rank \<Rightarrow> nat \<Rightarrow> 'a mem"
    and ops :: "ucc_rank \<Rightarrow> nat \<Rightarrow> xfer list"
    and wt :: "ucc_rank \<Rightarrow> nat \<Rightarrow> wait_for"
    and F :: "ucc_rank \<Rightarrow> 'a mem"
    and T :: "ucc_rank \<Rightarrow> nat \<Rightarrow> nat"
  assumes fin: "finite R"
    and ideal_start: "r \<in> R \<Longrightarrow> start r = (X r 0, E r 0)"
    and ideal_block: "r \<in> R \<Longrightarrow> k < nb r \<Longrightarrow> tt_send_posted t = n_sends (ops r) k \<Longrightarrow> tt_recv_posted t = n_recvs (ops r) k \<Longrightarrow>
      prog r t (X r k) (E r k) = Block (ops r k) (wt r k) (X r (Suc k)) (P r k)"
    and ideal_finish: "r \<in> R \<Longrightarrow> tt_send_posted t = n_sends (ops r) (nb r) \<Longrightarrow> tt_recv_posted t = n_recvs (ops r) (nb r) \<Longrightarrow>
      prog r t (X r (nb r)) (E r (nb r)) = Finish UCC_OK (F r)"
    and last_all: "r \<in> R \<Longrightarrow> 0 < nb r \<Longrightarrow> wt r (nb r - 1) = Wait_all"
    and few: "r \<in> R \<Longrightarrow> n_sends (ops r) (nb r) < 2 ^ 32 \<and> n_recvs (ops r) (nb r) < 2 ^ 32"
    and peers: "r \<in> R \<Longrightarrow> k < nb r \<Longrightarrow> Xsend q rg \<in> set (ops r k) \<or> Xrecv q rg \<in> set (ops r k) \<Longrightarrow> q \<in> R"
    and frame: "r \<in> R \<Longrightarrow> k < nb r \<Longrightarrow> (\<And>p rg. Xrecv p rg \<in> set (ops r k) \<Longrightarrow> \<not> in_region rg b a) \<Longrightarrow> E r (Suc k) b a = P r k b a"
    and matched: "p \<in> R \<Longrightarrow> q \<in> R \<Longrightarrow> sent_data (P p) (ops p) q (nb p) = recv_data (E q) (ops q) p (nb q)"
    and no_overlap: "r \<in> R \<Longrightarrow> j \<le> k \<Longrightarrow> k < nb r \<Longrightarrow> (\<And>i. j \<le> i \<Longrightarrow> i < k \<Longrightarrow> wt r i = Wait_recv) \<Longrightarrow>
      Xsend q rg \<in> set (ops r j) \<Longrightarrow> Xrecv p rg' \<in> set (ops r k) \<Longrightarrow> in_region rg b a \<Longrightarrow> in_region rg' b a \<Longrightarrow>
      q = p \<and> answers (P p) (ops p) r (nb p) (length (sent_data (P r) (ops r) p (nb r)))"
    and stable: "r \<in> R \<Longrightarrow> j < k \<Longrightarrow> k < nb r \<Longrightarrow> (\<And>i. j \<le> i \<Longrightarrow> i < k \<Longrightarrow> wt r i = Wait_recv) \<Longrightarrow>
      Xsend q rg \<in> set (ops r j) \<Longrightarrow> in_region rg b a \<Longrightarrow> P r k b a = E r k b a"
    and time_mono: "r \<in> R \<Longrightarrow> Suc k < nb r \<Longrightarrow> T r k \<le> T r (Suc k)"
    and causal: "p \<in> R \<Longrightarrow> q \<in> R \<Longrightarrow> k < nb q \<Longrightarrow> m \<le> nb p \<Longrightarrow> (\<And>j. m \<le> j \<Longrightarrow> j < nb p \<Longrightarrow> T q (Suc k) \<le> T p j) \<Longrightarrow>
      length (recv_regs (ops q) p (Suc k)) \<le> length (sent_data (P p) (ops p) q m)"
begin

abbreviation sent :: "ucc_rank \<Rightarrow> ucc_rank \<Rightarrow> nat \<Rightarrow> 'a list list" where
  "sent p q k \<equiv> sent_data (P p) (ops p) q k"

abbreviation regs :: "ucc_rank \<Rightarrow> ucc_rank \<Rightarrow> nat \<Rightarrow> region list" where
  "regs q p k \<equiv> recv_regs (ops q) p k"

definition echo :: "ucc_rank \<Rightarrow> ucc_rank \<Rightarrow> ucc_rank \<Rightarrow> bool" where
  "echo r q p \<longleftrightarrow> q = p \<and> answers (P p) (ops p) r (nb p) (length (sent r p (nb r)))"

definition apart :: "ucc_rank \<Rightarrow> (ucc_rank \<Rightarrow> region list) \<Rightarrow> (ucc_rank \<Rightarrow> region list) \<Rightarrow> bool" where
  "apart r outs ins \<longleftrightarrow>
     (\<forall>q\<in>R. \<forall>rg\<in>set (outs q). \<forall>p\<in>R. \<forall>rg'\<in>set (ins p). \<forall>b a. in_region rg b a \<and> in_region rg' b a \<longrightarrow> echo r q p)"

definition timely :: "ucc_rank \<Rightarrow> (ucc_rank \<Rightarrow> nat) \<Rightarrow> (ucc_rank \<Rightarrow> region list) \<Rightarrow> (ucc_rank \<Rightarrow> nat) \<Rightarrow> bool" where
  "timely r fr outs cr \<longleftrightarrow>
     (\<forall>q\<in>R. 0 < fr q + length (outs q) \<longrightarrow> (\<exists>m\<le>nb r. 0 < length (sent r q m) \<and> (\<forall>p\<in>R. length (regs r p (m - 1)) \<le> cr p)))"

definition live_ok :: "('x, 'a) coll_sys \<Rightarrow> ucc_rank \<Rightarrow> nat \<Rightarrow> (ucc_rank \<Rightarrow> nat) \<Rightarrow> bool" where
  "live_ok s r k cr \<longleftrightarrow>
     tt_send_posted (cs_task s r) = n_sends (ops r) k \<and> tt_recv_posted (cs_task s r) = n_recvs (ops r) k
     \<and> tt_send_completed (cs_task s r) + (\<Sum>q\<in>R. length (cs_out s r q)) = n_sends (ops r) k
     \<and> tt_recv_completed (cs_task s r) + (\<Sum>p\<in>R. length (cs_in s r p)) = n_recvs (ops r) k
     \<and> cs_x s r = X r k \<and> cs_wait s r = (if k = 0 then Wait_all else wt r (k - 1))
     \<and> (\<forall>b a. (\<forall>p\<in>R. \<forall>rg\<in>set (cs_in s r p). \<not> in_region rg b a) \<longrightarrow> cs_mem s r b a = E r k b a)
     \<and> (\<forall>p\<in>R. length (regs r p (k - 1)) \<le> cr p)
     \<and> (\<forall>q\<in>R. \<forall>rg\<in>set (cs_out s r q). \<exists>j<k. Xsend q rg \<in> set (ops r j) \<and> (\<forall>i. j \<le> i \<and> i < k - 1 \<longrightarrow> wt r i = Wait_recv))"

definition alive :: "('x, 'a) coll_sys \<Rightarrow> ucc_rank \<Rightarrow> bool" where
  "alive s r \<longleftrightarrow> tt_status (cs_task s r) = UCC_OK \<or> tt_status (cs_task s r) = UCC_INPROGRESS"

definition rank_inv :: "('x, 'a) coll_sys \<Rightarrow> ucc_rank \<Rightarrow> nat \<Rightarrow> (ucc_rank \<Rightarrow> nat) \<Rightarrow> (ucc_rank \<Rightarrow> nat) \<Rightarrow> bool" where
  "rank_inv s r k fr cr \<longleftrightarrow> k \<le> nb r
     \<and> (\<forall>q\<in>R. fr q + length (cs_out s r q) \<le> length (sent r q (nb r))
          \<and> map (read_mem (cs_mem s r)) (cs_out s r q) = take (length (cs_out s r q)) (drop (fr q) (sent r q (nb r)))
          \<and> (alive s r \<longrightarrow> fr q + length (cs_out s r q) = length (sent r q k)))
     \<and> (\<forall>p\<in>R. cr p + length (cs_in s r p) \<le> length (regs r p (nb r))
          \<and> cs_in s r p = take (length (cs_in s r p)) (drop (cr p) (regs r p (nb r)))
          \<and> (alive s r \<longrightarrow> cr p + length (cs_in s r p) = length (regs r p k)))
     \<and> apart r (cs_out s r) (cs_in s r) \<and> timely r fr (cs_out s r) cr
     \<and> (tt_status (cs_task s r) = UCC_INPROGRESS \<longrightarrow> live_ok s r k cr)
     \<and> (tt_status (cs_task s r) = UCC_OK \<longrightarrow> k = nb r \<and> cs_mem s r = F r
          \<and> (\<forall>q\<in>R. cs_out s r q = []) \<and> (\<forall>p\<in>R. cs_in s r p = []))"

definition chan_ok :: "('x, 'a) coll_sys \<Rightarrow> ucc_rank \<Rightarrow> ucc_rank \<Rightarrow> nat \<Rightarrow> nat \<Rightarrow> bool" where
  "chan_ok s p q c f \<longleftrightarrow> c \<le> f \<and> f \<le> length (sent p q (nb p)) \<and> cs_chan s p q = take (f - c) (drop c (sent p q (nb p)))"

definition coll_inv ::
    "('x, 'a) coll_sys \<Rightarrow> (ucc_rank \<Rightarrow> nat) \<Rightarrow> (ucc_rank \<Rightarrow> ucc_rank \<Rightarrow> nat) \<Rightarrow> (ucc_rank \<Rightarrow> ucc_rank \<Rightarrow> nat) \<Rightarrow> bool" where
  "coll_inv s kb c f \<longleftrightarrow> (\<forall>r\<in>R. rank_inv s r (kb r) (f r) (\<lambda>p. c p r)) \<and> (\<forall>p\<in>R. \<forall>q\<in>R. chan_ok s p q (c p q) (f p q))"

lemma apart_mono:
  assumes "apart r outs ins" "\<And>q. q \<in> R \<Longrightarrow> set (outs' q) \<subseteq> set (outs q)" "\<And>p. p \<in> R \<Longrightarrow> set (ins' p) \<subseteq> set (ins p)"
  shows "apart r outs' ins'"
  using assms unfolding apart_def by (meson subsetD)

lemma timely_mono:
  assumes "timely r fr outs cr" "\<And>q. q \<in> R \<Longrightarrow> fr' q + length (outs' q) \<le> fr q + length (outs q)" "\<And>p. p \<in> R \<Longrightarrow> cr p \<le> cr' p"
  shows "timely r fr' outs' cr'"
  using assms unfolding timely_def by (meson le_trans less_le_trans)

lemma rank_inv_cong:
  assumes "cs_task s' r = cs_task s r" "cs_x s' r = cs_x s r" "cs_mem s' r = cs_mem s r" "cs_wait s' r = cs_wait s r"
    "cs_out s' r = cs_out s r" "cs_in s' r = cs_in s r"
  shows "rank_inv s' r k fr cr \<longleftrightarrow> rank_inv s r k fr cr"
  unfolding rank_inv_def live_ok_def alive_def assms ..

lemma initial_inv:
  assumes "coll_initial R start s"
  shows "coll_inv s (\<lambda>_. 0) (\<lambda>_ _. 0) (\<lambda>_ _. 0)"
proof -
  have "rank_inv s r 0 (\<lambda>_. 0) (\<lambda>_. 0)" if r: "r \<in> R" for r
  proof -
    have t: "cs_task s r = ucc_tl_ucp_task_reset (cs_task s r) UCC_INPROGRESS"
      and x: "cs_x s r = X r 0" "cs_mem s r = E r 0" "cs_wait s r = Wait_all"
      and e: "cs_out s r = (\<lambda>_. [])" "cs_in s r = (\<lambda>_. [])"
      using assms r ideal_start [OF r] by (auto simp: coll_initial_def)
    have "tt_status (cs_task s r) = UCC_INPROGRESS" "tt_send_posted (cs_task s r) = 0" "tt_send_completed (cs_task s r) = 0"
      "tt_recv_posted (cs_task s r) = 0" "tt_recv_completed (cs_task s r) = 0"
      by (subst t, simp add: ucc_tl_ucp_task_reset_def)+
    then show ?thesis by (simp add: rank_inv_def live_ok_def apart_def timely_def x e)
  qed
  moreover have "chan_ok s p q 0 0" for p q using assms by (simp add: chan_ok_def coll_initial_def)
  ultimately show ?thesis by (simp add: coll_inv_def)
qed

lemma rank_inv_live:
  assumes "rank_inv s r k fr cr" "tt_status (cs_task s r) = UCC_INPROGRESS"
  shows "live_ok s r k cr" "k \<le> nb r"
    "q \<in> R \<Longrightarrow> fr q + length (cs_out s r q) = length (sent r q k)"
    "q \<in> R \<Longrightarrow> cr q + length (cs_in s r q) = length (regs r q k)"
  using assms by (auto simp: rank_inv_def alive_def)

lemma ready_inv:
  assumes i: "rank_inv s r k fr cr" and rd: "coll_ready s r"
  shows "tt_status (cs_task s r) = UCC_INPROGRESS" "p \<in> R \<Longrightarrow> cs_in s r p = []"
    "cs_wait s r = Wait_all \<Longrightarrow> q \<in> R \<Longrightarrow> cs_out s r q = []" "cs_mem s r = E r k"
proof -
  show st: "tt_status (cs_task s r) = UCC_INPROGRESS" using rd by (simp add: coll_ready_def)
  note l = rank_inv_live(1) [OF i st, unfolded live_ok_def]
  have "UCC_TL_UCP_TASK_RECV_COMPLETE (cs_task s r)"
    using rd by (auto simp: coll_ready_def UCC_TL_UCP_TASK_P2P_COMPLETE_def UCC_TL_UCP_TASK_RECV_COMPLETE_def split: wait_for.splits)
  then have "(\<Sum>p\<in>R. length (cs_in s r p)) = 0" using l by (simp add: UCC_TL_UCP_TASK_RECV_COMPLETE_def)
  then have e: "\<forall>p\<in>R. cs_in s r p = []" using fin by simp
  then show "p \<in> R \<Longrightarrow> cs_in s r p = []" by blast
  show "cs_mem s r = E r k" using l e by (intro ext) auto
  assume w: "cs_wait s r = Wait_all" "q \<in> R"
  then have "(\<Sum>q\<in>R. length (cs_out s r q)) = 0" using rd l by (simp add: coll_ready_def UCC_TL_UCP_TASK_P2P_COMPLETE_def)
  then show "cs_out s r q = []" using fin w(2) by simp
qed

lemma ready_block:
  assumes i: "rank_inv s r k fr cr" and rd: "coll_ready s r" and r: "r \<in> R"
    and b: "prog r (cs_task s r) (cs_x s r) (cs_mem s r) = Block o1 w x m"
  shows "k < nb r" "o1 = ops r k" "w = wt r k" "x = X r (Suc k)" "m = P r k"
proof -
  have k: "k \<le> nb r" using i by (simp add: rank_inv_def)
  note l = rank_inv_live(1) [OF i ready_inv(1) [OF i rd], unfolded live_ok_def]
  have e: "cs_x s r = X r k" "cs_mem s r = E r k" using l ready_inv(4) [OF i rd] by auto
  show k': "k < nb r" using b e ideal_finish [OF r] l k by (cases "k = nb r") auto
  show "o1 = ops r k" "w = wt r k" "x = X r (Suc k)" "m = P r k"
    using b e ideal_block [OF r k'] l by auto
qed

text \<open>A send that is still to be read belongs to an earlier block since which the rank has not waited for all.\<close>

lemma ready_out:
  assumes i: "rank_inv s r k fr cr" and rd: "coll_ready s r" and q: "q \<in> R" "rg \<in> set (cs_out s r q)"
  obtains j where "j < k" "Xsend q rg \<in> set (ops r j)" "\<And>i. j \<le> i \<Longrightarrow> i < k \<Longrightarrow> wt r i = Wait_recv"
proof -
  note l = rank_inv_live(1) [OF i ready_inv(1) [OF i rd], unfolded live_ok_def]
  obtain j where j: "j < k" "Xsend q rg \<in> set (ops r j)" "\<And>i. j \<le> i \<Longrightarrow> i < k - 1 \<Longrightarrow> wt r i = Wait_recv"
    using l q by blast
  have "cs_wait s r \<noteq> Wait_all" using ready_inv(3) [OF i rd _ q(1)] q(2) by auto
  then have "wt r (k - 1) = Wait_recv" using l j(1) by (cases "wt r (k - 1)") auto
  then have "\<And>i. j \<le> i \<Longrightarrow> i < k \<Longrightarrow> wt r i = Wait_recv" using j(1,3) by (metis Suc_pred' less_antisym not_less_zero gr0I)
  then show ?thesis using that j by blast
qed

text \<open>Posting the first operations of a block.\<close>

lemma post_part:
  assumes i: "rank_inv s r k fr cr" and rd: "coll_ready s r" and r: "r \<in> R" and k: "k < nb r" and o: "ops r k = ops1 @ ops2"
  shows "q \<in> R \<Longrightarrow> fr q + length (cs_out s r q @ sends_to q ops1) \<le> length (sent r q (nb r))"
    and "q \<in> R \<Longrightarrow> map (read_mem (P r k)) (cs_out s r q @ sends_to q ops1)
      = take (length (cs_out s r q @ sends_to q ops1)) (drop (fr q) (sent r q (nb r)))"
    and "q \<in> R \<Longrightarrow> cr q + length (recvs_from q ops1) \<le> length (regs r q (nb r))"
    and "q \<in> R \<Longrightarrow> recvs_from q ops1 = take (length (recvs_from q ops1)) (drop (cr q) (regs r q (nb r)))"
    and "apart r (\<lambda>q. cs_out s r q @ sends_to q ops1) (\<lambda>p. recvs_from p ops1)"
    and "timely r fr (\<lambda>q. cs_out s r q @ sends_to q ops1) cr"
proof -
  note st = ready_inv(1) [OF i rd]
  note eq = rank_inv_live(3,4) [OF i st]
  have "\<exists>xs. sent r q (nb r) = sent r q k @ map (read_mem (P r k)) (sends_to q ops1) @ xs" for q
    using sent_data_mono [of "Suc k" "nb r" "P r" "ops r" q] k by (auto simp: seq_Suc o)
  then obtain xs where xs: "sent r q (nb r) = sent r q k @ map (read_mem (P r k)) (sends_to q ops1) @ xs q" for q by metis
  have "\<exists>ys. regs r q (nb r) = regs r q k @ recvs_from q ops1 @ ys" for q
    using recv_regs_mono [of "Suc k" "nb r" "ops r" q] k by (auto simp: seq_Suc o)
  then obtain ys where ys: "regs r q (nb r) = regs r q k @ recvs_from q ops1 @ ys q" for q by metis
  show "q \<in> R \<Longrightarrow> fr q + length (cs_out s r q @ sends_to q ops1) \<le> length (sent r q (nb r))"
    using eq(1) [of q] xs [of q] by simp
  show "q \<in> R \<Longrightarrow> cr q + length (recvs_from q ops1) \<le> length (regs r q (nb r))"
    "q \<in> R \<Longrightarrow> recvs_from q ops1 = take (length (recvs_from q ops1)) (drop (cr q) (regs r q (nb r)))"
    using eq(2) [of q] ys [of q] ready_inv(2) [OF i rd, of q] by simp_all
  have "\<exists>m\<le>nb r. 0 < length (sent r q m) \<and> (\<forall>p\<in>R. length (regs r p (m - 1)) \<le> cr p)"
    if "q \<in> R" "0 < fr q + length (cs_out s r q @ sends_to q ops1)" for q
  proof (intro exI [of _ "Suc k"] conjI)
    show "0 < length (sent r q (Suc k))" using that eq(1) [of q] by (auto simp: seq_Suc o)
    show "\<forall>p\<in>R. length (regs r p (Suc k - 1)) \<le> cr p" using eq(2) ready_inv(2) [OF i rd] by simp
  qed (use k in simp)
  then show "timely r fr (\<lambda>q. cs_out s r q @ sends_to q ops1) cr" by (simp add: timely_def)
  have "echo r q p" if "q \<in> R" "rg \<in> set (cs_out s r q @ sends_to q ops1)" "rg' \<in> set (recvs_from p ops1)" "in_region rg b a" "in_region rg' b a" for q p rg rg' b a
  proof -
    have r': "Xrecv p rg' \<in> set (ops r k)" using that(3) by (simp add: set_recvs_from o)
    have "Xsend q rg \<in> set (ops r k) \<or> rg \<in> set (cs_out s r q)" using that(2) by (auto simp: set_sends_to o)
    then consider "Xsend q rg \<in> set (ops r k)" | "rg \<in> set (cs_out s r q)" by blast
    then show ?thesis
    proof cases
      case 1
      then show ?thesis using no_overlap [OF r order_refl k _ 1 r' that(4,5)] by (simp add: echo_def)
    next
      case 2
      from ready_out [OF i rd that(1) 2] obtain j where "j < k" "Xsend q rg \<in> set (ops r j)" "\<And>i. j \<le> i \<Longrightarrow> i < k \<Longrightarrow> wt r i = Wait_recv"
        by blast
      then show ?thesis using no_overlap [OF r _ k _ _ r' that(4,5), of j q] by (simp add: echo_def)
    qed
  qed
  then show "apart r (\<lambda>q. cs_out s r q @ sends_to q ops1) (\<lambda>p. recvs_from p ops1)" unfolding apart_def by blast
  show "map (read_mem (P r k)) (cs_out s r q @ sends_to q ops1)
      = take (length (cs_out s r q @ sends_to q ops1)) (drop (fr q) (sent r q (nb r)))" if q: "q \<in> R"
  proof -
    have "read_mem (P r k) rg = read_mem (cs_mem s r) rg" if rg: "rg \<in> set (cs_out s r q)" for rg
    proof (rule read_mem_eqI)
      fix b a assume "in_region rg b a"
      moreover from ready_out [OF i rd q rg] obtain j where "j < k" "Xsend q rg \<in> set (ops r j)" "\<And>i. j \<le> i \<Longrightarrow> i < k \<Longrightarrow> wt r i = Wait_recv"
        by blast
      ultimately show "P r k b a = cs_mem s r b a" using stable [OF r _ k, of j q rg b a] ready_inv(4) [OF i rd] by simp
    qed
    then have "map (read_mem (P r k)) (cs_out s r q) = map (read_mem (cs_mem s r)) (cs_out s r q)" by simp
    also have "\<dots> = take (length (cs_out s r q)) (drop (fr q) (sent r q (nb r)))" using i q by (simp add: rank_inv_def)
    finally show ?thesis using eq(1) [OF q] xs [of q] by simp
  qed
qed

lemma post_step_inv:
  assumes i: "rank_inv s r k fr cr" and rd: "coll_ready s r" and r: "r \<in> R" and k: "k < nb r"
    and s': "cs_task s' r = post_task_ops (ops r k) (cs_task s r)" "cs_x s' r = X r (Suc k)" "cs_mem s' r = P r k" "cs_wait s' r = wt r k"
      "\<And>q. cs_out s' r q = cs_out s r q @ sends_to q (ops r k)" "\<And>p. cs_in s' r p = cs_in s r p @ recvs_from p (ops r k)"
  shows "rank_inv s' r (Suc k) fr cr"
proof -
  note st = ready_inv(1) [OF i rd]
  note l = rank_inv_live(1) [OF i st, unfolded live_ok_def]
  note eq = rank_inv_live(3,4) [OF i st]
  note pp = post_part [OF i rd r k, of "ops r k" "[]", simplified]
  have le: "n_sends (ops r) (Suc k) < 2 ^ 32" "n_recvs (ops r) (Suc k) < 2 ^ 32"
    using few [OF r] n_sends_mono [of "Suc k" "nb r" "ops r"] n_recvs_mono [of "Suc k" "nb r" "ops r"] k by linarith+
  have t': "cs_task s' r = (cs_task s r)\<lparr>tt_send_posted := n_sends (ops r) (Suc k), tt_recv_posted := n_recvs (ops r) (Suc k)\<rparr>"
    unfolding s'(1) using l le by (subst post_task_ops_task) (simp_all add: seq_Suc)
  have in': "p \<in> R \<Longrightarrow> cs_in s' r p = recvs_from p (ops r k)" for p using s'(6) ready_inv(2) [OF i rd] by simp
  have ss: "(\<Sum>q\<in>R. length (sends_to q (ops r k))) = count_sends (ops r k)"
    "(\<Sum>p\<in>R. length (recvs_from p (ops r k))) = count_recvs (ops r k)"
    by (rule sum_sends_to [OF fin] sum_recvs_from [OF fin], use peers [OF r k] in blast)+
  have sums: "(\<Sum>q\<in>R. length (cs_out s' r q)) = (\<Sum>q\<in>R. length (cs_out s r q)) + count_sends (ops r k)"
    "(\<Sum>p\<in>R. length (cs_in s' r p)) = (\<Sum>p\<in>R. length (cs_in s r p)) + count_recvs (ops r k)"
    by (simp_all add: s'(5,6) sum.distrib ss)
  have mem: "cs_mem s' r b a = E r (Suc k) b a" if "\<forall>p\<in>R. \<forall>rg\<in>set (cs_in s' r p). \<not> in_region rg b a" for b a
  proof -
    have "\<not> in_region rg b a" if "Xrecv p rg \<in> set (ops r k)" for p rg
    proof -
      have "p \<in> R" using peers [OF r k] that by blast
      then show ?thesis using \<open>\<forall>p\<in>R. \<forall>rg\<in>set (cs_in s' r p). \<not> in_region rg b a\<close> that in' [of p] by (simp add: set_recvs_from)
    qed
    then show ?thesis using frame [OF r k] s'(3) by metis
  qed
  have out: "\<exists>j<Suc k. Xsend q rg \<in> set (ops r j) \<and> (\<forall>i. j \<le> i \<and> i < k \<longrightarrow> wt r i = Wait_recv)"
    if "q \<in> R" "rg \<in> set (cs_out s' r q)" for q rg
  proof (cases "rg \<in> set (cs_out s r q)")
    case True
    then show ?thesis using ready_out [OF i rd that(1)] by (metis less_SucI)
  next
    case False
    then have "Xsend q rg \<in> set (ops r k)" using that(2) by (simp add: s'(5) set_sends_to)
    then show ?thesis by (intro exI [of _ k]) auto
  qed
  have cr: "p \<in> R \<Longrightarrow> cr p = length (regs r p k)" for p using eq(2) ready_inv(2) [OF i rd] by simp
  have posted: "apart r (cs_out s' r) (cs_in s' r)" "timely r fr (cs_out s' r) cr"
    by (rule apart_mono [OF post_part(5) [OF i rd r k, of "ops r k" "[]"]] timely_mono [OF post_part(6) [OF i rd r k, of "ops r k" "[]"]]; simp add: s'(5) in')+
  have "live_ok s' r (Suc k) cr"
    unfolding live_ok_def using l s'(2,4) sums mem out cr by (simp add: t' seq_Suc)
  then show ?thesis
    unfolding rank_inv_def alive_def using st pp eq k posted by (simp add: t' s'(3,5) in' seq_Suc cr)
qed

lemma fail_step_inv:
  assumes i: "rank_inv s r k fr cr" and rd: "coll_ready s r" and r: "r \<in> R" and k: "k < nb r" and o: "ops r k = ops1 @ ops2"
    and s': "tt_status (cs_task s' r) \<noteq> UCC_OK" "tt_status (cs_task s' r) \<noteq> UCC_INPROGRESS" "cs_mem s' r = P r k"
      "\<And>q. cs_out s' r q = cs_out s r q @ sends_to q ops1" "\<And>p. cs_in s' r p = cs_in s r p @ recvs_from p ops1"
  shows "rank_inv s' r k fr cr"
proof -
  have in': "p \<in> R \<Longrightarrow> cs_in s' r p = recvs_from p ops1" for p using s'(5) ready_inv(2) [OF i rd] by simp
  have posted: "apart r (cs_out s' r) (cs_in s' r)" "timely r fr (cs_out s' r) cr"
    by (rule apart_mono [OF post_part(5) [OF i rd r k o]] timely_mono [OF post_part(6) [OF i rd r k o]]; simp add: s'(4) in')+
  show ?thesis
    unfolding rank_inv_def alive_def using post_part(1-4) [OF i rd r k o] posted k by (simp add: s'(1-4) in')
qed

lemma finish_step_inv:
  assumes i: "rank_inv s r k fr cr" and rd: "coll_ready s r" and r: "r \<in> R"
    and f: "prog r (cs_task s r) (cs_x s r) (cs_mem s r) = Finish st m"
    and s': "cs_task s' r = (cs_task s r)\<lparr>tt_status := st\<rparr>" "cs_mem s' r = m" "cs_out s' r = cs_out s r" "cs_in s' r = cs_in s r"
  shows "rank_inv s' r k fr cr" "st = UCC_OK" "m = F r"
proof -
  note st = ready_inv(1) [OF i rd]
  note l = rank_inv_live(1) [OF i st, unfolded live_ok_def]
  have "\<not> k < nb r" using f ideal_block [OF r, of k "cs_task s r"] l ready_inv(4) [OF i rd] by auto
  then have k: "k = nb r" using rank_inv_live(2) [OF i st] by simp
  show m: "st = UCC_OK" "m = F r" using f ideal_finish [OF r, of "cs_task s r"] l ready_inv(4) [OF i rd] k by auto
  have w: "cs_wait s r = Wait_all" using l k last_all [OF r] by auto
  have "\<forall>p\<in>R. cs_in s r p = []" "\<forall>q\<in>R. cs_out s r q = []" using ready_inv(2) [OF i rd] ready_inv(3) [OF i rd w] by auto
  then show "rank_inv s' r k fr cr"
    using i st by (simp add: rank_inv_def s' m k alive_def)
qed

lemma fetch_step_inv:
  assumes i: "rank_inv s p k fr cr" and R: "p \<in> R" "q \<in> R" and o: "cs_out s p q = rg # rgs"
    and s': "cs_task s' p = ucc_tl_ucp_send_completion_cb UCS_OK (cs_task s p)" "cs_out s' p = (cs_out s p)(q := rgs)"
      "cs_x s' p = cs_x s p" "cs_mem s' p = cs_mem s p" "cs_wait s' p = cs_wait s p" "cs_in s' p = cs_in s p"
  shows "rank_inv s' p k (fr(q := Suc (fr q))) cr" "fr q < length (sent p q (nb p))"
    "read_mem (cs_mem s p) rg = sent p q (nb p) ! fr q"
proof -
  have a: "fr q + length (cs_out s p q) \<le> length (sent p q (nb p))"
    "map (read_mem (cs_mem s p)) (cs_out s p q) = take (length (cs_out s p q)) (drop (fr q) (sent p q (nb p)))"
    using i R by (auto simp: rank_inv_def)
  show lt: "fr q < length (sent p q (nb p))" using a(1) o by simp
  then have d: "drop (fr q) (sent p q (nb p)) = sent p q (nb p) ! fr q # drop (Suc (fr q)) (sent p q (nb p))"
    by (rule Cons_nth_drop_Suc [symmetric])
  show "read_mem (cs_mem s p) rg = sent p q (nb p) ! fr q" using a(2) o d by simp
  have b: "map (read_mem (cs_mem s p)) rgs = take (length rgs) (drop (Suc (fr q)) (sent p q (nb p)))" using a(2) o d by simp
  have t: "tt_status (cs_task s' p) = tt_status (cs_task s p)" by (simp add: s' ucc_tl_ucp_send_completion_cb_def Let_def)
  have "live_ok s' p k cr" if st: "tt_status (cs_task s p) = UCC_INPROGRESS"
  proof -
    note l = rank_inv_live(1) [OF i st, unfolded live_ok_def]
    have "(\<Sum>x\<in>R. length (cs_out s p x)) = Suc (\<Sum>x\<in>R. length (cs_out s' p x))"
      using fin R(2) by (simp add: s' o sum.remove [of R q])
    moreover have "n_sends (ops p) k < 2 ^ 32"
      using few [OF R(1)] n_sends_mono [of k "nb p" "ops p"] rank_inv_live(2) [OF i st] by linarith
    ultimately have "u32 (tt_send_completed (cs_task s p) + 1) + (\<Sum>x\<in>R. length (cs_out s' p x)) = n_sends (ops p) k"
      using l by (subst u32_id) linarith+
    then show ?thesis using l o unfolding live_ok_def by (auto simp: s' ucc_tl_ucp_send_completion_cb_def Let_def split: if_splits)
  qed
  moreover have "tt_status (cs_task s p) \<noteq> UCC_OK" using i R o by (auto simp: rank_inv_def)
  moreover have "(fr(q := Suc (fr q))) x + length (cs_out s' p x) \<le> length (sent p x (nb p))
          \<and> map (read_mem (cs_mem s' p)) (cs_out s' p x) = take (length (cs_out s' p x)) (drop ((fr(q := Suc (fr q))) x) (sent p x (nb p)))
          \<and> (alive s' p \<longrightarrow> (fr(q := Suc (fr q))) x + length (cs_out s' p x) = length (sent p x k))" if x: "x \<in> R" for x
  proof -
    have "fr x + length (cs_out s p x) \<le> length (sent p x (nb p))
          \<and> map (read_mem (cs_mem s p)) (cs_out s p x) = take (length (cs_out s p x)) (drop (fr x) (sent p x (nb p)))
          \<and> (alive s p \<longrightarrow> fr x + length (cs_out s p x) = length (sent p x k))" using i x unfolding rank_inv_def by blast
    then show ?thesis using b o by (cases "x = q") (simp_all add: s'(2,4) alive_def t)
  qed
  moreover have "cr x + length (cs_in s' p x) \<le> length (regs p x (nb p))
          \<and> cs_in s' p x = take (length (cs_in s' p x)) (drop (cr x) (regs p x (nb p)))
          \<and> (alive s' p \<longrightarrow> cr x + length (cs_in s' p x) = length (regs p x k))" if x: "x \<in> R" for x
    using i x unfolding rank_inv_def alive_def t s'(6) by blast
  moreover have "timely p (fr(q := Suc (fr q))) (cs_out s' p) cr"
    by (rule timely_mono [of p fr "cs_out s p" cr]) (use i o in \<open>auto simp: rank_inv_def s'(2)\<close>)
  moreover have "apart p (cs_out s' p) (cs_in s' p)"
    by (rule apart_mono [of p "cs_out s p" "cs_in s p"]) (use i o in \<open>auto simp: rank_inv_def s'(2,6)\<close>)
  moreover have "k \<le> nb p" using i by (simp add: rank_inv_def)
  ultimately show "rank_inv s' p k (fr(q := Suc (fr q))) cr" unfolding rank_inv_def t by blast
qed

text \<open>The message a receive gets is the one the ideal execution has for its region.\<close>

lemma ideal_message:
  assumes "p \<in> R" "q \<in> R" "0 < k" "k \<le> nb q" "length (regs q p (k - 1)) \<le> c" "c < length (regs q p k)"
  shows "sent p q (nb p) ! c = read_mem (E q k) (regs q p (nb q) ! c)"
proof -
  obtain j where k: "k = Suc j" using assms(3) by (cases k) auto
  obtain xs where xs: "recv_data (E q) (ops q) p (nb q) = recv_data (E q) (ops q) p k @ xs" using recv_data_mono [OF assms(4)] by blast
  obtain ys where ys: "regs q p (nb q) = regs q p k @ ys" using recv_regs_mono [OF assms(4)] by blast
  have i: "\<not> c < length (regs q p j)" "c - length (regs q p j) < length (recvs_from p (ops q j))" using assms(5,6) by (auto simp: k seq_Suc)
  show ?thesis
    unfolding matched [OF assms(1,2)] xs ys using assms(6) i by (simp add: k seq_Suc nth_append)
qed

lemma deliver_step_inv:
  assumes i: "rank_inv s q k fr cr" and R: "p \<in> R" "q \<in> R" and o: "cs_in s q p = rg # rgs"
    and d: "d = sent p q (nb p) ! cr p" "length d \<le> rg_len rg"
    and s': "cs_task s' q = ucc_tl_ucp_recv_completion_cb UCS_OK (cs_task s q)" "cs_in s' q = (cs_in s q)(p := rgs)"
      "cs_x s' q = cs_x s q" "cs_mem s' q = write_mem (cs_mem s q) rg d" "cs_wait s' q = cs_wait s q" "cs_out s' q = cs_out s q"
    and free: "\<And>x. echo q x p \<Longrightarrow> cs_out s q x = []"
  shows "rank_inv s' q k fr (cr(p := Suc (cr p)))"
proof -
  have a: "cr p + length (cs_in s q p) \<le> length (regs q p (nb q))"
    "cs_in s q p = take (length (cs_in s q p)) (drop (cr p) (regs q p (nb q)))"
    using i R by (auto simp: rank_inv_def)
  have lt: "cr p < length (regs q p (nb q))" using a(1) o by simp
  then have dr: "drop (cr p) (regs q p (nb q)) = regs q p (nb q) ! cr p # drop (Suc (cr p)) (regs q p (nb q))"
    by (rule Cons_nth_drop_Suc [symmetric])
  have rg: "rg = regs q p (nb q) ! cr p" and b: "rgs = take (length rgs) (drop (Suc (cr p)) (regs q p (nb q)))" using a(2) o dr by simp_all
  have t: "tt_status (cs_task s' q) = tt_status (cs_task s q)" by (simp add: s' ucc_tl_ucp_recv_completion_cb_def Let_def)
  have m: "read_mem (cs_mem s' q) rg' = read_mem (cs_mem s q) rg'" if "x \<in> R" "rg' \<in> set (cs_out s q x)" for x rg'
  proof (rule read_mem_eqI)
    fix b a assume "in_region rg' b a"
    moreover have "\<not> echo q x p" using free [of x] that(2) by auto
    moreover have "rg \<in> set (cs_in s q p)" using o by simp
    ultimately have "\<not> in_region rg b a" using i R that unfolding rank_inv_def apart_def by blast
    then show "cs_mem s' q b a = cs_mem s q b a" using write_mem_outside [OF d(2)] by (simp add: s'(4))
  qed
  then have m': "x \<in> R \<Longrightarrow> map (read_mem (cs_mem s' q)) (cs_out s q x) = map (read_mem (cs_mem s q)) (cs_out s q x)" for x by simp
  have "live_ok s' q k (cr(p := Suc (cr p)))" if st: "tt_status (cs_task s q) = UCC_INPROGRESS"
  proof -
    note l = rank_inv_live(1) [OF i st, unfolded live_ok_def]
    have "cr p + length (cs_in s q p) = length (regs q p k)" using rank_inv_live(4) [OF i st R(1)] .
    then have c: "cr p < length (regs q p k)" using o by simp
    then have k0: "0 < k" by (cases k) auto
    have e: "d = read_mem (E q k) rg"
      unfolding d(1) rg using l R(1) rank_inv_live(2) [OF i st] by (intro ideal_message [OF R k0 _ _ c]) auto
    have mem: "cs_mem s' q b a = E q k b a" if "\<forall>x\<in>R. \<forall>rg'\<in>set (cs_in s' q x). \<not> in_region rg' b a" for b a
    proof (cases "in_region rg b a")
      case True
      then show ?thesis using write_mem_read [of d rg "E q k"] e by (simp add: s'(4))
    next
      case False
      have "\<not> in_region rg' b a" if "x \<in> R" "rg' \<in> set (cs_in s q x)" for x rg'
        using \<open>\<forall>x\<in>R. \<forall>rg'\<in>set (cs_in s' q x). \<not> in_region rg' b a\<close> that False o by (cases "x = p") (auto simp: s'(2))
      then show ?thesis using l write_mem_outside [OF d(2) False] by (simp add: s'(4))
    qed
    have "(\<Sum>x\<in>R. length (cs_in s q x)) = Suc (\<Sum>x\<in>R. length (cs_in s' q x))"
      using fin R(1) by (simp add: s' o sum.remove [of R p])
    moreover have "n_recvs (ops q) k < 2 ^ 32"
      using few [OF R(2)] n_recvs_mono [of k "nb q" "ops q"] rank_inv_live(2) [OF i st] by linarith
    ultimately have "u32 (tt_recv_completed (cs_task s q) + 1) + (\<Sum>x\<in>R. length (cs_in s' q x)) = n_recvs (ops q) k"
      using l by (subst u32_id) linarith+
    then show ?thesis using l mem unfolding live_ok_def
      by (auto simp: s'(1,3,5,6) ucc_tl_ucp_recv_completion_cb_def Let_def intro: le_SucI)
  qed
  moreover have "tt_status (cs_task s q) \<noteq> UCC_OK" using i R o by (auto simp: rank_inv_def)
  moreover have "(cr(p := Suc (cr p))) x + length (cs_in s' q x) \<le> length (regs q x (nb q))
          \<and> cs_in s' q x = take (length (cs_in s' q x)) (drop ((cr(p := Suc (cr p))) x) (regs q x (nb q)))
          \<and> (alive s' q \<longrightarrow> (cr(p := Suc (cr p))) x + length (cs_in s' q x) = length (regs q x k))" if x: "x \<in> R" for x
  proof -
    have "cr x + length (cs_in s q x) \<le> length (regs q x (nb q))
          \<and> cs_in s q x = take (length (cs_in s q x)) (drop (cr x) (regs q x (nb q)))
          \<and> (alive s q \<longrightarrow> cr x + length (cs_in s q x) = length (regs q x k))" using i x unfolding rank_inv_def by blast
    then show ?thesis using b o by (cases "x = p") (simp_all add: s'(2) alive_def t)
  qed
  moreover have "fr x + length (cs_out s' q x) \<le> length (sent q x (nb q))
          \<and> map (read_mem (cs_mem s' q)) (cs_out s' q x) = take (length (cs_out s' q x)) (drop (fr x) (sent q x (nb q)))
          \<and> (alive s' q \<longrightarrow> fr x + length (cs_out s' q x) = length (sent q x k))" if x: "x \<in> R" for x
    using i x m' [OF x] unfolding rank_inv_def alive_def t s'(6) by metis
  moreover have "timely q fr (cs_out s' q) (cr(p := Suc (cr p)))"
    by (rule timely_mono [of q fr "cs_out s q" cr]) (use i in \<open>auto simp: rank_inv_def s'(6)\<close>)
  moreover have "apart q (cs_out s' q) (cs_in s' q)"
    by (rule apart_mono [of q "cs_out s q" "cs_in s q"]) (use i o in \<open>auto simp: rank_inv_def s'(2,6)\<close>)
  moreover have "k \<le> nb q" using i by (simp add: rank_inv_def)
  ultimately show ?thesis unfolding rank_inv_def t by blast
qed

text \<open>Every step keeps the invariant and uses up one of finitely many blocks, reads and deliveries.\<close>

definition work_left ::
    "('x, 'a) coll_sys \<Rightarrow> (ucc_rank \<Rightarrow> nat) \<Rightarrow> (ucc_rank \<Rightarrow> ucc_rank \<Rightarrow> nat) \<Rightarrow> (ucc_rank \<Rightarrow> ucc_rank \<Rightarrow> nat) \<Rightarrow> nat" where
  "work_left s kb c f =
     (\<Sum>r\<in>R. nb r - kb r + (if tt_status (cs_task s r) = UCC_INPROGRESS then 1 else 0))
     + (\<Sum>p\<in>R. \<Sum>q\<in>R. (length (sent p q (nb p)) - f p q) + (length (sent p q (nb p)) - c p q))"

definition advances :: "('x, 'a) coll_sys \<Rightarrow> ('x, 'a) coll_sys \<Rightarrow> bool" where
  "advances s s' \<longleftrightarrow> (\<forall>kb c f. coll_inv s kb c f \<longrightarrow> (\<exists>kb' c' f'. coll_inv s' kb' c' f' \<and> work_left s' kb' c' f' < work_left s kb c f))"

lemma advances_rank:
  assumes r: "r \<in> R" and chan: "cs_chan s' = cs_chan s"
    and other: "\<And>x. x \<noteq> r \<Longrightarrow> cs_task s' x = cs_task s x \<and> cs_x s' x = cs_x s x \<and> cs_mem s' x = cs_mem s x \<and> cs_wait s' x = cs_wait s x
      \<and> cs_out s' x = cs_out s x \<and> cs_in s' x = cs_in s x"
    and own: "\<And>k fr cr. rank_inv s r k fr cr \<Longrightarrow> \<exists>k'. rank_inv s' r k' fr cr \<and>
      nb r - k' + (if tt_status (cs_task s' r) = UCC_INPROGRESS then 1 else 0) < nb r - k + (if tt_status (cs_task s r) = UCC_INPROGRESS then 1 else 0)"
  shows "advances s s'"
  unfolding advances_def
proof (intro allI impI)
  fix kb c f assume i: "coll_inv s kb c f"
  then obtain k' where k': "rank_inv s' r k' (f r) (\<lambda>p. c p r)"
    "nb r - k' + (if tt_status (cs_task s' r) = UCC_INPROGRESS then 1 else 0) < nb r - kb r + (if tt_status (cs_task s r) = UCC_INPROGRESS then 1 else 0)"
    using own r unfolding coll_inv_def by blast
  have "rank_inv s' x ((kb(r := k')) x) (f x) (\<lambda>p. c p x)" if "x \<in> R" for x
    using i that k'(1) other [of x] rank_inv_cong [of s' x s] by (cases "x = r") (simp_all add: coll_inv_def)
  moreover have "chan_ok s' p q (c p q) (f p q) = chan_ok s p q (c p q) (f p q)" for p q by (simp add: chan_ok_def chan)
  ultimately have "coll_inv s' (kb(r := k')) c f" using i by (simp add: coll_inv_def)
  moreover have "work_left s' (kb(r := k')) c f < work_left s kb c f"
    unfolding work_left_def
  proof (rule add_strict_right_mono, rule sum_strict_mono_ex1 [OF fin])
    show "\<forall>x\<in>R. nb x - (kb(r := k')) x + (if tt_status (cs_task s' x) = UCC_INPROGRESS then 1 else 0)
      \<le> nb x - kb x + (if tt_status (cs_task s x) = UCC_INPROGRESS then 1 else 0)"
    proof
      fix x assume "x \<in> R"
      show "nb x - (kb(r := k')) x + (if tt_status (cs_task s' x) = UCC_INPROGRESS then 1 else 0)
        \<le> nb x - kb x + (if tt_status (cs_task s x) = UCC_INPROGRESS then 1 else 0)"
        using less_imp_le [OF k'(2)] other [of x] by (cases "x = r") simp_all
    qed
  qed (rule bexI [OF _ r], use k'(2) in simp)
  ultimately show "\<exists>kb' c' f'. coll_inv s' kb' c' f' \<and> work_left s' kb' c' f' < work_left s kb c f" by blast
qed

lemma advances_link:
  assumes R: "p \<in> R" "q \<in> R" and r: "r \<in> R" and task: "\<And>x. tt_status (cs_task s' x) = tt_status (cs_task s x)"
    and other: "\<And>x. x \<noteq> r \<Longrightarrow> cs_task s' x = cs_task s x \<and> cs_x s' x = cs_x s x \<and> cs_mem s' x = cs_mem s x \<and> cs_wait s' x = cs_wait s x
      \<and> cs_out s' x = cs_out s x \<and> cs_in s' x = cs_in s x"
    and links: "\<And>x y. (x, y) \<noteq> (p, q) \<Longrightarrow> cs_chan s' x y = cs_chan s x y"
    and own: "\<And>kb c f. coll_inv s kb c f \<Longrightarrow> \<exists>c' f'. rank_inv s' r (kb r) (f' r) (\<lambda>x. c' x r) \<and> chan_ok s' p q (c' p q) (f' p q)
      \<and> (\<forall>x. x \<noteq> r \<longrightarrow> f' x = f x \<and> (\<forall>y. c' y x = c y x)) \<and> (\<forall>x y. (x, y) \<noteq> (p, q) \<longrightarrow> c' x y = c x y \<and> f' x y = f x y)
      \<and> length (sent p q (nb p)) - f' p q + (length (sent p q (nb p)) - c' p q) < length (sent p q (nb p)) - f p q + (length (sent p q (nb p)) - c p q)"
  shows "advances s s'"
  unfolding advances_def
proof (intro allI impI)
  fix kb c f assume i: "coll_inv s kb c f"
  let ?w = "\<lambda>c f x y. (length (sent x y (nb x)) - f x y) + (length (sent x y (nb x)) - c x y)"
  from own [OF i] obtain c' f' where o: "rank_inv s' r (kb r) (f' r) (\<lambda>x. c' x r)" "chan_ok s' p q (c' p q) (f' p q)"
    "\<And>x. x \<noteq> r \<Longrightarrow> f' x = f x \<and> (\<forall>y. c' y x = c y x)" "\<And>x y. (x, y) \<noteq> (p, q) \<Longrightarrow> c' x y = c x y \<and> f' x y = f x y"
    "?w c' f' p q < ?w c f p q" by blast
  have "rank_inv s' x (kb x) (f' x) (\<lambda>y. c' y x)" if "x \<in> R" for x
    using i that o(1) o(3) [of x] other [of x] rank_inv_cong [of s' x s] by (cases "x = r") (simp_all add: coll_inv_def)
  moreover have "chan_ok s' x y (c' x y) (f' x y)" if "x \<in> R" "y \<in> R" for x y
    using i that o(2) o(4) [of x y] links [of x y] by (cases "(x, y) = (p, q)") (auto simp: coll_inv_def chan_ok_def)
  ultimately have "coll_inv s' kb c' f'" by (simp add: coll_inv_def)
  moreover have le: "?w c' f' x y \<le> ?w c f x y" for x y using o(4) [of x y] o(5) by (cases "(x, y) = (p, q)") auto
  have "work_left s' kb c' f' < work_left s kb c f"
    unfolding work_left_def task
  proof (rule add_strict_left_mono, rule sum_strict_mono_ex1 [OF fin])
    show "\<forall>x\<in>R. (\<Sum>y\<in>R. ?w c' f' x y) \<le> (\<Sum>y\<in>R. ?w c f x y)" by (intro ballI sum_mono le)
    show "\<exists>x\<in>R. (\<Sum>y\<in>R. ?w c' f' x y) < (\<Sum>y\<in>R. ?w c f x y)"
      by (rule bexI [OF _ R(1)], rule sum_strict_mono_ex1 [OF fin]) (use le in blast, rule bexI [OF _ R(2)], rule o(5))
  qed
  ultimately show "\<exists>kb' c' f'. coll_inv s' kb' c' f' \<and> work_left s' kb' c' f' < work_left s kb c f" by blast
qed

lemma run_advances:
  assumes run: "r \<in> R" "coll_ready s r" "prog r (cs_task s r) (cs_x s r) (cs_mem s r) = Block o1 w x m"
  shows "advances s
    (note_xfers r o1 (s\<lparr>cs_task := (cs_task s)(r := post_task_ops o1 (cs_task s r)),
      cs_x := (cs_x s)(r := x), cs_mem := (cs_mem s)(r := m), cs_wait := (cs_wait s)(r := w)\<rparr>))" (is "advances s ?s")
proof -
  show ?thesis
  proof (rule advances_rank [OF run(1)])
    fix k fr cr assume i: "rank_inv s r k fr cr"
    note b = ready_block [OF i run(2,1,3)]
    show "\<exists>k'. rank_inv ?s r k' fr cr \<and>
      nb r - k' + (if tt_status (cs_task ?s r) = UCC_INPROGRESS then 1 else 0)
        < nb r - k + (if tt_status (cs_task s r) = UCC_INPROGRESS then 1 else 0)"
      using b ready_inv(1) [OF i run(2)]
      by (intro exI [of _ "Suc k"] conjI post_step_inv [OF i run(2,1) b(1)]) (auto simp: note_xfers_def)
  qed (simp_all add: note_xfers_def)
qed

lemma finish_advances:
  assumes finish: "r \<in> R" "coll_ready s r" "prog r (cs_task s r) (cs_x s r) (cs_mem s r) = Finish st m"
  shows "advances s
    (s\<lparr>cs_task := (cs_task s)(r := (cs_task s r)\<lparr>tt_status := st\<rparr>), cs_mem := (cs_mem s)(r := m)\<rparr>)" (is "advances s ?s")
proof -
  show ?thesis
  proof (rule advances_rank [OF finish(1)])
    fix k fr cr assume i: "rank_inv s r k fr cr"
    show "\<exists>k'. rank_inv ?s r k' fr cr \<and>
      nb r - k' + (if tt_status (cs_task ?s r) = UCC_INPROGRESS then 1 else 0)
        < nb r - k + (if tt_status (cs_task s r) = UCC_INPROGRESS then 1 else 0)"
      using ready_inv(1) [OF i finish(2)] finish_step_inv(2) [OF i finish(2,1,3), of "?s"]
      by (intro exI [of _ k] conjI finish_step_inv(1) [OF i finish(2,1,3)]) simp_all
  qed simp_all
qed

lemma fail_advances:
  assumes fail: "r \<in> R" "coll_ready s r" "prog r (cs_task s r) (cs_x s r) (cs_mem s r) = Block o1 w x m" "o1 = ops1 @ op # ops2"
      "st \<noteq> UCC_OK" "st \<noteq> UCC_INPROGRESS" "tt_status t = st"
  shows "advances s
    (note_xfers r ops1 (s\<lparr>cs_task := (cs_task s)(r := t), cs_x := (cs_x s)(r := x), cs_mem := (cs_mem s)(r := m)\<rparr>))" (is "advances s ?s")
proof -
  show ?thesis
  proof (rule advances_rank [OF fail(1)])
    fix k fr cr assume i: "rank_inv s r k fr cr"
    note b = ready_block [OF i fail(2,1,3)]
    have o: "ops r k = ops1 @ op # ops2" using b(2) fail(4) by simp
    show "\<exists>k'. rank_inv ?s r k' fr cr \<and>
      nb r - k' + (if tt_status (cs_task ?s r) = UCC_INPROGRESS then 1 else 0)
        < nb r - k + (if tt_status (cs_task s r) = UCC_INPROGRESS then 1 else 0)"
      using b fail(5-7) ready_inv(1) [OF i fail(2)]
      by (intro exI [of _ k] conjI fail_step_inv [OF i fail(2,1) b(1) o]) (auto simp: note_xfers_def)
  qed (simp_all add: note_xfers_def)
qed

lemma fetch_advances:
  assumes fetch: "p \<in> R" "q \<in> R" "cs_out s p q = rg # rgs"
  shows "advances s
    (s\<lparr>cs_task := (cs_task s)(p := ucc_tl_ucp_send_completion_cb UCS_OK (cs_task s p)),
      cs_out := (cs_out s)(p := (cs_out s p)(q := rgs)), cs_chan := (cs_chan s)(p := (cs_chan s p)(q := cs_chan s p q @ [read_mem (cs_mem s p) rg]))\<rparr>)" (is "advances s ?s")
proof -
  show ?thesis
  proof (rule advances_link [OF fetch(1,2,1)])
    fix kb c f assume i: "coll_inv s kb c f"
    then have ip: "rank_inv s p (kb p) (f p) (\<lambda>x. c x p)" and ch: "chan_ok s p q (c p q) (f p q)" using fetch(1,2) by (auto simp: coll_inv_def)
    note fs = fetch_step_inv [OF ip fetch(1-3), of ?s]
    have "chan_ok ?s p q (c p q) (Suc (f p q))"
      using ch fs(2,3) by (auto simp: chan_ok_def Suc_diff_le take_Suc_conv_app_nth)
    then show "\<exists>c' f'. rank_inv ?s p (kb p) (f' p) (\<lambda>x. c' x p) \<and> chan_ok ?s p q (c' p q) (f' p q)
      \<and> (\<forall>x. x \<noteq> p \<longrightarrow> f' x = f x \<and> (\<forall>y. c' y x = c y x)) \<and> (\<forall>x y. (x, y) \<noteq> (p, q) \<longrightarrow> c' x y = c x y \<and> f' x y = f x y)
      \<and> length (sent p q (nb p)) - f' p q + (length (sent p q (nb p)) - c' p q) < length (sent p q (nb p)) - f p q + (length (sent p q (nb p)) - c p q)"
      using fs(1,2) by (intro exI [of _ c] exI [of _ "f(p := (f p)(q := Suc (f p q)))"]) auto
  qed (auto simp: ucc_tl_ucp_send_completion_cb_def Let_def)
qed

text \<open>When an answer arrives, the buffers of the messages it answers have been read.\<close>

lemma echo_read:
  assumes i: "coll_inv s kb c f" and R: "p \<in> R" "q \<in> R" and lt: "c p q < f p q" and e: "echo q x p"
  shows "cs_out s q x = []"
proof -
  have ri: "rank_inv s p (kb p) (f p) (\<lambda>y. c y p)" "rank_inv s q (kb q) (f q) (\<lambda>y. c y q)" and ch: "chan_ok s q p (c q p) (f q p)"
    using i R by (auto simp: coll_inv_def)
  have pos: "0 < f p q + length (cs_out s p q)" using lt by simp
  have "timely p (f p) (cs_out s p) (\<lambda>y. c y p)" using ri(1) by (simp add: rank_inv_def)
  from this [unfolded timely_def, rule_format, OF R(2) pos]
  obtain m where m: "m \<le> nb p" "0 < length (sent p q m)" "\<forall>y\<in>R. length (regs p y (m - 1)) \<le> c y p" by blast
  have "length (sent q p (nb q)) \<le> length (regs p q (m - 1))" using e m(1,2) by (simp add: echo_def answers_def)
  also have "\<dots> \<le> f q p" using m(3) R(2) ch by (auto simp: chan_ok_def)
  finally have "length (sent q p (nb q)) \<le> f q p" .
  moreover have "f q p + length (cs_out s q p) \<le> length (sent q p (nb q))" using ri(2) R(1) by (simp add: rank_inv_def)
  ultimately have "length (cs_out s q p) = 0" by linarith
  then show ?thesis using e by (simp add: echo_def)
qed

lemma deliver_advances:
  assumes deliver: "p \<in> R" "q \<in> R" "cs_chan s p q = d # ds" "cs_in s q p = rg # rgs" "length d \<le> rg_len rg"
  shows "advances s
    (s\<lparr>cs_task := (cs_task s)(q := ucc_tl_ucp_recv_completion_cb UCS_OK (cs_task s q)),
      cs_mem := (cs_mem s)(q := write_mem (cs_mem s q) rg d), cs_chan := (cs_chan s)(p := (cs_chan s p)(q := ds)), cs_in := (cs_in s)(q := (cs_in s q)(p := rgs))\<rparr>)" (is "advances s ?s")
proof -
  show ?thesis
  proof (rule advances_link [OF deliver(1,2,2)])
    fix kb c f assume i: "coll_inv s kb c f"
    then have iq: "rank_inv s q (kb q) (f q) (\<lambda>x. c x q)" and ch: "chan_ok s p q (c p q) (f p q)" using deliver(1,2) by (auto simp: coll_inv_def)
    have lt: "c p q < f p q" "c p q < length (sent p q (nb p))" using ch deliver(3) by (auto simp: chan_ok_def intro!: le_neq_implies_less)
    have tk: "take (f p q - c p q) (drop (c p q) (sent p q (nb p))) = sent p q (nb p) ! c p q # take (f p q - Suc (c p q)) (drop (Suc (c p q)) (sent p q (nb p)))"
      using lt by (simp add: Cons_nth_drop_Suc [symmetric] Suc_diff_Suc [symmetric] del: Suc_diff_Suc)
    then have d: "d = sent p q (nb p) ! c p q" and ds: "chan_ok ?s p q (Suc (c p q)) (f p q)" using ch deliver(3) lt by (auto simp: chan_ok_def)
    have "rank_inv ?s q (kb q) (f q) ((\<lambda>x. c x q)(p := Suc (c p q)))"
      by (rule deliver_step_inv [OF iq deliver(1,2,4) d deliver(5)]) (use echo_read [OF i deliver(1,2) lt(1)] in simp_all)
    moreover have "(\<lambda>x. (c(p := (c p)(q := Suc (c p q)))) x q) = (\<lambda>x. c x q)(p := Suc (c p q))" by auto
    ultimately show "\<exists>c' f'. rank_inv ?s q (kb q) (f' q) (\<lambda>x. c' x q) \<and> chan_ok ?s p q (c' p q) (f' p q)
      \<and> (\<forall>x. x \<noteq> q \<longrightarrow> f' x = f x \<and> (\<forall>y. c' y x = c y x)) \<and> (\<forall>x y. (x, y) \<noteq> (p, q) \<longrightarrow> c' x y = c x y \<and> f' x y = f x y)
      \<and> length (sent p q (nb p)) - f' p q + (length (sent p q (nb p)) - c' p q) < length (sent p q (nb p)) - f p q + (length (sent p q (nb p)) - c p q)"
      using ds lt by (intro exI [of _ "c(p := (c p)(q := Suc (c p q)))"] exI [of _ f]) auto
  qed (auto simp: ucc_tl_ucp_recv_completion_cb_def Let_def)
qed

lemma step_advances: "coll_step R prog s s' \<Longrightarrow> advances s s'"
  by (induction rule: coll_step.induct)
    (rule run_advances finish_advances fail_advances fetch_advances deliver_advances; assumption)+

lemma reach_inv: "coll_reach R prog start s \<Longrightarrow> \<exists>kb c f. coll_inv s kb c f"
proof (induction rule: coll_reach.induct)
  case (init s)
  then show ?case using initial_inv by blast
next
  case (step s s')
  then show ?case using step_advances unfolding advances_def by metis
qed

lemma reach_result:
  assumes "coll_reach R prog start s" "r \<in> R" "tt_status (cs_task s r) = UCC_OK"
  shows "cs_mem s r = F r"
  using reach_inv [OF assms(1)] assms(2,3) by (auto simp: coll_inv_def rank_inv_def)

lemma time_le: "j \<le> k \<Longrightarrow> k < nb r \<Longrightarrow> r \<in> R \<Longrightarrow> T r j \<le> T r k"
proof (induction k rule: dec_induct)
  case (step k)
  then show ?case using time_mono [of r k] by simp
qed simp

text \<open>In a system that cannot take a step, a rank in progress waits for one whose next block comes before.\<close>

lemma stuck_rank:
  assumes i: "coll_inv s kb c f" and al: "\<And>r. r \<in> R \<Longrightarrow> alive s r" and stuck: "\<And>s'. \<not> coll_step R prog s s'"
    and q: "q \<in> R" "tt_status (cs_task s q) = UCC_INPROGRESS"
  obtains p where "p \<in> R" "tt_status (cs_task s p) = UCC_INPROGRESS" "0 < kb q" "kb p < nb p" "T p (kb p) < T q (kb q)"
proof -
  have ri: "r \<in> R \<Longrightarrow> rank_inv s r (kb r) (f r) (\<lambda>p. c p r)" for r using i by (simp add: coll_inv_def)
  note l = rank_inv_live(1) [OF ri [OF q(1)] q(2), unfolded live_ok_def]
  have out: "cs_out s x y = []" if "x \<in> R" "y \<in> R" for x y
    using stuck coll_step.fetch [OF that] by (cases "cs_out s x y") blast+
  have "\<exists>p\<in>R. cs_in s q p \<noteq> []"
  proof (rule ccontr)
    assume "\<not> ?thesis"
    then have rd: "coll_ready s q"
      using l q out by (auto simp: coll_ready_def UCC_TL_UCP_TASK_P2P_COMPLETE_def UCC_TL_UCP_TASK_RECV_COMPLETE_def split: wait_for.splits)
    show False
      using stuck coll_step.run [OF q(1) rd] coll_step.finish [OF q(1) rd]
      by (cases "prog q (cs_task s q) (cs_x s q) (cs_mem s q)") blast+
  qed
  then obtain p rg rgs where p: "p \<in> R" "cs_in s q p = rg # rgs" by (metis list.exhaust)
  have ch: "chan_ok s p q (c p q) (f p q)" using i p(1) q(1) by (simp add: coll_inv_def)
  have cq: "c p q + length (cs_in s q p) = length (regs q p (kb q))" using rank_inv_live(4) [OF ri [OF q(1)] q(2) p(1)] .
  then have c: "c p q < length (regs q p (kb q))" using p(2) by simp
  then have k0: "0 < kb q" by (cases "kb q") auto
  have kq: "kb q \<le> nb q" using rank_inv_live(2) [OF ri [OF q(1)] q(2)] .
  have in_q: "cs_in s q p = take (length (cs_in s q p)) (drop (c p q) (regs q p (nb q)))" "c p q + length (cs_in s q p) \<le> length (regs q p (nb q))"
    using ri [OF q(1)] p(1) unfolding rank_inv_def by blast+
  then have rg: "rg = regs q p (nb q) ! c p q" using arg_cong [OF in_q(1) [unfolded p(2)], of "\<lambda>xs. xs ! 0"] by simp
  have "cs_chan s p q = []"
  proof (cases "cs_chan s p q")
    case (Cons d ds)
    then have dd: "d # ds = take (f p q - c p q) (drop (c p q) (sent p q (nb p)))" "c p q \<le> f p q" "f p q \<le> length (sent p q (nb p))"
      using ch by (simp_all add: chan_ok_def)
    then have "c p q < f p q" by (cases "c p q = f p q") auto
    then have "d = sent p q (nb p) ! c p q" using arg_cong [OF dd(1), of "\<lambda>xs. xs ! 0"] dd(2,3) by simp
    also have "\<dots> = read_mem (E q (kb q)) rg" unfolding rg by (rule ideal_message [OF p(1) q(1) k0 kq _ c]) (use l p(1) in simp)
    finally have "length d \<le> rg_len rg" by simp
    then show ?thesis using stuck coll_step.deliver [OF p(1) q(1) Cons p(2)] by blast
  qed
  then have cf: "c p q = f p q" using ch by (auto simp: chan_ok_def)
  have "f p q + length (cs_out s p q) = length (sent p q (kb p))" using ri [OF p(1)] al [OF p(1)] q(1) unfolding rank_inv_def by blast
  then have fp: "f p q = length (sent p q (kb p))" using out [OF p(1) q(1)] by simp
  have kp: "kb p \<le> nb p" using ri [OF p(1)] by (simp add: rank_inv_def)
  have "\<exists>j. kb p \<le> j \<and> j < nb p \<and> T p j < T q (kb q)"
  proof (rule ccontr)
    assume n: "\<not> ?thesis"
    have "length (regs q p (Suc (kb q - 1))) \<le> length (sent p q (kb p))"
      by (rule causal [OF p(1) q(1) _ kp]) (use k0 kq n in \<open>auto simp: not_less\<close>)
    then show False using c cf fp k0 by simp
  qed
  then obtain j where j: "kb p \<le> j" "j < nb p" "T p j < T q (kb q)" by blast
  have "tt_status (cs_task s p) = UCC_INPROGRESS" using al [OF p(1)] ri [OF p(1)] j by (auto simp: alive_def rank_inv_def)
  then show ?thesis using that p(1) k0 j time_le [OF j(1,2) p(1)] by (meson le_less_trans)
qed

lemma no_deadlock:
  assumes r: "coll_reach R prog start s" and al: "\<And>r. r \<in> R \<Longrightarrow> alive s r" and live: "r0 \<in> R" "tt_status (cs_task s r0) = UCC_INPROGRESS"
  shows "\<exists>s'. coll_step R prog s s'"
proof (rule ccontr)
  assume "\<nexists>s'. coll_step R prog s s'"
  then have stuck: "\<And>s'. \<not> coll_step R prog s s'" by blast
  obtain kb c f where i: "coll_inv s kb c f" using reach_inv [OF r] by blast
  have sr: "\<exists>p. p \<in> R \<and> tt_status (cs_task s p) = UCC_INPROGRESS \<and> 0 < kb q \<and> kb p < nb p \<and> T p (kb p) < T q (kb q)"
    if "q \<in> R" "tt_status (cs_task s q) = UCC_INPROGRESS" for q
    by (rule stuck_rank [OF i _ stuck that]) (use al in blast)+
  have "False" if "q \<in> R" "tt_status (cs_task s q) = UCC_INPROGRESS" for q
    using that
  proof (induction "T q (kb q)" arbitrary: q rule: less_induct)
    case less
    obtain p where "p \<in> R" "tt_status (cs_task s p) = UCC_INPROGRESS" "T p (kb p) < T q (kb q)"
      using sr [OF less.prems] by blast
    then show False using less.hyps by blast
  qed
  then show False using live by blast
qed

lemma terminates: "coll_initial R start (run 0) \<Longrightarrow> \<exists>i. \<not> coll_step R prog (run i) (run (Suc i))"
proof (rule ccontr)
  assume init: "coll_initial R start (run 0)" and "\<nexists>i. \<not> coll_step R prog (run i) (run (Suc i))"
  then have steps: "coll_step R prog (run i) (run (Suc i))" for i by blast
  have "\<exists>kb c f. coll_inv (run i) kb c f \<and> work_left (run i) kb c f + i \<le> work_left (run 0) (\<lambda>_. 0) (\<lambda>_ _. 0) (\<lambda>_ _. 0)" for i
  proof (induction i)
    case 0
    then show ?case using initial_inv [OF init] by auto
  next
    case (Suc i)
    then obtain kb c f where "coll_inv (run i) kb c f" "work_left (run i) kb c f + i \<le> work_left (run 0) (\<lambda>_. 0) (\<lambda>_ _. 0) (\<lambda>_ _. 0)" by blast
    moreover from step_advances [OF steps [of i]] calculation(1) obtain kb' c' f'
      where "coll_inv (run (Suc i)) kb' c' f'" "work_left (run (Suc i)) kb' c' f' < work_left (run i) kb c f" unfolding advances_def by blast
    ultimately show ?case by (intro exI conjI) (assumption, linarith)
  qed
  from this [of "Suc (work_left (run 0) (\<lambda>_. 0) (\<lambda>_ _. 0) (\<lambda>_ _. 0))"] show False by auto
qed

theorem ideal_correct: "coll_correct R prog start (\<lambda>r m. m = F r)"
  unfolding coll_correct_def using reach_result no_deadlock terminates by (auto simp: alive_def)

end

section \<open>Rounds\<close>

text \<open>
  Collectives in rounds: all ranks run the same number of blocks, and in each block two ranks post as many sends as
  receives for each other.
\<close>

locale coll_rounds =
  fixes R :: "ucc_rank set"
    and prog :: "('x, 'a) coll_prog"
    and start :: "ucc_rank \<Rightarrow> 'x \<times> 'a mem"
    and K :: nat
    and X :: "ucc_rank \<Rightarrow> nat \<Rightarrow> 'x"
    and E :: "ucc_rank \<Rightarrow> nat \<Rightarrow> 'a mem"
    and P :: "ucc_rank \<Rightarrow> nat \<Rightarrow> 'a mem"
    and ops :: "ucc_rank \<Rightarrow> nat \<Rightarrow> xfer list"
    and wt :: "ucc_rank \<Rightarrow> nat \<Rightarrow> wait_for"
    and F :: "ucc_rank \<Rightarrow> 'a mem"
  assumes fin: "finite R"
    and ideal_start: "r \<in> R \<Longrightarrow> start r = (X r 0, E r 0)"
    and ideal_block: "r \<in> R \<Longrightarrow> k < K \<Longrightarrow> tt_send_posted t = n_sends (ops r) k \<Longrightarrow> tt_recv_posted t = n_recvs (ops r) k \<Longrightarrow>
      prog r t (X r k) (E r k) = Block (ops r k) (wt r k) (X r (Suc k)) (P r k)"
    and ideal_finish: "r \<in> R \<Longrightarrow> tt_send_posted t = n_sends (ops r) K \<Longrightarrow> tt_recv_posted t = n_recvs (ops r) K \<Longrightarrow>
      prog r t (X r K) (E r K) = Finish UCC_OK (F r)"
    and last_all: "r \<in> R \<Longrightarrow> 0 < K \<Longrightarrow> wt r (K - 1) = Wait_all"
    and few: "r \<in> R \<Longrightarrow> n_sends (ops r) K < 2 ^ 32 \<and> n_recvs (ops r) K < 2 ^ 32"
    and peers: "r \<in> R \<Longrightarrow> k < K \<Longrightarrow> Xsend q rg \<in> set (ops r k) \<or> Xrecv q rg \<in> set (ops r k) \<Longrightarrow> q \<in> R"
    and frame: "r \<in> R \<Longrightarrow> k < K \<Longrightarrow> (\<And>p rg. Xrecv p rg \<in> set (ops r k) \<Longrightarrow> \<not> in_region rg b a) \<Longrightarrow> E r (Suc k) b a = P r k b a"
    and round_matched: "p \<in> R \<Longrightarrow> q \<in> R \<Longrightarrow> k < K \<Longrightarrow>
      map (read_mem (P p k)) (sends_to q (ops p k)) = map (read_mem (E q (Suc k))) (recvs_from p (ops q k))"
    and no_overlap: "r \<in> R \<Longrightarrow> j \<le> k \<Longrightarrow> k < K \<Longrightarrow> (\<And>i. j \<le> i \<Longrightarrow> i < k \<Longrightarrow> wt r i = Wait_recv) \<Longrightarrow>
      Xsend q rg \<in> set (ops r j) \<Longrightarrow> Xrecv p rg' \<in> set (ops r k) \<Longrightarrow> in_region rg b a \<Longrightarrow> \<not> in_region rg' b a"
    and stable: "r \<in> R \<Longrightarrow> j < k \<Longrightarrow> k < K \<Longrightarrow> (\<And>i. j \<le> i \<Longrightarrow> i < k \<Longrightarrow> wt r i = Wait_recv) \<Longrightarrow>
      Xsend q rg \<in> set (ops r j) \<Longrightarrow> in_region rg b a \<Longrightarrow> P r k b a = E r k b a"
begin

lemma rounds_matched: "p \<in> R \<Longrightarrow> q \<in> R \<Longrightarrow> k \<le> K \<Longrightarrow> sent_data (P p) (ops p) q k = recv_data (E q) (ops q) p k"
  by (induction k) (simp_all add: seq_Suc round_matched)

end

sublocale coll_rounds \<subseteq> ideal: coll_ideal R prog start "\<lambda>_. K" X E P ops wt F "\<lambda>_ k. k"
proof (unfold_locales, goal_cases)
  case 1
  show ?case by (rule fin)
next
  case 2
  then show ?case by (rule ideal_start)
next
  case 3
  then show ?case by (rule ideal_block)
next
  case 4
  then show ?case by (rule ideal_finish)
next
  case 5
  then show ?case by (rule last_all)
next
  case 6
  then show ?case by (rule few)
next
  case 7
  then show ?case by (rule peers)
next
  case 8
  then show ?case by (rule frame)
next
  case 9
  then show ?case using rounds_matched by blast
next
  case 10
  then show ?case using no_overlap by blast
next
  case 11
  then show ?case by (rule stable)
next
  case 12
  then show ?case by simp
next
  case (13 p q k m)
  have "k < m" using 13(5) [of k] 13(3) by force
  then have "length (sent_data (P p) (ops p) q (Suc k)) \<le> length (sent_data (P p) (ops p) q m)"
    using sent_data_mono [of "Suc k" m "P p" "ops p" q] by auto
  then show ?case using rounds_matched [OF 13(1,2), of "Suc k"] 13(3) by simp
qed

end
