(* ===== verification/Team_Ranks.thy ===== *)
theory Team_Ranks
  imports Coll_Exec Ep_Map
begin

text \<open>
  The ranks of a collective. A collective runs on the subset of the team an endpoint map names; a rank has a
  position in the map, and its peers are computed from positions modulo the size. This theory holds the
  evaluation of the map and the arithmetic of positions the collectives share.
\<close>

section \<open>Subsets of a team\<close>

definition ep_eval :: "ucc_ep_map \<Rightarrow> ucc_rank \<Rightarrow> ucc_rank" where
  "ep_eval m i = (case ucc_ep_map_eval m i of Some r \<Rightarrow> r | None \<Rightarrow> UCC_RANK_INVALID)"

definition ep_local_rank :: "ucc_ep_map \<Rightarrow> ucc_rank \<Rightarrow> ucc_rank" where
  "ep_local_rank m r = (case ucc_ep_map_local_rank m r of Some i \<Rightarrow> i | None \<Rightarrow> UCC_RANK_INVALID)"

definition map_ranks :: "ucc_ep_map \<Rightarrow> ucc_rank set" where
  "map_ranks emap = ep_eval emap ` {..<ep_num emap}"

text \<open>A well-formed map; \<open>mr\<close> is the position of each of its ranks, the field \<open>myrank\<close> of a subset.\<close>

definition map_ok :: "ucc_ep_map \<Rightarrow> (ucc_rank \<Rightarrow> ucc_rank) \<Rightarrow> bool" where
  "map_ok emap mr \<longleftrightarrow> ep_map_wf emap \<and> 0 < ep_num emap \<and> ep_num emap < 2 ^ 31 \<and> (\<forall>i<ep_num emap. mr (ep_eval emap i) = i)"

lemma map_okD:
  "map_ok emap mr \<Longrightarrow> 0 < ep_num emap" "map_ok emap mr \<Longrightarrow> ep_num emap < 2 ^ 31"
  "map_ok emap mr \<Longrightarrow> i < ep_num emap \<Longrightarrow> mr (ep_eval emap i) = i"
  by (simp_all add: map_ok_def)

lemma map_ranksE:
  assumes "map_ok emap mr" "r \<in> map_ranks emap"
  obtains i where "i < ep_num emap" "r = ep_eval emap i" "mr r = i"
  using assms that by (auto simp: map_ranks_def map_ok_def)

lemma ep_eval_inj: "map_ok emap mr \<Longrightarrow> i < ep_num emap \<Longrightarrow> j < ep_num emap \<Longrightarrow> ep_eval emap i = ep_eval emap j \<longleftrightarrow> i = j"
  by (metis map_ok_def)

lemma map_ranks_in: "i < ep_num emap \<Longrightarrow> ep_eval emap i \<in> map_ranks emap"
  by (simp add: map_ranks_def)

section \<open>Positions\<close>

text \<open>The arithmetic of ranks on a ring.\<close>

lemma u32_sub_add: "b \<le> a + c \<Longrightarrow> a + c < 2 ^ 32 \<Longrightarrow> b < 2 ^ 32 \<Longrightarrow> u32 (sub32 a b + c) = a + c - b"
proof -
  assume a: "b \<le> a + c" "a + c < 2 ^ 32" "b < 2 ^ 32"
  have "u32 (sub32 a b + c) = (a + (2 ^ 32 - b) + c) mod 2 ^ 32" using a(3) unfolding sub32_def u32_def by (simp add: mod_add_left_eq)
  also have "a + (2 ^ 32 - b) + c = (a + c - b) + 2 ^ 32" using a by simp
  also have "((a + c - b) + 2 ^ 32) mod 2 ^ 32 = a + c - b" using a by (simp only: mod_add_self2) simp
  finally show ?thesis .
qed

lemma sub32_sub32: "b + c < 2 ^ 32 \<Longrightarrow> sub32 (sub32 a b) c = sub32 a (b + c)"
proof -
  assume bc: "b + c < 2 ^ 32"
  have "sub32 (sub32 a b) c = (a + (2 ^ 32 - b) + (2 ^ 32 - c)) mod 2 ^ 32"
  proof -
    have "sub32 (sub32 a b) c = (u32 (a + (2 ^ 32 - b)) + (2 ^ 32 - c)) mod 2 ^ 32" using bc by (simp add: sub32_def u32_def)
    then show ?thesis by (simp only: u32_def mod_add_left_eq)
  qed
  also have "a + (2 ^ 32 - b) + (2 ^ 32 - c) = (a + (2 ^ 32 - (b + c))) + 2 ^ 32" using bc by simp
  also have "((a + (2 ^ 32 - (b + c))) + 2 ^ 32) mod 2 ^ 32 = sub32 a (b + c)" using bc unfolding sub32_def u32_def by (simp only: mod_add_self2) simp
  finally show ?thesis .
qed

definition ring_back :: "nat \<Rightarrow> nat \<Rightarrow> nat \<Rightarrow> nat" where
  "ring_back n i k = (i + n - k) mod n"

lemma ring_back_lt [simp]: "0 < n \<Longrightarrow> ring_back n i k < n"
  by (simp add: ring_back_def)

lemma ring_back_0 [simp]: "i < n \<Longrightarrow> ring_back n i 0 = i"
  by (simp add: ring_back_def)

lemma ring_back_cases: "i < n \<Longrightarrow> k \<le> n \<Longrightarrow> ring_back n i k = (if k \<le> i then i - k else i + n - k)"
proof -
  assume a: "i < n" "k \<le> n"
  show ?thesis
  proof (cases "k \<le> i")
    case True
    then have "i + n - k = (i - k) + n" by simp
    then have "ring_back n i k = (i - k) mod n" by (simp only: ring_back_def mod_add_self2)
    then show ?thesis using a True by simp
  qed (use a in \<open>simp add: ring_back_def\<close>)
qed

lemma ring_back_next: "i < n \<Longrightarrow> k < n \<Longrightarrow> ring_back n ((i + 1) mod n) (Suc k) = ring_back n i k"
  by (cases "Suc i = n") (auto simp: ring_back_cases)

lemma ring_back_inj: "i < n \<Longrightarrow> j < n \<Longrightarrow> k < n \<Longrightarrow> ring_back n i j = ring_back n i k \<longleftrightarrow> j = k"
  by (auto simp: ring_back_cases split: if_splits)

lemma ring_back_surj: "i < n \<Longrightarrow> b < n \<Longrightarrow> \<exists>k<n. ring_back n i k = b"
  by (rule exI [of _ "ring_back n i b"]) (auto simp: ring_back_cases)

lemma ring_back_image: "i < n \<Longrightarrow> ring_back n i ` {..n - 1} = {..<n}"
proof (intro equalityI subsetI)
  fix b assume "i < n" "b \<in> {..<n}"
  then obtain k where "k < n" "ring_back n i k = b" using ring_back_surj by blast
  then show "b \<in> ring_back n i ` {..n - 1}" by (intro image_eqI [of _ _ k]) auto
qed auto

lemma ring_back_prev: "i < n \<Longrightarrow> j < n \<Longrightarrow> j = (i + 1) mod n \<longleftrightarrow> i = ring_back n j 1"
  by (cases "Suc i = n") (auto simp: ring_back_cases split: if_splits)

section \<open>Examples\<close>

definition idle_task :: ucc_tl_ucp_task where
  "idle_task = \<lparr>tt_status = UCC_OPERATION_INITIALIZED, tt_send_posted = 0, tt_send_completed = 0, tt_recv_posted = 0,
     tt_recv_completed = 0, tt_tag = 0, tt_n_polls = 0, tt_phase = UCC_KN_PHASE_INIT, tt_p = kn_blank\<rparr>"

definition reverse_map :: "nat \<Rightarrow> ucc_ep_map" where
  "reverse_map n = \<lparr>ep_type = EP_MAP_STRIDED (n - 1) (-1), ep_num = n\<rparr>"

lemma reverse_map_3:
  "map_ok (reverse_map 3) (\<lambda>r. 2 - r)" "map_ranks (reverse_map 3) = {0, 1, 2}" "ep_num (reverse_map 3) = 3"
  "ep_eval (reverse_map 3) 0 = 2" "ep_eval (reverse_map 3) 1 = 1" "ep_eval (reverse_map 3) 2 = 0"
proof -
  have e: "ep_eval (reverse_map 3) 0 = 2" "ep_eval (reverse_map 3) (Suc 0) = 1" "ep_eval (reverse_map 3) 2 = 0"
    by (simp_all add: ep_eval_def reverse_map_def ucc_ep_map_eval_def u32_of_int_def)
  have num: "ep_num (reverse_map 3) = 3" and c: "\<And>i. i < 3 \<Longrightarrow> i = 0 \<or> i = Suc 0 \<or> i = (2 :: nat)" by (auto simp: reverse_map_def)
  have l: "{..<3} = {0, Suc 0, 2 :: nat}" by auto
  have "ep_map_wf (reverse_map 3)"
    by (auto simp: ep_map_wf_def reverse_map_def inj_on_def l ucc_ep_map_eval_def u32_of_int_def strided_ok_def less_Suc_eq numeral_3_eq_3)
  then show "map_ok (reverse_map 3) (\<lambda>r. 2 - r)"
    using e by (auto simp: map_ok_def num dest!: c)
  show "map_ranks (reverse_map 3) = {0, 1, 2}" unfolding map_ranks_def num l using e by auto
qed (simp_all add: ep_eval_def reverse_map_def ucc_ep_map_eval_def u32_of_int_def)

end
