(* ===== verification/Kn_Tree.thy ===== *)
theory Kn_Tree
  imports Team_Ranks
begin

text \<open>
  Knomial trees of the rooted collectives of the UCP transport layer: the distances of the levels, from
  \<open>tl_ucp_coll.h\<close>, and the relation of a rank to its parent and its children at a level.
\<close>

section \<open>Distances\<close>

text \<open>\<open>CALC_KN_TREE_DIST\<close>: the loop does not end for every radix, so it may have no result.\<close>

partial_function (option) kn_tree_dist_loop :: "ucc_rank \<Rightarrow> nat \<Rightarrow> ucc_rank \<Rightarrow> ucc_rank option" where
  "kn_tree_dist_loop sz radix dist =
     (if u32 (dist * radix) < sz then kn_tree_dist_loop sz radix (u32 (dist * radix)) else Some dist)"

definition CALC_KN_TREE_DIST :: "ucc_rank \<Rightarrow> nat \<Rightarrow> ucc_rank option" where
  "CALC_KN_TREE_DIST sz radix = kn_tree_dist_loop sz radix 1"

definition VRANK :: "ucc_rank \<Rightarrow> ucc_rank \<Rightarrow> ucc_rank \<Rightarrow> ucc_rank" where
  "VRANK rank root team_size = u32 (sub32 rank root + team_size) mod team_size"

definition INV_VRANK :: "ucc_rank \<Rightarrow> ucc_rank \<Rightarrow> ucc_rank \<Rightarrow> ucc_rank" where
  "INV_VRANK rank root team_size = u32 (rank + root) mod team_size"

text \<open>The number of levels below the root.\<close>

definition kn_depth :: "nat \<Rightarrow> nat \<Rightarrow> nat" where
  "kn_depth radix n = (LEAST e. n \<le> radix ^ Suc e)"

definition tree_ok :: "nat \<Rightarrow> nat \<Rightarrow> bool" where
  "tree_ok radix n \<longleftrightarrow> 2 \<le> radix \<and> 0 < n \<and> n < 2 ^ 31 \<and> radix * n < 2 ^ 32"

lemma kn_depth_least: "2 \<le> radix \<Longrightarrow> n \<le> radix ^ Suc (kn_depth radix n)"
  unfolding kn_depth_def
proof (rule LeastI)
  assume "2 \<le> radix"
  then have "n < radix ^ n" by (intro less_le_trans [OF less_exp]) (simp add: power_mono)
  also have "\<dots> \<le> radix ^ Suc n" using \<open>2 \<le> radix\<close> by simp
  finally show "n \<le> radix ^ Suc n" by simp
qed

lemma kn_depth_less: "e < kn_depth radix n \<Longrightarrow> radix ^ Suc e < n"
  using not_less_Least [of e "\<lambda>e. n \<le> radix ^ Suc e"] by (simp add: kn_depth_def not_le)

lemma kn_depth_pow: "0 < n \<Longrightarrow> radix ^ kn_depth radix n \<le> n"
  using kn_depth_less [of "kn_depth radix n - 1" radix n] by (cases "kn_depth radix n") auto

lemma kn_tree_dist_loop_depth:
  assumes "tree_ok radix n" "e \<le> kn_depth radix n"
  shows "kn_tree_dist_loop n radix (radix ^ e) = Some (radix ^ kn_depth radix n)"
  using assms(2)
proof (induction "kn_depth radix n - e" arbitrary: e)
  case 0
  have "radix ^ e * radix \<le> n * radix" using kn_depth_pow [of n radix] 0 assms(1) by (simp add: tree_ok_def)
  also have "\<dots> < 2 ^ 32" using assms(1) by (simp add: tree_ok_def mult.commute)
  finally have "u32 (radix ^ e * radix) = radix ^ Suc e" by (intro trans [OF u32_id]) (simp_all add: mult.commute)
  then show ?case
    using 0 kn_depth_least [of radix n] assms(1) by (subst kn_tree_dist_loop.simps) (simp add: tree_ok_def)
next
  case (Suc d)
  then have e: "e < kn_depth radix n" by simp
  from kn_depth_less [OF this] have "radix ^ e * radix < n" by (simp add: mult.commute)
  moreover from this have "u32 (radix ^ e * radix) = radix ^ Suc e" using assms(1) by (intro trans [OF u32_id]) (simp_all add: tree_ok_def mult.commute)
  moreover have "kn_tree_dist_loop n radix (radix ^ Suc e) = Some (radix ^ kn_depth radix n)" using Suc.hyps(1) [of "Suc e"] Suc.hyps(2) e by linarith
  ultimately show ?case by (subst kn_tree_dist_loop.simps) (simp add: mult.commute)
qed

lemma tree_bound:
  assumes "tree_ok radix n" "d \<le> n" "v < n" "i < radix"
  shows "v + i * d < 2 ^ 32"
proof -
  have "i * d \<le> (radix - 1) * n" using assms(2,4) by (intro mult_le_mono) auto
  then have "v + i * d < n + (radix - 1) * n" using assms(3) by linarith
  also have "\<dots> = radix * n" using assms(1) by (cases radix) (auto simp: tree_ok_def)
  finally show ?thesis using assms(1) by (simp add: tree_ok_def)
qed

lemma tree_rounds_few:
  assumes "tree_ok radix n"
  shows "Suc (kn_depth radix n) * (radix - 1) < 2 ^ 32"
proof -
  have r: "2 \<le> radix" "0 < n" "radix * n < 2 ^ 32" using assms by (auto simp: tree_ok_def)
  have "1 + k * (radix - 1) \<le> radix ^ k" for k
  proof (induction k)
    case (Suc k)
    have "(radix - 1) * 1 \<le> (radix - 1) * radix ^ k" using r(1) by (intro mult_le_mono) simp_all
    then have "1 + Suc k * (radix - 1) \<le> radix ^ k + (radix - 1) * radix ^ k" using Suc unfolding mult_Suc mult_1_right by linarith
    also have "\<dots> = radix ^ Suc k" using r(1) by (cases radix) simp_all
    finally show ?case .
  qed simp
  from this [of "Suc (kn_depth radix n)"] have "Suc (kn_depth radix n) * (radix - 1) < radix * radix ^ kn_depth radix n" by simp
  also have "\<dots> \<le> radix * n" using kn_depth_pow [OF r(2), of radix] by simp
  finally show ?thesis using r(3) by simp
qed

lemma CALC_KN_TREE_DIST_depth: "tree_ok radix n \<Longrightarrow> CALC_KN_TREE_DIST n radix = Some (radix ^ kn_depth radix n)"
  using kn_tree_dist_loop_depth [of radix n 0] by (simp add: CALC_KN_TREE_DIST_def)

lemma VRANK_eq: "r < n \<Longrightarrow> root < n \<Longrightarrow> n < 2 ^ 31 \<Longrightarrow> VRANK r root n = ring_back n r root"
  by (simp add: VRANK_def ring_back_def u32_sub_add)

lemma INV_VRANK_eq: "v < n \<Longrightarrow> root < n \<Longrightarrow> n < 2 ^ 31 \<Longrightarrow> INV_VRANK v root n = (v + root) mod n"
  by (simp add: INV_VRANK_def u32_id)

lemma ring_back_add: "v < n \<Longrightarrow> root < n \<Longrightarrow> ring_back n ((v + root) mod n) root = v"
  by (cases "v + root < n") (auto simp: ring_back_cases mod_if)

lemma add_ring_back: "r < n \<Longrightarrow> root < n \<Longrightarrow> (ring_back n r root + root) mod n = r"
  by (auto simp: ring_back_cases)

section \<open>Levels\<close>

text \<open>
  At distance \<open>d\<close> a position divisible by \<open>d * R\<close> is a parent; its children are the next multiples of \<open>d\<close>.
\<close>

lemma kn_level_parent: "v mod d = 0 \<Longrightarrow> v div d mod R = 0 \<longleftrightarrow> v mod (d * R) = 0" for v d R :: nat
  by (auto simp: mod_mult2_eq)

lemma kn_level_child:
  fixes v d R i :: nat
  assumes "v mod (d * R) = 0" "0 < d" "i < R"
  shows "(v + i * d) mod d = 0" "(v + i * d) div d mod R = i"
proof -
  obtain c where c: "v = d * R * c" using assms(1) by auto
  then have "v + i * d = d * (R * c + i)" by (simp add: algebra_simps)
  then show "(v + i * d) mod d = 0" "(v + i * d) div d mod R = i" using assms(2,3) by simp_all
qed

lemma kn_level_up:
  fixes w d R :: nat
  assumes "w mod d = 0" "0 < d"
  shows "w div d mod R * d \<le> w" "(w - w div d mod R * d) mod (d * R) = 0"
proof -
  obtain c where c: "w = d * c" using assms(1) by auto
  have "w - w div d mod R * d = d * (c - c mod R)" unfolding c using assms(2) by (simp add: algebra_simps diff_mult_distrib2)
  also have "\<dots> = d * R * (c div R)" by (simp add: minus_mod_eq_mult_div)
  finally show "(w - w div d mod R * d) mod (d * R) = 0" by simp
  show "w div d mod R * d \<le> w" unfolding c using assms(2) by (simp add: mult.commute)
qed

definition kn_child :: "nat \<Rightarrow> nat \<Rightarrow> nat \<Rightarrow> nat \<Rightarrow> bool" where
  "kn_child d R v w \<longleftrightarrow> v mod (d * R) = 0 \<and> (\<exists>i. 1 \<le> i \<and> i < R \<and> w = v + i * d)"

lemma kn_child_iff:
  assumes "0 < d" "0 < R"
  shows "kn_child d R v w \<longleftrightarrow> w mod d = 0 \<and> w div d mod R \<noteq> 0 \<and> v = w - w div d mod R * d"
proof
  assume "kn_child d R v w"
  then obtain i where i: "v mod (d * R) = 0" "1 \<le> i" "i < R" "w = v + i * d" by (auto simp: kn_child_def)
  then show "w mod d = 0 \<and> w div d mod R \<noteq> 0 \<and> v = w - w div d mod R * d"
    using kn_level_child [OF i(1) assms(1) i(3)] by simp
next
  assume w: "w mod d = 0 \<and> w div d mod R \<noteq> 0 \<and> v = w - w div d mod R * d"
  then show "kn_child d R v w"
    using kn_level_up [of w d R] assms unfolding kn_child_def by (auto intro!: exI [of _ "w div d mod R"])
qed

lemma concat_map_single: "distinct xs \<Longrightarrow> x \<in> set xs \<Longrightarrow> (\<And>y. y \<in> set xs \<Longrightarrow> y \<noteq> x \<Longrightarrow> g y = []) \<Longrightarrow> concat (map g xs) = g x"
proof (induction xs)
  case (Cons y ys)
  show ?case
  proof (cases "y = x")
    case True
    then have "concat (map g ys) = []" using Cons.prems by auto
    then show ?thesis using True by simp
  qed (use Cons in auto)
qed simp

lemma sends_to_concat: "sends_to q (concat xss) = concat (map (sends_to q) xss)"
  by (induction xss) simp_all

lemma recvs_from_concat: "recvs_from q (concat xss) = concat (map (recvs_from q) xss)"
  by (induction xss) simp_all

end
