(* ===== verification/Bcast_Knomial.thy ===== *)
theory Bcast_Knomial
  imports Kn_Tree
begin

text \<open>
  Broadcast over a knomial tree, \<open>src/components/tl/ucp/bcast/bcast_knomial.c\<close>: level by level, from the greatest distance down,
  a rank receives the buffer from its parent and sends it on to its children.
\<close>

section \<open>Definitions\<close>

text \<open>
  The posts of a level at distance \<open>dist\<close>; \<open>sz\<close> is the size of the subset and \<open>root\<close> the position of the root.
\<close>

definition bcast_kn_level :: "ucc_ep_map \<Rightarrow> ucc_rank \<Rightarrow> nat \<Rightarrow> ucc_rank \<Rightarrow> nat \<Rightarrow> ucc_rank \<Rightarrow> ucc_rank \<Rightarrow> xfer list" where
  "bcast_kn_level emap sz radix root data_size vrank dist =
     (if vrank mod dist = 0 then
        let pos = vrank div dist mod radix
        in if pos = 0 then
             concat (map (\<lambda>i. let vpeer = u32 (vrank + i * dist)
               in if vpeer < sz then [Xsend (ep_eval emap (u32 (vpeer + root) mod sz)) (Src_buf, 0, data_size)] else [])
               (rev [1..<radix]))
           else
             let vroot_at_level = sub32 vrank (u32 (pos * dist));
                 root_at_level = u32 (vroot_at_level + root) mod sz
             in [Xrecv (ep_eval emap root_at_level) (Src_buf, 0, data_size)]
      else [])"

text \<open>
  \<open>active\<close> tells whether the call has an active set, whose root is a rank of the team and not a position. After a level the code tests
  the receives only, after the last level all operations.
\<close>

definition ucc_tl_ucp_bcast_knomial_progress ::
    "ucc_ep_map \<Rightarrow> bool \<Rightarrow> ucc_rank \<Rightarrow> nat \<Rightarrow> ucc_rank \<Rightarrow> nat \<Rightarrow> ucc_tl_ucp_task \<Rightarrow> ucc_rank \<Rightarrow> 'a mem \<Rightarrow> (ucc_rank, 'a) block" where
  "ucc_tl_ucp_bcast_knomial_progress emap active rank radix arg_root data_size t dist m =
     (let sz = u32 (ep_num emap);
          root = (if active then ep_local_rank emap arg_root else arg_root);
          vrank = u32 (sub32 rank root + sz) mod sz
      in if 1 \<le> dist then
           Block (bcast_kn_level emap sz radix root data_size vrank dist)
             (if 1 \<le> dist div radix then Wait_recv else Wait_all) (dist div radix) m
         else Finish UCC_OK m)"

text \<open>The start function computes the first distance; it has no result when the computation does not end.\<close>

definition ucc_tl_ucp_bcast_knomial_start ::
    "ucc_ep_map \<Rightarrow> nat \<Rightarrow> ucc_tl_ucp_task \<Rightarrow> (ucc_status \<times> ucc_tl_ucp_task \<times> ucc_rank) option" where
  "ucc_tl_ucp_bcast_knomial_start emap radix t =
     (let sz = u32 (ep_num emap);
          t1 = ucc_tl_ucp_task_reset t UCC_INPROGRESS
      in map_option (\<lambda>dist. (UCC_OK, t1, dist)) (CALC_KN_TREE_DIST sz radix))"

definition ucc_tl_ucp_bcast_init :: "ucc_ep_map \<Rightarrow> nat \<Rightarrow> nat" where
  "ucc_tl_ucp_bcast_init emap bcast_kn_radix = min bcast_kn_radix (u32 (ep_num emap))"

section \<open>The ideal execution\<close>

text \<open>After \<open>k\<close> levels the positions divisible by the distance of the level before have the buffer of the root.\<close>

definition bcast_ok :: "ucc_ep_map \<Rightarrow> (ucc_rank \<Rightarrow> ucc_rank) \<Rightarrow> bool \<Rightarrow> nat \<Rightarrow> ucc_rank \<Rightarrow> ucc_rank \<Rightarrow> bool" where
  "bcast_ok emap mr active radix arg_root root \<longleftrightarrow> map_ok emap mr \<and> tree_ok radix (ep_num emap) \<and> root < ep_num emap
     \<and> (if active then ucc_ep_map_local_rank emap arg_root = Some root else arg_root = root)"

definition bcast_ranks :: "ucc_ep_map \<Rightarrow> (ucc_rank \<Rightarrow> ucc_rank) \<Rightarrow> bool \<Rightarrow> nat \<Rightarrow> ucc_rank \<Rightarrow> ucc_rank \<Rightarrow> ucc_rank set" where
  "bcast_ranks emap mr active radix arg_root root = (if bcast_ok emap mr active radix arg_root root then map_ranks emap else {})"

definition bcast_dist :: "ucc_ep_map \<Rightarrow> nat \<Rightarrow> nat \<Rightarrow> nat" where
  "bcast_dist emap radix k = radix ^ (Suc (kn_depth radix (ep_num emap)) - k) div radix"

definition bcast_vpos :: "ucc_ep_map \<Rightarrow> (ucc_rank \<Rightarrow> ucc_rank) \<Rightarrow> ucc_rank \<Rightarrow> ucc_rank \<Rightarrow> nat" where
  "bcast_vpos emap mr root r = ring_back (ep_num emap) (mr r) root"

definition bcast_ops :: "ucc_ep_map \<Rightarrow> (ucc_rank \<Rightarrow> ucc_rank) \<Rightarrow> nat \<Rightarrow> ucc_rank \<Rightarrow> nat \<Rightarrow> ucc_rank \<Rightarrow> nat \<Rightarrow> xfer list" where
  "bcast_ops emap mr radix root ds r k = bcast_kn_level emap (ep_num emap) radix root ds (bcast_vpos emap mr root r) (bcast_dist emap radix k)"

definition bcast_mem :: "ucc_ep_map \<Rightarrow> (ucc_rank \<Rightarrow> ucc_rank) \<Rightarrow> nat \<Rightarrow> ucc_rank \<Rightarrow> nat \<Rightarrow> (ucc_rank \<Rightarrow> 'a mem) \<Rightarrow> ucc_rank \<Rightarrow> nat \<Rightarrow> 'a mem" where
  "bcast_mem emap mr radix root ds ms r k =
     (ms r)(Src_buf := \<lambda>a. if a < ds \<and> bcast_vpos emap mr root r mod radix ^ (Suc (kn_depth radix (ep_num emap)) - k) = 0
                           then ms (ep_eval emap root) Src_buf a else ms r Src_buf a)"

lemma bcast_dist_level:
  assumes "2 \<le> radix" "k \<le> kn_depth radix (ep_num emap)"
  shows "bcast_dist emap radix k = radix ^ (kn_depth radix (ep_num emap) - k)"
    and "radix ^ (Suc (kn_depth radix (ep_num emap)) - k) = bcast_dist emap radix k * radix"
    and "radix ^ (Suc (kn_depth radix (ep_num emap)) - Suc k) = bcast_dist emap radix k"
    and "0 < bcast_dist emap radix k"
proof -
  have "Suc (kn_depth radix (ep_num emap)) - k = Suc (kn_depth radix (ep_num emap) - k)" using assms(2) by simp
  then show "bcast_dist emap radix k = radix ^ (kn_depth radix (ep_num emap) - k)"
    "radix ^ (Suc (kn_depth radix (ep_num emap)) - k) = bcast_dist emap radix k * radix"
    "radix ^ (Suc (kn_depth radix (ep_num emap)) - Suc k) = bcast_dist emap radix k" "0 < bcast_dist emap radix k"
    using assms(1) by (simp_all add: bcast_dist_def)
qed

lemma bcast_dist_Suc: "2 \<le> radix \<Longrightarrow> k \<le> kn_depth radix (ep_num emap) \<Longrightarrow> bcast_dist emap radix k div radix = bcast_dist emap radix (Suc k)"
  using bcast_dist_level(1,3) [of radix k emap] by (simp add: bcast_dist_def)

lemma bcast_vpos_lt: "0 < ep_num emap \<Longrightarrow> bcast_vpos emap mr root r < ep_num emap"
  by (simp add: bcast_vpos_def)

lemma bcast_ranksE:
  assumes "r \<in> bcast_ranks emap mr active radix arg_root root"
  obtains "bcast_ok emap mr active radix arg_root root" "mr r < ep_num emap" "r = ep_eval emap (mr r)"
proof -
  have ok: "bcast_ok emap mr active radix arg_root root" "r \<in> map_ranks emap" using assms by (simp_all add: bcast_ranks_def split: if_splits)
  then have "map_ok emap mr" by (simp add: bcast_ok_def)
  then obtain i where "i < ep_num emap" "r = ep_eval emap i" "mr r = i" using ok(2) by (rule map_ranksE)
  then show thesis by (intro that [OF ok(1)]) simp_all
qed

lemma bcast_peer:
  assumes "map_ok emap mr" "root < ep_num emap" "v < ep_num emap" "mr q < ep_num emap" "q = ep_eval emap (mr q)"
  shows "ep_eval emap ((v + root) mod ep_num emap) = q \<longleftrightarrow> v = bcast_vpos emap mr root q"
proof -
  have n: "0 < ep_num emap" using assms(2) by simp
  have "ep_eval emap ((v + root) mod ep_num emap) = q \<longleftrightarrow> (v + root) mod ep_num emap = mr q"
    using ep_eval_inj [OF assms(1), of "(v + root) mod ep_num emap" "mr q"] assms(4,5) n by simp
  also have "\<dots> \<longleftrightarrow> v = bcast_vpos emap mr root q"
    unfolding bcast_vpos_def using ring_back_add [OF assms(3,2)] add_ring_back [OF assms(4,2)] by auto
  finally show ?thesis .
qed

lemma bcast_dist_le: "tree_ok radix (ep_num emap) \<Longrightarrow> k \<le> kn_depth radix (ep_num emap) \<Longrightarrow> bcast_dist emap radix k \<le> ep_num emap"
proof -
  assume a: "tree_ok radix (ep_num emap)" "k \<le> kn_depth radix (ep_num emap)"
  then have "bcast_dist emap radix k \<le> radix ^ kn_depth radix (ep_num emap)"
    using bcast_dist_level(1) [of radix k emap] by (auto simp: tree_ok_def intro: power_increasing)
  also have "\<dots> \<le> ep_num emap" using kn_depth_pow [of "ep_num emap" radix] a by (simp add: tree_ok_def)
  finally show ?thesis .
qed

lemma bcast_sends:
  assumes ok: "bcast_ok emap mr active radix arg_root root" and q: "mr q < ep_num emap" "q = ep_eval emap (mr q)"
    and k: "k \<le> kn_depth radix (ep_num emap)"
  shows "sends_to q (bcast_ops emap mr radix root ds p k) =
    (if kn_child (bcast_dist emap radix k) radix (bcast_vpos emap mr root p) (bcast_vpos emap mr root q) then [(Src_buf, 0, ds)] else [])"
proof -
  let ?d = "bcast_dist emap radix k" and ?v = "bcast_vpos emap mr root p" and ?w = "bcast_vpos emap mr root q" and ?n = "ep_num emap"
  have o: "map_ok emap mr" "tree_ok radix ?n" "root < ?n" "2 \<le> radix" "?n < 2 ^ 31" "0 < ?n" using ok by (auto simp: bcast_ok_def tree_ok_def)
  have d: "0 < ?d" "?d \<le> ?n" using bcast_dist_level(4) [OF o(4) k] bcast_dist_le [OF o(2) k] by simp_all
  have v: "?v < ?n" "?w < ?n" using bcast_vpos_lt o(6) by simp_all
  let ?g = "\<lambda>i. sends_to q (let vpeer = u32 (?v + i * ?d)
    in if vpeer < ?n then [Xsend (ep_eval emap (u32 (vpeer + root) mod ?n)) (Src_buf, 0, ds)] else [])"
  have g: "?g i = (if ?v + i * ?d = ?w then [(Src_buf, 0, ds)] else [])" if "i < radix" for i
  proof -
    have "u32 (?v + i * ?d) = ?v + i * ?d" using tree_bound [OF o(2) d(2) v(1) that] by (rule u32_id)
    moreover have "u32 (?v + i * ?d + root) = ?v + i * ?d + root" if "?v + i * ?d < ?n" using that o by (intro u32_id) simp
    ultimately show ?thesis using bcast_peer [OF o(1,3) _ q, of "?v + i * ?d"] v(2) by (auto simp: Let_def)
  qed
  show ?thesis
  proof (cases "?v mod (?d * radix) = 0")
    case True
    then have eq: "sends_to q (bcast_ops emap mr radix root ds p k) = concat (map ?g (rev [1..<radix]))"
      using kn_level_parent [of ?v ?d radix] by (auto simp: bcast_ops_def bcast_kn_level_def sends_to_concat o_def Let_def mod_mult2_eq)
    show ?thesis
    proof (cases "\<exists>i. 1 \<le> i \<and> i < radix \<and> ?w = ?v + i * ?d")
      case True
      then obtain i where i: "1 \<le> i" "i < radix" "?w = ?v + i * ?d" by blast
      have "concat (map ?g (rev [1..<radix])) = ?g i"
        by (rule concat_map_single) (use i g d in auto)
      then show ?thesis using eq g [OF i(2)] i \<open>?v mod (?d * radix) = 0\<close> by (auto simp: kn_child_def)
    next
      case False
      then have "concat (map ?g (rev [1..<radix])) = []" using g by (auto simp: eq_commute [of ?w])
      then show ?thesis using eq False by (auto simp: kn_child_def)
    qed
  next
    case False
    then show ?thesis
      using kn_level_parent [of ?v ?d radix] by (auto simp: bcast_ops_def bcast_kn_level_def kn_child_def Let_def)
  qed
qed

lemma bcast_recvs:
  assumes ok: "bcast_ok emap mr active radix arg_root root" and p: "mr p < ep_num emap" "p = ep_eval emap (mr p)"
    and k: "k \<le> kn_depth radix (ep_num emap)"
  shows "recvs_from p (bcast_ops emap mr radix root ds q k) =
    (if kn_child (bcast_dist emap radix k) radix (bcast_vpos emap mr root p) (bcast_vpos emap mr root q) then [(Src_buf, 0, ds)] else [])"
proof -
  let ?d = "bcast_dist emap radix k" and ?v = "bcast_vpos emap mr root p" and ?w = "bcast_vpos emap mr root q" and ?n = "ep_num emap"
  have o: "map_ok emap mr" "tree_ok radix ?n" "root < ?n" "2 \<le> radix" "?n < 2 ^ 31" "0 < ?n" using ok by (auto simp: bcast_ok_def tree_ok_def)
  have d: "0 < ?d" using bcast_dist_level(4) [OF o(4) k] .
  have w: "?w < ?n" using bcast_vpos_lt o(6) by simp
  let ?pos = "?w div ?d mod radix"
  have up: "sub32 ?w (u32 (?pos * ?d)) = ?w - ?pos * ?d" "u32 (?w - ?pos * ?d + root) = ?w - ?pos * ?d + root" if "?w mod ?d = 0"
    using kn_level_up(1) [OF that d, of radix] w o by (simp_all add: u32_id sub32_id)
  have nil: "recvs_from p (concat (map (\<lambda>i. let vpeer = u32 (?w + i * ?d)
    in if vpeer < ?n then [Xsend (ep_eval emap (u32 (vpeer + root) mod ?n)) (Src_buf, 0, ds)] else []) xs)) = []" for xs
    by (induction xs) (simp_all add: Let_def)
  have peer: "ep_eval emap ((?w - ?pos * ?d + root) mod ?n) = p \<longleftrightarrow> ?w - ?pos * ?d = ?v"
    using bcast_peer [OF o(1,3) _ p, of "?w - ?pos * ?d"] w by simp
  show ?thesis
    using kn_child_iff [OF d, of radix ?v ?w] o(4) nil up peer
    by (auto simp: bcast_ops_def bcast_kn_level_def Let_def)
qed

lemma count_concat_le:
  "(\<And>x. x \<in> set xs \<Longrightarrow> count_sends (f x) \<le> 1 \<and> count_recvs (f x) = 0) \<Longrightarrow>
    count_sends (concat (map f xs)) \<le> length xs \<and> count_recvs (concat (map f xs)) = 0"
proof (induction xs)
  case (Cons x xs)
  then have "count_sends (f x) \<le> 1" "count_recvs (f x) = 0" "count_sends (concat (map f xs)) \<le> length xs" "count_recvs (concat (map f xs)) = 0"
    by simp_all
  then show ?case by simp
qed simp

lemma bcast_level_counts:
  "count_sends (bcast_kn_level emap sz radix root ds v d) \<le> radix - 1 \<and> count_recvs (bcast_kn_level emap sz radix root ds v d) \<le> 1"
  using count_concat_le [of "rev [1..<radix]" "\<lambda>i. let vpeer = u32 (v + i * d)
    in if vpeer < sz then [Xsend (ep_eval emap (u32 (vpeer + root) mod sz)) (Src_buf, 0, ds)] else []"]
  by (auto simp: bcast_kn_level_def Let_def)

lemma bcast_counts: "n_sends (bcast_ops emap mr radix root ds r) k \<le> k * (radix - 1)" "n_recvs (bcast_ops emap mr radix root ds r) k \<le> k"
proof (induction k)
  case (Suc k)
  have c: "count_sends (bcast_ops emap mr radix root ds r k) \<le> radix - 1" "count_recvs (bcast_ops emap mr radix root ds r k) \<le> 1"
    using bcast_level_counts unfolding bcast_ops_def by blast+
  case 1
  show ?case using c(1) Suc(1) by (simp add: seq_Suc)
  case 2
  show ?case using c(2) Suc(2) by (simp add: seq_Suc)
qed simp_all

lemma bcast_matched:
  assumes p: "p \<in> bcast_ranks emap mr active radix arg_root root" and q: "q \<in> bcast_ranks emap mr active radix arg_root root"
    and k: "k \<le> kn_depth radix (ep_num emap)"
  shows "map (read_mem (bcast_mem emap mr radix root ds ms p k)) (sends_to q (bcast_ops emap mr radix root ds p k))
    = map (read_mem (bcast_mem emap mr radix root ds ms q (Suc k))) (recvs_from p (bcast_ops emap mr radix root ds q k))"
proof -
  let ?d = "bcast_dist emap radix k" and ?v = "bcast_vpos emap mr root p" and ?w = "bcast_vpos emap mr root q"
  from p obtain ok: "bcast_ok emap mr active radix arg_root root" and p': "mr p < ep_num emap" "p = ep_eval emap (mr p)" by (rule bcast_ranksE)
  from q obtain q': "mr q < ep_num emap" "q = ep_eval emap (mr q)" by (rule bcast_ranksE)
  have r: "2 \<le> radix" using ok by (simp add: bcast_ok_def tree_ok_def)
  have d: "0 < ?d" using bcast_dist_level(4) [OF r k] .
  have "read_mem (bcast_mem emap mr radix root ds ms p k) (Src_buf, 0, ds) = read_mem (bcast_mem emap mr radix root ds ms q (Suc k)) (Src_buf, 0, ds)"
    if c: "kn_child ?d radix ?v ?w"
  proof (rule read_mem_eqI)
    fix b a assume "in_region (Src_buf, 0, ds) b a"
    moreover have "?v mod radix ^ (Suc (kn_depth radix (ep_num emap)) - k) = 0" using c unfolding bcast_dist_level(2) [OF r k] kn_child_def by blast
    moreover have "?w mod radix ^ (Suc (kn_depth radix (ep_num emap)) - Suc k) = 0"
      using c d r unfolding bcast_dist_level(3) [OF r k] by (simp add: kn_child_iff)
    ultimately show "bcast_mem emap mr radix root ds ms p k b a = bcast_mem emap mr radix root ds ms q (Suc k) b a" by (auto simp: bcast_mem_def)
  qed
  then show ?thesis unfolding bcast_sends [OF ok q' k] bcast_recvs [OF ok p' k] by simp
qed

interpretation bcast_knomial: coll_rounds "bcast_ranks emap mr active radix arg_root root"
  "\<lambda>r. ucc_tl_ucp_bcast_knomial_progress emap active (mr r) radix arg_root ds"
  "\<lambda>r. (snd (snd (the (ucc_tl_ucp_bcast_knomial_start emap radix t0))), ms r)" "Suc (kn_depth radix (ep_num emap))"
  "\<lambda>_. bcast_dist emap radix" "bcast_mem emap mr radix root ds ms" "bcast_mem emap mr radix root ds ms"
  "bcast_ops emap mr radix root ds" "\<lambda>_ k. if k < kn_depth radix (ep_num emap) then Wait_recv else Wait_all"
  "\<lambda>r. bcast_mem emap mr radix root ds ms r (Suc (kn_depth radix (ep_num emap)))"
  for emap mr active radix arg_root root ds t0 ms
proof (unfold_locales, goal_cases)
  case 1
  show ?case by (simp add: bcast_ranks_def map_ranks_def)
next
  case (2 r)
  then obtain ok: "bcast_ok emap mr active radix arg_root root" and r: "mr r < ep_num emap" "r = ep_eval emap (mr r)" by (rule bcast_ranksE)
  then have n: "tree_ok radix (ep_num emap)" "root < ep_num emap" "u32 (ep_num emap) = ep_num emap" by (auto simp: bcast_ok_def tree_ok_def intro: u32_id)
  then have "bcast_dist emap radix 0 = radix ^ kn_depth radix (ep_num emap)" using bcast_dist_level(1) [of radix 0 emap] by (simp add: tree_ok_def)
  moreover have "bcast_mem emap mr radix root ds ms r 0 = ms r"
  proof (cases "bcast_vpos emap mr root r = 0")
    case True
    then have "mr r = root" using add_ring_back [OF r(1) n(2)] n(2) by (simp add: bcast_vpos_def)
    then show ?thesis using r(2) by (auto simp: bcast_mem_def)
  next
    case False
    have "bcast_vpos emap mr root r < radix ^ Suc (kn_depth radix (ep_num emap))"
      using bcast_vpos_lt [of emap mr root r] kn_depth_least [of radix "ep_num emap"] n(1) by (simp add: tree_ok_def)
    then show ?thesis using False by (auto simp: bcast_mem_def)
  qed
  ultimately show ?case using CALC_KN_TREE_DIST_depth [OF n(1)] n(3) by (simp add: ucc_tl_ucp_bcast_knomial_start_def)
next
  case (3 r k t)
  then obtain ok: "bcast_ok emap mr active radix arg_root root" and r: "mr r < ep_num emap" by (elim bcast_ranksE)
  then have n: "2 \<le> radix" "root < ep_num emap" "u32 (ep_num emap) = ep_num emap" "ep_num emap < 2 ^ 31"
    and rt: "(if active then ep_local_rank emap arg_root else arg_root) = root"
    by (auto simp: bcast_ok_def tree_ok_def ep_local_rank_def intro: u32_id split: if_splits)
  have k: "k \<le> kn_depth radix (ep_num emap)" using 3(2) by simp
  have "u32 (sub32 (mr r) root + ep_num emap) mod ep_num emap = bcast_vpos emap mr root r"
    using VRANK_eq [OF r n(2,4)] by (simp add: VRANK_def bcast_vpos_def)
  moreover have "1 \<le> bcast_dist emap radix (Suc k) \<longleftrightarrow> k < kn_depth radix (ep_num emap)"
    using bcast_dist_level(4) [OF n(1), of "Suc k" emap] k n(1) by (cases "k < kn_depth radix (ep_num emap)") (auto simp: bcast_dist_def)
  ultimately show ?case
    using bcast_dist_level(4) [OF n(1) k] bcast_dist_Suc [OF n(1) k] rt n(3)
    by (simp add: ucc_tl_ucp_bcast_knomial_progress_def bcast_ops_def Let_def del: One_nat_def)
next
  case (4 r t)
  then show ?case by (elim bcast_ranksE) (auto simp: ucc_tl_ucp_bcast_knomial_progress_def bcast_dist_def bcast_ok_def tree_ok_def Let_def)
next
  case (6 r)
  then obtain ok: "bcast_ok emap mr active radix arg_root root" by (elim bcast_ranksE)
  let ?K = "Suc (kn_depth radix (ep_num emap))"
  have "?K * (radix - 1) < 2 ^ 32" using tree_rounds_few ok by (simp add: bcast_ok_def)
  moreover have "?K * 1 \<le> ?K * (radix - 1)" using ok unfolding bcast_ok_def tree_ok_def by (intro mult_le_mono) auto
  ultimately show ?case using bcast_counts [of emap mr radix root ds r ?K] by simp
next
  case (7 r k q rg)
  then obtain ok: "bcast_ok emap mr active radix arg_root root" by (elim bcast_ranksE)
  then have "0 < ep_num emap" by (simp add: bcast_ok_def tree_ok_def)
  then have "ep_eval emap (i mod ep_num emap) \<in> map_ranks emap" for i by (intro map_ranks_in) simp
  then show ?case using 7(3) ok by (auto simp: bcast_ranks_def bcast_ops_def bcast_kn_level_def Let_def split: if_splits)
next
  case (8 r k b a)
  from 8(1) obtain ok: "bcast_ok emap mr active radix arg_root root" by (elim bcast_ranksE)
  then have r: "2 \<le> radix" by (simp add: bcast_ok_def tree_ok_def)
  have k: "k \<le> kn_depth radix (ep_num emap)" using 8(2) by simp
  let ?d = "bcast_dist emap radix k" and ?v = "bcast_vpos emap mr root r"
  have "?v mod (?d * radix) = 0 \<longleftrightarrow> ?v mod ?d = 0" if "b = Src_buf" "a < ds"
    using 8(3) kn_level_parent [of ?v ?d radix] that by (auto simp: bcast_ops_def bcast_kn_level_def Let_def mod_mult2_eq split: if_splits)
  then show ?case unfolding bcast_mem_def bcast_dist_level(2,3) [OF r k] by auto
next
  case (9 p q k)
  then show ?case by (intro bcast_matched) auto
next
  case (10 r j k q rg p rg' b a)
  from 10(1) obtain ok: "bcast_ok emap mr active radix arg_root root" by (elim bcast_ranksE)
  then have r: "2 \<le> radix" by (simp add: bcast_ok_def tree_ok_def)
  have k: "k \<le> kn_depth radix (ep_num emap)" "j \<le> kn_depth radix (ep_num emap)" using 10(2,3) by simp_all
  let ?v = "bcast_vpos emap mr root r"
  have s: "?v mod radix ^ (Suc (kn_depth radix (ep_num emap)) - j) = 0"
    using 10(5) kn_level_parent [of ?v "bcast_dist emap radix j" radix] unfolding bcast_dist_level(2) [OF r k(2)]
    by (auto simp: bcast_ops_def bcast_kn_level_def Let_def split: if_splits)
  have "?v mod radix ^ (Suc (kn_depth radix (ep_num emap)) - k) = 0"
    using s dvd_trans [OF le_imp_power_dvd [of "Suc (kn_depth radix (ep_num emap)) - k" "Suc (kn_depth radix (ep_num emap)) - j" radix]] 10(2)
    by (simp add: dvd_eq_mod_eq_0 diff_le_mono2)
  then have "?v mod (bcast_dist emap radix k * radix) = 0" unfolding bcast_dist_level(2) [OF r k(1)] .
  then have "?v mod bcast_dist emap radix k = 0" "?v div bcast_dist emap radix k mod radix = 0"
    using bcast_dist_level(4) [OF r k(1)] by (auto simp: mod_mult2_eq)
  then have "Xrecv p rg' \<notin> set (bcast_ops emap mr radix root ds r k)" by (auto simp: bcast_ops_def bcast_kn_level_def Let_def split: if_splits)
  then show ?case using 10(6) by blast
qed simp_all

text \<open>
  C6: the knomial broadcast. For every radix of at least two, every root and every well-formed map, with an active set or without, the
  start function returns on every rank; in every interleaving a rank that completes has the buffer of the root and nothing else of
  its memory changed; the ranks never block each other, and all of them end.
\<close>

theorem bcast_knomial_correct:
  assumes "map_ok emap mr" "tree_ok radix (ep_num emap)" "root < ep_num emap"
    and "if active then ucc_ep_map_local_rank emap arg_root = Some root else arg_root = root"
  shows "\<exists>dist. ucc_tl_ucp_bcast_knomial_start emap radix t0 = Some (UCC_OK, ucc_tl_ucp_task_reset t0 UCC_INPROGRESS, dist)
    \<and> coll_correct (map_ranks emap) (\<lambda>r. ucc_tl_ucp_bcast_knomial_progress emap active (mr r) radix arg_root ds) (\<lambda>r. (dist, ms r))
        (\<lambda>r m. m = (ms r)(Src_buf := \<lambda>a. if a < ds then ms (ep_eval emap root) Src_buf a else ms r Src_buf a))"
proof -
  have n: "u32 (ep_num emap) = ep_num emap" using assms(2) by (intro u32_id) (simp add: tree_ok_def)
  have "bcast_ok emap mr active radix arg_root root" using assms by (simp add: bcast_ok_def)
  then show ?thesis
    using bcast_knomial.ideal.ideal_correct [of emap mr active radix arg_root root ds t0 ms] CALC_KN_TREE_DIST_depth [OF assms(2)] n
    by (simp add: bcast_ranks_def bcast_mem_def ucc_tl_ucp_bcast_knomial_start_def)
qed

theorem bcast_knomial_correct_witness:
  "\<exists>dist. ucc_tl_ucp_bcast_knomial_start (reverse_map 3) 2 idle_task = Some (UCC_OK, ucc_tl_ucp_task_reset idle_task UCC_INPROGRESS, dist)
    \<and> coll_correct {0, 1, 2} (\<lambda>r. ucc_tl_ucp_bcast_knomial_progress (reverse_map 3) True (2 - r) 2 0 8) (\<lambda>r. (dist, \<lambda>b a. r))
        (\<lambda>r m. m = (\<lambda>b a. r)(Src_buf := \<lambda>a. if a < 8 then 0 else r))"
proof -
  have "ucc_ep_map_local_rank (reverse_map 3) 0 = Some 2"
    by (simp add: ucc_ep_map_local_rank_def reverse_map_def quot_def s64_def u32_of_int_def)
  then show ?thesis
    using bcast_knomial_correct [OF reverse_map_3(1), of 2 2 True 0 idle_task 8 "\<lambda>r b a. r"] reverse_map_3
    unfolding reverse_map_3 by (simp add: tree_ok_def)
qed

lemma bcast_single_block:
  assumes "ep_num emap = 1"
  shows "ucc_tl_ucp_bcast_knomial_progress emap active rank 1 root ds t 1 m = Block [] Wait_recv 1 m"
  using assms by (simp add: ucc_tl_ucp_bcast_knomial_progress_def bcast_kn_level_def Let_def u32_id)

lemma bcast_single_reach:
  assumes "ep_num emap = 1" and "coll_reach {r} (\<lambda>_. ucc_tl_ucp_bcast_knomial_progress emap active rank 1 root ds) (\<lambda>_. (1, m)) s"
  shows "cs_x s r = 1 \<and> coll_ready s r \<and> cs_out s r r = [] \<and> cs_chan s r r = []"
  using assms(2)
proof (induction rule: coll_reach.induct)
  case (init s)
  then have t: "cs_task s r = ucc_tl_ucp_task_reset (cs_task s r) UCC_INPROGRESS" "cs_wait s r = Wait_all" "cs_x s r = 1" "cs_out s r r = []" "cs_chan s r r = []"
    by (auto simp: coll_initial_def)
  have "coll_ready s r" unfolding coll_ready_def t(2) by (subst (1 2) t(1)) (simp add: ucc_tl_ucp_task_reset_def UCC_TL_UCP_TASK_P2P_COMPLETE_def)
  then show ?case using t by simp
next
  case (step s s')
  from step.hyps(2) show ?case
  proof (cases rule: coll_step.cases)
    case (run r' ops w x m)
    then have "ops = []" "x = 1" "r' = r" "w = Wait_recv" using step.IH bcast_single_block [OF assms(1), of active rank root ds "cs_task s r" "cs_mem s r"] by auto
    then show ?thesis using run(1) step.IH by (auto simp: note_xfers_def coll_ready_def UCC_TL_UCP_TASK_P2P_COMPLETE_def UCC_TL_UCP_TASK_RECV_COMPLETE_def split: wait_for.splits)
  qed (use step.IH bcast_single_block [OF assms(1), of active rank root ds "cs_task s r" "cs_mem s r"] in auto)
qed

text \<open>
  C7: on a subset of one rank, for which the init function computes the radix 1, the broadcast does not end: the loop divides the
  distance 1 by the radix forever, so that in every reachable state the rank is in progress and runs another block.
\<close>

theorem bcast_knomial_single_diverges:
  assumes "ep_num emap = 1" "1 \<le> cfg_radix"
    and "coll_reach {r} (\<lambda>_. ucc_tl_ucp_bcast_knomial_progress emap active rank (ucc_tl_ucp_bcast_init emap cfg_radix) root ds)
      (\<lambda>_. (snd (snd (the (ucc_tl_ucp_bcast_knomial_start emap (ucc_tl_ucp_bcast_init emap cfg_radix) t))), m)) s"
  shows "tt_status (cs_task s r) = UCC_INPROGRESS
    \<and> (\<exists>s'. coll_step {r} (\<lambda>_. ucc_tl_ucp_bcast_knomial_progress emap active rank (ucc_tl_ucp_bcast_init emap cfg_radix) root ds) s s')"
proof -
  have i: "ucc_tl_ucp_bcast_init emap cfg_radix = 1" using assms(1,2) by (simp add: ucc_tl_ucp_bcast_init_def u32_id)
  have "CALC_KN_TREE_DIST 1 1 = Some 1" unfolding CALC_KN_TREE_DIST_def by (subst kn_tree_dist_loop.simps) (simp add: u32_id)
  then have "snd (snd (the (ucc_tl_ucp_bcast_knomial_start emap 1 t))) = 1" using assms(1) by (simp add: ucc_tl_ucp_bcast_knomial_start_def u32_id)
  then have "cs_x s r = 1 \<and> coll_ready s r" using bcast_single_reach [OF assms(1), of r active rank root ds m s] assms(3) unfolding i by simp
  then show ?thesis
    using coll_step.run [of r "{r}" s "\<lambda>_. ucc_tl_ucp_bcast_knomial_progress emap active rank 1 root ds"] bcast_single_block [OF assms(1), of active rank root ds "cs_task s r" "cs_mem s r"]
    unfolding i by (fastforce simp: coll_ready_def)
qed

definition single_start :: "(ucc_rank, nat) coll_sys" where
  "single_start = \<lparr>cs_task = \<lambda>_. ucc_tl_ucp_task_reset idle_task UCC_INPROGRESS, cs_x = \<lambda>_. 1, cs_mem = \<lambda>_ _ a. a, cs_wait = \<lambda>_. Wait_all,
     cs_out = \<lambda>_ _. [], cs_chan = \<lambda>_ _. [], cs_in = \<lambda>_ _. []\<rparr>"

theorem bcast_knomial_single_diverges_witness:
  "coll_reach {0} (\<lambda>_. ucc_tl_ucp_bcast_knomial_progress (reverse_map 1) True 0 (ucc_tl_ucp_bcast_init (reverse_map 1) 4) 0 8)
      (\<lambda>_. (snd (snd (the (ucc_tl_ucp_bcast_knomial_start (reverse_map 1) (ucc_tl_ucp_bcast_init (reverse_map 1) 4) idle_task))), \<lambda>b a. a)) single_start
    \<and> tt_status (cs_task single_start 0) = UCC_INPROGRESS
    \<and> (\<exists>s'. coll_step {0} (\<lambda>_. ucc_tl_ucp_bcast_knomial_progress (reverse_map 1) True 0 (ucc_tl_ucp_bcast_init (reverse_map 1) 4) 0 8) single_start s')"
proof -
  have "CALC_KN_TREE_DIST 1 1 = Some 1" unfolding CALC_KN_TREE_DIST_def by (subst kn_tree_dist_loop.simps) (simp add: u32_id)
  then have r: "coll_reach {0} (\<lambda>_. ucc_tl_ucp_bcast_knomial_progress (reverse_map 1) True 0 (ucc_tl_ucp_bcast_init (reverse_map 1) 4) 0 8)
      (\<lambda>_. (snd (snd (the (ucc_tl_ucp_bcast_knomial_start (reverse_map 1) (ucc_tl_ucp_bcast_init (reverse_map 1) 4) idle_task))), \<lambda>b a. a)) single_start"
    by (intro coll_reach.init)
      (simp add: coll_initial_def single_start_def ucc_tl_ucp_bcast_init_def ucc_tl_ucp_bcast_knomial_start_def reverse_map_def u32_id ucc_tl_ucp_task_reset_def)
  have "ep_num (reverse_map 1) = 1" by (simp add: reverse_map_def)
  from bcast_knomial_single_diverges [OF this _ r] r show ?thesis by simp
qed

end
