(* ===== verification/Allgather.thy ===== *)
theory Allgather
  imports Team_Ranks
begin

text \<open>
  The allgather algorithms of the UCP transport layer, \<open>src/components/tl/ucp/allgather/\<close>. Each is its start function,
  the block its progress function runs between two tests, and the proof that in every interleaving every rank ends with
  the contribution of each rank in its place. This theory holds what they share and the ring; neighbour exchange,
  Bruck's algorithm and sparbit have theories of their own.
\<close>

section \<open>Blocks of the destination buffer\<close>

definition allgather_data_size :: "nat \<Rightarrow> nat \<Rightarrow> nat \<Rightarrow> nat" where
  "allgather_data_size cnt tsize dt_size = u64 (cnt div tsize * dt_size)"

text \<open>The memory \<open>m\<close> with the contribution \<open>c b\<close> in each block \<open>b\<close> of a set of blocks of \<open>ds\<close> bytes.\<close>

definition with_blocks :: "(nat \<Rightarrow> nat \<Rightarrow> 'a) \<Rightarrow> nat \<Rightarrow> nat set \<Rightarrow> 'a mem \<Rightarrow> 'a mem" where
  "with_blocks c ds S m = m(Dst_buf := (\<lambda>a. if 0 < ds \<and> a div ds \<in> S then c (a div ds) (a mod ds) else m Dst_buf a))"

text \<open>What rank \<open>b\<close> contributes, from the memories \<open>ms\<close> the ranks start with.\<close>

definition contribution :: "bool \<Rightarrow> nat \<Rightarrow> (ucc_rank \<Rightarrow> 'a mem) \<Rightarrow> ucc_rank \<Rightarrow> nat \<Rightarrow> 'a" where
  "contribution inplace ds ms b i = (if inplace then ms b Dst_buf (b * ds + i) else ms b Src_buf i)"

lemma in_region_blocks:
  "in_region (bf, b * ds, n * ds) bf' a \<longleftrightarrow> bf' = bf \<and> 0 < ds \<and> b \<le> a div ds \<and> a div ds < b + n"
proof (cases "ds = 0")
  case False
  then have "b * ds \<le> a \<longleftrightarrow> b \<le> a div ds" "a < b * ds + n * ds \<longleftrightarrow> a div ds < b + n"
    by (simp_all add: less_eq_div_iff_mult_less_eq div_less_iff_less_mult algebra_simps)
  then show ?thesis using False by auto
qed simp

lemma in_region_block: "in_region (bf, b * ds, ds) bf' a \<longleftrightarrow> bf' = bf \<and> 0 < ds \<and> a div ds = b"
  using in_region_blocks [of bf b ds 1 bf' a] by auto

lemma start_copy:
  "copy_mem m Dst_buf (b * ds) Src_buf 0 ds = with_blocks (\<lambda>_. m Src_buf) ds {b} m"
proof (intro ext)
  fix bf a
  have "a - b * ds = a mod ds" if "a div ds = b" using that by (auto simp: minus_mod_eq_mult_div [symmetric] modulo_nat_def mult.commute)
  then show "copy_mem m Dst_buf (b * ds) Src_buf 0 ds bf a = with_blocks (\<lambda>_. m Src_buf) ds {b} m bf a"
    using in_region_block [of Dst_buf b ds Dst_buf a] by (auto simp: copy_mem_apply with_blocks_def)
qed

lemma start_blocks:
  "(if inplace then ms b else copy_mem (ms b) Dst_buf (b * ds) Src_buf 0 ds) = with_blocks (contribution inplace ds ms) ds {b} (ms b)"
proof (intro ext)
  fix bf a
  have "ms b Dst_buf a = ms b Dst_buf (b * ds + a mod ds)" if "a div ds = b" using that div_mult_mod_eq [of a ds] by simp
  then show "(if inplace then ms b else copy_mem (ms b) Dst_buf (b * ds) Src_buf 0 ds) bf a = with_blocks (contribution inplace ds ms) ds {b} (ms b) bf a"
    by (auto simp: start_copy with_blocks_def contribution_def)
qed

lemma with_blocks_mem [simp]: "0 < ds \<Longrightarrow> a div ds \<in> S \<Longrightarrow> with_blocks c ds S m Dst_buf a = c (a div ds) (a mod ds)"
  by (simp add: with_blocks_def)

lemma with_blocks_outside: "bf = Dst_buf \<and> 0 < ds \<longrightarrow> (a div ds \<in> S \<longleftrightarrow> a div ds \<in> S') \<Longrightarrow> with_blocks c ds S m bf a = with_blocks c ds S' m bf a"
  by (auto simp: with_blocks_def)

section \<open>Ring\<close>

definition ucc_tl_ucp_allgather_ring_get_send_block :: "ucc_ep_map \<Rightarrow> ucc_rank \<Rightarrow> ucc_rank \<Rightarrow> nat \<Rightarrow> ucc_rank" where
  "ucc_tl_ucp_allgather_ring_get_send_block emap trank tsize step = ep_eval emap (u32 (sub32 trank step + tsize) mod tsize)"

definition ucc_tl_ucp_allgather_ring_get_recv_block :: "ucc_ep_map \<Rightarrow> ucc_rank \<Rightarrow> ucc_rank \<Rightarrow> nat \<Rightarrow> ucc_rank" where
  "ucc_tl_ucp_allgather_ring_get_recv_block emap trank tsize step =
     ep_eval emap (u32 (sub32 (sub32 trank step) 1 + tsize) mod tsize)"

definition ucc_tl_ucp_allgather_ring_progress ::
    "ucc_ep_map \<Rightarrow> ucc_rank \<Rightarrow> nat \<Rightarrow> ucc_tl_ucp_task \<Rightarrow> unit \<Rightarrow> 'a mem \<Rightarrow> (unit, 'a) block" where
  "ucc_tl_ucp_allgather_ring_progress emap trank data_size t x m =
     (let tsize = u32 (ep_num emap);
          sendto = ep_eval emap (u32 (trank + 1) mod tsize);
          recvfrom = ep_eval emap (u32 (sub32 trank 1 + tsize) mod tsize);
          step = tt_send_posted t
      in if tt_send_posted t < sub32 tsize 1 then
           let sblock = ucc_tl_ucp_allgather_ring_get_send_block emap trank tsize step;
               rblock = ucc_tl_ucp_allgather_ring_get_recv_block emap trank tsize step
           in Block [Xsend sendto (Dst_buf, u64 (sblock * data_size), data_size),
                     Xrecv recvfrom (Dst_buf, u64 (rblock * data_size), data_size)] Wait_all () m
         else Finish UCC_OK m)"

text \<open>The start function; \<open>cp\<close> is the status of the copy.\<close>

definition ucc_tl_ucp_allgather_ring_start ::
    "ucc_status \<Rightarrow> bool \<Rightarrow> ucc_ep_map \<Rightarrow> ucc_rank \<Rightarrow> nat \<Rightarrow> ucc_tl_ucp_task \<Rightarrow> 'a mem \<Rightarrow> ucc_status \<times> ucc_tl_ucp_task \<times> 'a mem" where
  "ucc_tl_ucp_allgather_ring_start cp inplace emap trank data_size t m =
     (let tsize = u32 (ep_num emap);
          t1 = ucc_tl_ucp_task_reset t UCC_INPROGRESS
      in if inplace then (UCC_OK, t1, m)
         else if cp \<noteq> UCC_OK then (cp, t1, m)
         else let block = ucc_tl_ucp_allgather_ring_get_send_block emap trank tsize 0
              in (UCC_OK, t1, copy_mem m Dst_buf (u64 (data_size * block)) Src_buf 0 data_size))"

text \<open>
  A ring over the ranks an endpoint map names. The blocks of all ranks have addresses.
\<close>

definition ring_ok :: "ucc_ep_map \<Rightarrow> (ucc_rank \<Rightarrow> ucc_rank) \<Rightarrow> nat \<Rightarrow> bool" where
  "ring_ok emap mr ds \<longleftrightarrow> map_ok emap mr \<and> (\<forall>i<ep_num emap. ep_eval emap i * ds < 2 ^ 64)"

definition ring_ranks :: "ucc_ep_map \<Rightarrow> (ucc_rank \<Rightarrow> ucc_rank) \<Rightarrow> nat \<Rightarrow> ucc_rank set" where
  "ring_ranks emap mr ds = (if ring_ok emap mr ds then map_ranks emap else {})"

definition ring_ops :: "ucc_ep_map \<Rightarrow> nat \<Rightarrow> ucc_rank \<Rightarrow> nat \<Rightarrow> xfer list" where
  "ring_ops emap ds i k =
     (let n = ep_num emap
      in [Xsend (ep_eval emap ((i + 1) mod n)) (Dst_buf, ep_eval emap (ring_back n i k) * ds, ds),
          Xrecv (ep_eval emap (ring_back n i 1)) (Dst_buf, ep_eval emap (ring_back n i (Suc k)) * ds, ds)])"

definition ring_mem :: "bool \<Rightarrow> ucc_ep_map \<Rightarrow> (ucc_rank \<Rightarrow> ucc_rank) \<Rightarrow> nat \<Rightarrow> (ucc_rank \<Rightarrow> 'a mem) \<Rightarrow> ucc_rank \<Rightarrow> nat \<Rightarrow> 'a mem" where
  "ring_mem inplace emap mr ds ms r k =
     with_blocks (contribution inplace ds ms) ds ((\<lambda>j. ep_eval emap (ring_back (ep_num emap) (mr r) j)) ` {..k}) (ms r)"

lemma ring_okD: "ring_ok emap mr ds \<Longrightarrow> map_ok emap mr" "ring_ok emap mr ds \<Longrightarrow> i < ep_num emap \<Longrightarrow> ep_eval emap i * ds < 2 ^ 64"
  by (simp_all add: ring_ok_def)

lemma ring_ranksE:
  assumes "r \<in> ring_ranks emap mr ds"
  obtains i where "ring_ok emap mr ds" "i < ep_num emap" "r = ep_eval emap i" "mr r = i"
  using assms that map_ranksE [of emap mr r] by (auto simp: ring_ranks_def ring_okD split: if_splits)

lemma ring_rank_in: "ring_ok emap mr ds \<Longrightarrow> i < ep_num emap \<Longrightarrow> ep_eval emap i \<in> ring_ranks emap mr ds"
  by (simp add: ring_ranks_def map_ranks_def)

lemma ring_send_block:
  assumes "ring_ok emap mr ds" "i < ep_num emap" "k \<le> ep_num emap"
  shows "ucc_tl_ucp_allgather_ring_get_send_block emap i (ep_num emap) k = ep_eval emap (ring_back (ep_num emap) i k)"
  using assms by (simp add: ucc_tl_ucp_allgather_ring_get_send_block_def ring_ok_def map_ok_def ring_back_def u32_sub_add)

lemma ring_recv_block:
  assumes "ring_ok emap mr ds" "i < ep_num emap" "k < ep_num emap"
  shows "ucc_tl_ucp_allgather_ring_get_recv_block emap i (ep_num emap) k = ep_eval emap (ring_back (ep_num emap) i (Suc k))"
  using assms by (simp add: ucc_tl_ucp_allgather_ring_get_recv_block_def ring_ok_def map_ok_def ring_back_def u32_sub_add sub32_sub32)

lemma ring_block:
  assumes ok: "ring_ok emap mr ds" and i: "i < ep_num emap" and k: "k < ep_num emap - 1" "tt_send_posted t = k"
  shows "ucc_tl_ucp_allgather_ring_progress emap i ds t () m = Block (ring_ops emap ds i k) Wait_all () m"
proof -
  have n: "0 < ep_num emap" "ep_num emap < 2 ^ 31" "u32 (ep_num emap) = ep_num emap" "sub32 (ep_num emap) 1 = ep_num emap - 1"
    using ok by (simp_all add: ring_ok_def map_ok_def wrap_simps)
  have "u32 (sub32 i 1 + ep_num emap) mod ep_num emap = ring_back (ep_num emap) i 1" "u32 (i + 1) = i + 1"
    using n i by (simp_all add: u32_sub_add ring_back_def u32_id)
  moreover have "u64 (ep_eval emap (ring_back (ep_num emap) i j) * ds) = ep_eval emap (ring_back (ep_num emap) i j) * ds" for j
    using ok n(1) by (intro u64_id) (simp add: ring_ok_def map_ok_def)
  ultimately show ?thesis
    using k n ring_send_block [OF ok i, of k] ring_recv_block [OF ok i, of k]
    by (simp add: ucc_tl_ucp_allgather_ring_progress_def ring_ops_def Let_def)
qed

lemma ring_finish:
  assumes "ring_ok emap mr ds" "tt_send_posted t = ep_num emap - 1"
  shows "ucc_tl_ucp_allgather_ring_progress emap i ds t () m = Finish UCC_OK m"
  using assms by (simp add: ucc_tl_ucp_allgather_ring_progress_def ring_ok_def map_ok_def wrap_simps)

lemma ring_counts: "n_sends (ring_ops emap ds i) k = k" "n_recvs (ring_ops emap ds i) k = k"
  by (induction k) (simp_all add: seq_Suc ring_ops_def Let_def)

lemma ring_start_mem:
  assumes "ring_ok emap mr ds" "i < ep_num emap" "mr r = i" "r = ep_eval emap i"
  shows "ucc_tl_ucp_allgather_ring_start UCC_OK inplace emap (mr r) ds t (ms r) = (UCC_OK, ucc_tl_ucp_task_reset t UCC_INPROGRESS, ring_mem inplace emap mr ds ms r 0)"
proof -
  have u: "u32 (ep_num emap) = ep_num emap" "u64 (ds * ep_eval emap i) = ep_eval emap i * ds" using assms by (simp_all add: ring_ok_def map_ok_def wrap_simps mult.commute)
  show ?thesis
    using ring_send_block [OF assms(1,2), of 0] start_blocks [of inplace ms r ds] assms
    by (auto simp: ucc_tl_ucp_allgather_ring_start_def ring_mem_def u Let_def)
qed

lemma ring_matched:
  assumes p: "p \<in> ring_ranks emap mr ds" and q: "q \<in> ring_ranks emap mr ds" and k: "k < ep_num emap - 1"
  shows "map (read_mem (ring_mem inplace emap mr ds ms p k)) (sends_to q (ring_ops emap ds (mr p) k))
    = map (read_mem (ring_mem inplace emap mr ds ms q (Suc k))) (recvs_from p (ring_ops emap ds (mr q) k))"
proof -
  let ?n = "ep_num emap"
  obtain i where i: "ring_ok emap mr ds" "i < ?n" "p = ep_eval emap i" "mr p = i" by (rule ring_ranksE [OF p])
  obtain j where j: "j < ?n" "q = ep_eval emap j" "mr q = j" by (rule ring_ranksE [OF q])
  have n: "0 < ?n" using i(2) by simp
  note inj = ep_eval_inj [OF ring_okD(1) [OF i(1)]]
  have iff: "ep_eval emap ((i + 1) mod ?n) = q \<longleftrightarrow> ep_eval emap (ring_back ?n j 1) = p"
    using inj i(2,3) j(1,2) n ring_back_prev [OF i(2) j(1)] by auto
  show ?thesis
  proof (cases "ep_eval emap ((i + 1) mod ?n) = q")
    case True
    then have "j = (i + 1) mod ?n" using inj [of "(i + 1) mod ?n" j] j n by simp
    then have b: "ring_back ?n j (Suc k) = ring_back ?n i k" using ring_back_next [OF i(2), of k] k by simp
    have "read_mem (ring_mem inplace emap mr ds ms p k) (Dst_buf, ep_eval emap (ring_back ?n i k) * ds, ds)
      = read_mem (ring_mem inplace emap mr ds ms q (Suc k)) (Dst_buf, ep_eval emap (ring_back ?n j (Suc k)) * ds, ds)"
      unfolding b
    proof (rule read_mem_eqI)
      fix bf a assume "in_region (Dst_buf, ep_eval emap (ring_back ?n i k) * ds, ds) bf a"
      moreover have "ep_eval emap (ring_back ?n i k) \<in> (\<lambda>x. ep_eval emap (ring_back ?n i x)) ` {..k}"
        "ep_eval emap (ring_back ?n i k) \<in> (\<lambda>x. ep_eval emap (ring_back ?n j x)) ` {..Suc k}"
        by (simp, rule image_eqI [of _ _ "Suc k"], simp_all add: b)
      ultimately show "ring_mem inplace emap mr ds ms p k bf a = ring_mem inplace emap mr ds ms q (Suc k) bf a"
        unfolding in_region_block by (auto simp: ring_mem_def i(4) j(3))
    qed
    then show ?thesis using True iff i(4) j(3) by (simp add: ring_ops_def Let_def)
  qed (use iff i(4) j(3) in \<open>simp add: ring_ops_def Let_def\<close>)
qed

interpretation allgather_ring: coll_rounds "ring_ranks emap mr ds" "\<lambda>r. ucc_tl_ucp_allgather_ring_progress emap (mr r) ds"
  "\<lambda>r. ((), snd (snd (ucc_tl_ucp_allgather_ring_start UCC_OK inplace emap (mr r) ds t0 (ms r))))" "ep_num emap - 1" "\<lambda>_ _. ()"
  "ring_mem inplace emap mr ds ms" "ring_mem inplace emap mr ds ms" "\<lambda>r. ring_ops emap ds (mr r)" "\<lambda>_ _. Wait_all"
  "\<lambda>r. ring_mem inplace emap mr ds ms r (ep_num emap - 1)" for emap mr ds inplace t0 ms
proof (unfold_locales, goal_cases)
  case 1
  show ?case by (simp add: ring_ranks_def map_ranks_def)
next
  case (2 r)
  then obtain i where "ring_ok emap mr ds" "i < ep_num emap" "mr r = i" "r = ep_eval emap i" by (rule ring_ranksE)
  from ring_start_mem [OF this, where inplace = inplace and t = t0 and ms = ms] show ?case by simp
next
  case (3 r k t)
  then show ?case by (elim ring_ranksE) (simp add: ring_counts ring_block)
next
  case (4 r t)
  then show ?case by (elim ring_ranksE) (simp add: ring_counts ring_finish)
next
  case (6 r)
  then show ?case by (elim ring_ranksE) (auto simp: ring_counts ring_ok_def map_ok_def)
next
  case (7 r k q rg)
  then show ?case by (elim ring_ranksE) (auto simp: ring_ops_def Let_def intro: ring_rank_in)
next
  case (8 r k b a)
  then show ?case
    by (auto simp: ring_ops_def Let_def ring_mem_def in_region_block atMost_Suc simp del: in_region.simps intro!: with_blocks_outside)
next
  case (9 p q k)
  then show ?case by (rule ring_matched)
next
  case (10 r j k q rg p rg' b a)
  have "j = k" using 10(2) 10(4) [of j] by (cases "j = k") auto
  from 10(1) obtain i where i: "ring_ok emap mr ds" "i < ep_num emap" "mr r = i" by (rule ring_ranksE)
  have "ring_back (ep_num emap) i k \<noteq> ring_back (ep_num emap) i (Suc k)" using ring_back_inj [OF i(2), of k "Suc k"] 10(3) by simp
  then show ?case
    using 10(5-7) ep_eval_inj [OF ring_okD(1) [OF i(1)], of "ring_back (ep_num emap) i k" "ring_back (ep_num emap) i (Suc k)"] i \<open>j = k\<close>
    by (auto simp: ring_ops_def Let_def in_region_block simp del: in_region.simps)
qed simp_all

text \<open>
  C4: the ring allgather. Over any well-formed endpoint map, in every interleaving of the ranks and the network, a rank
  that completes has the contribution of every rank in that rank's block and nothing else of its memory changed; the
  ranks never block each other, and all of them end.
\<close>

theorem allgather_ring_correct:
  assumes "ring_ok emap mr ds"
  shows "coll_correct (map_ranks emap) (\<lambda>r. ucc_tl_ucp_allgather_ring_progress emap (mr r) ds)
    (\<lambda>r. ((), snd (snd (ucc_tl_ucp_allgather_ring_start UCC_OK inplace emap (mr r) ds t0 (ms r)))))
    (\<lambda>r m. m = with_blocks (contribution inplace ds ms) ds (map_ranks emap) (ms r))"
proof -
  let ?n = "ep_num emap"
  have "(\<lambda>j. ep_eval emap (ring_back ?n (mr r) j)) ` {..?n - 1} = map_ranks emap" if r: "r \<in> map_ranks emap" for r
  proof -
    have i: "mr r < ?n" using r assms by (auto simp: map_ranks_def ring_ok_def map_ok_def)
    show ?thesis unfolding map_ranks_def ring_back_image [OF i, symmetric] by (simp add: image_image)
  qed
  then show ?thesis
    using allgather_ring.ideal.ideal_correct [of emap mr ds inplace t0 ms] assms
    by (simp add: ring_ranks_def coll_correct_def ring_mem_def)
qed

theorem allgather_ring_correct_witness:
  "coll_correct {0, 1, 2} (\<lambda>r. ucc_tl_ucp_allgather_ring_progress (reverse_map 3) (2 - r) 8)
    (\<lambda>r. ((), snd (snd (ucc_tl_ucp_allgather_ring_start UCC_OK False (reverse_map 3) (2 - r) 8 idle_task (\<lambda>b a. r + 1)))))
    (\<lambda>r m. m = with_blocks (contribution False 8 (\<lambda>r b a. r + 1)) 8 {0, 1, 2} (\<lambda>b a. r + 1))"
proof -
  have c: "\<And>i. i < 3 \<Longrightarrow> i = 0 \<or> i = Suc 0 \<or> i = (2 :: nat)" by auto
  have "ring_ok (reverse_map 3) (\<lambda>r. 2 - r) 8"
    using reverse_map_3 by (auto simp: ring_ok_def dest!: c)
  from allgather_ring_correct [OF this, where inplace = False and ?t0.0 = idle_task and ms = "\<lambda>r b a. r + 1"]
  show ?thesis unfolding reverse_map_3 by simp
qed

end
