(* ===== verification/Allgather_Neighbor.thy ===== *)
theory Allgather_Neighbor
  imports Allgather
begin

text \<open>
  Allgather by neighbour exchange, \<open>src/components/tl/ucp/allgather/allgather_neighbor.c\<close>, for teams of even size.
\<close>

section \<open>Neighbour exchange\<close>










































end
