(* ===== verification/Allgather_Bruck.thy ===== *)
theory Allgather_Bruck
  imports Allgather
begin

text \<open>
  Bruck's allgather, \<open>src/components/tl/ucp/allgather/allgather_bruck.c\<close>: the distance doubles in every round, block
  \<open>j\<close> of the buffer holds the contribution of the rank \<open>j\<close> places on, and at the end the blocks are rotated
  into place through a scratch buffer. \<open>host\<close> tells whether the destination is host memory, \<open>cp i\<close> is the status of the
  \<open>i\<close>-th copy of the last step.
\<close>

section \<open>Definitions\<close>

definition ucc_tl_ucp_allgather_bruck_scratch_size :: "bool \<Rightarrow> ucc_rank \<Rightarrow> ucc_rank \<Rightarrow> nat \<Rightarrow> nat" where
  "ucc_tl_ucp_allgather_bruck_scratch_size host trank tsize data_size =
     (if trank = 0 then 0 else if \<not> host then u64 (tsize * data_size) else u64 (sub32 tsize trank * data_size))"

definition allgather_bruck_rotate ::
    "(nat \<Rightarrow> ucc_status) \<Rightarrow> bool \<Rightarrow> ucc_rank \<Rightarrow> ucc_rank \<Rightarrow> nat \<Rightarrow> nat \<Rightarrow> 'a mem \<Rightarrow> ucc_status \<times> 'a mem" where
  "allgather_bruck_rotate cp host trank tsize data_size scratch_size m =
     (if host then
        let m1 = copy_mem m Scratch_buf 0 Dst_buf 0 scratch_size;
            m2 = copy_mem m1 Dst_buf 0 Dst_buf scratch_size (u64 (trank * data_size));
            m3 = copy_mem m2 Dst_buf (u64 (trank * data_size)) Scratch_buf 0 scratch_size
        in if cp 0 \<noteq> UCC_OK then (cp 0, m) else if cp 1 \<noteq> UCC_OK then (cp 1, m2) else (UCC_OK, m3)
      else
        let m1 = copy_mem m Scratch_buf (u64 (trank * data_size)) Dst_buf 0 (u64 (sub32 tsize trank * data_size));
            m2 = copy_mem m1 Scratch_buf 0 Dst_buf (u64 (sub32 tsize trank * data_size)) (u64 (trank * data_size));
            m3 = copy_mem m2 Dst_buf 0 Scratch_buf 0 (u64 (tsize * data_size))
        in if cp 0 \<noteq> UCC_OK then (cp 0, m) else if cp 1 \<noteq> UCC_OK then (cp 1, m1) else if cp 2 \<noteq> UCC_OK then (cp 2, m2)
           else (UCC_OK, m3))"

text \<open>After a round the code tests the receives only, and when the loop ends it tests all operations.\<close>

definition ucc_tl_ucp_allgather_bruck_progress ::
    "(nat \<Rightarrow> ucc_status) \<Rightarrow> bool \<Rightarrow> ucc_rank \<Rightarrow> ucc_rank \<Rightarrow> nat \<Rightarrow> nat \<Rightarrow> ucc_tl_ucp_task \<Rightarrow> unit \<Rightarrow> 'a mem \<Rightarrow> (unit, 'a) block" where
  "ucc_tl_ucp_allgather_bruck_progress cp host trank tsize data_size scratch_size t x m =
     (let distance = 2 ^ tt_recv_posted t
      in if distance < tsize then
           let recvfrom = (trank + distance) mod tsize;
               sendto = sub64 (u32 (trank + tsize)) distance mod tsize;
               blockcount = (if distance \<le> tsize div 2 then distance else tsize - distance)
           in Block [Xsend sendto (Dst_buf, 0, u64 (blockcount * data_size)),
                     Xrecv recvfrom (Dst_buf, u64 (distance * data_size), u64 (blockcount * data_size))]
                (if 2 ^ (tt_recv_posted t + 1) < tsize then Wait_recv else Wait_all) () m
         else if trank \<noteq> 0 then
           let (st, m1) = allgather_bruck_rotate cp host trank tsize data_size scratch_size m in Finish st m1
         else Finish UCC_OK m)"

definition ucc_tl_ucp_allgather_bruck_start ::
    "ucc_status \<Rightarrow> bool \<Rightarrow> ucc_rank \<Rightarrow> nat \<Rightarrow> ucc_tl_ucp_task \<Rightarrow> 'a mem \<Rightarrow> ucc_status \<times> ucc_tl_ucp_task \<times> 'a mem" where
  "ucc_tl_ucp_allgather_bruck_start cp inplace trank data_size t m =
     (let t1 = ucc_tl_ucp_task_reset t UCC_INPROGRESS
      in if \<not> inplace then
           if cp \<noteq> UCC_OK then (cp, t1, m) else (UCC_OK, t1, copy_mem m Dst_buf 0 Src_buf 0 data_size)
         else if trank \<noteq> 0 then
           if cp \<noteq> UCC_OK then (cp, t1, m) else (UCC_OK, t1, copy_mem m Dst_buf 0 Dst_buf (u64 (data_size * trank)) data_size)
         else (UCC_OK, t1, m))"

section \<open>The ideal execution\<close>

definition bruck_rounds :: "nat \<Rightarrow> nat" where
  "bruck_rounds n = (LEAST k. n \<le> 2 ^ k)"

lemma bruck_rounds_iff: "k < bruck_rounds n \<longleftrightarrow> 2 ^ k < n"
proof
  assume "k < bruck_rounds n"
  then show "2 ^ k < n" using not_less_Least [of k "\<lambda>k. n \<le> 2 ^ k"] by (simp add: bruck_rounds_def not_le)
next
  assume k: "2 ^ k < n"
  have "n \<le> 2 ^ bruck_rounds n" unfolding bruck_rounds_def by (rule LeastI [of "\<lambda>k. n \<le> 2 ^ k" n]) (simp add: less_imp_le)
  then have "(2::nat) ^ k < 2 ^ bruck_rounds n" using k by linarith
  then show "k < bruck_rounds n" by simp
qed

definition bruck_ok :: "nat \<Rightarrow> nat \<Rightarrow> bool" where
  "bruck_ok n ds \<longleftrightarrow> 0 < n \<and> n \<le> 2 ^ 30 \<and> n * ds < 2 ^ 64"

definition bruck_ranks :: "nat \<Rightarrow> nat \<Rightarrow> ucc_rank set" where
  "bruck_ranks n ds = (if bruck_ok n ds then {..<n} else {})"

definition bruck_count :: "nat \<Rightarrow> nat \<Rightarrow> nat" where
  "bruck_count n k = min (2 ^ k) (n - 2 ^ k)"

definition bruck_ops :: "nat \<Rightarrow> nat \<Rightarrow> ucc_rank \<Rightarrow> nat \<Rightarrow> xfer list" where
  "bruck_ops n ds r k =
     [Xsend (ring_back n r (2 ^ k)) (Dst_buf, 0, bruck_count n k * ds),
      Xrecv ((r + 2 ^ k) mod n) (Dst_buf, 2 ^ k * ds, bruck_count n k * ds)]"

definition bruck_mem :: "bool \<Rightarrow> nat \<Rightarrow> nat \<Rightarrow> (ucc_rank \<Rightarrow> 'a mem) \<Rightarrow> ucc_rank \<Rightarrow> nat \<Rightarrow> 'a mem" where
  "bruck_mem inplace n ds ms r k =
     with_blocks (\<lambda>j. contribution inplace ds ms ((r + j) mod n)) ds {..<min (2 ^ k) n} (ms r)"

lemma bruck_counts: "n_sends (bruck_ops n ds r) k = k" "n_recvs (bruck_ops n ds r) k = k"
  by (induction k) (simp_all add: seq_Suc bruck_ops_def)

lemma bruck_ranks_iff: "r \<in> bruck_ranks n ds \<longleftrightarrow> bruck_ok n ds \<and> r < n"
  by (simp add: bruck_ranks_def)

lemma bruck_u64: "bruck_ok n ds \<Longrightarrow> b \<le> n \<Longrightarrow> u64 (b * ds) = b * ds"
  by (intro u64_id le_less_trans [of "b * ds" "n * ds"] mult_le_mono1) (auto simp: bruck_ok_def)

lemma bruck_block:
  assumes ok: "bruck_ok n ds" "r < n" and k: "2 ^ k < n" "tt_recv_posted t = k"
  shows "ucc_tl_ucp_allgather_bruck_progress cp host r n ds ss t () m
    = Block (bruck_ops n ds r k) (if 2 ^ Suc k < n then Wait_recv else Wait_all) () m"
proof -
  have "sub64 (u32 (r + n)) (2 ^ k) = r + n - 2 ^ k" using ok k by (subst u32_id, simp add: bruck_ok_def, intro sub64_id) (auto simp: bruck_ok_def)
  moreover have "(if 2 ^ k \<le> n div 2 then 2 ^ k else n - 2 ^ k) = bruck_count n k" by (auto simp: bruck_count_def)
  ultimately show ?thesis
    using k bruck_u64 [OF ok(1), of "2 ^ k"] bruck_u64 [OF ok(1), of "bruck_count n k"]
    by (simp add: ucc_tl_ucp_allgather_bruck_progress_def bruck_ops_def Let_def ring_back_def bruck_count_def [symmetric])
      (simp add: bruck_count_def)
qed

lemma block_addr: "a div ds = b \<Longrightarrow> a - b * ds = a mod ds" "a div ds = b \<Longrightarrow> b * ds + a mod ds = a"
  for a ds b :: nat
  by (auto simp: minus_mult_div_eq_mod [symmetric] mult.commute)

lemma bruck_start_mem:
  assumes "bruck_ok n ds" "r < n"
  shows "snd (snd (ucc_tl_ucp_allgather_bruck_start UCC_OK inplace r ds t (ms r))) = bruck_mem inplace n ds ms r 0"
proof -
  have z: "0 < ds \<and> a div ds = 0 \<longleftrightarrow> a < ds" for a by (cases "ds = 0") (auto simp: div_eq_0_iff)
  have u: "u64 (ds * r) = r * ds" using bruck_u64 [OF assms(1), of r] assms(2) by (simp add: mult.commute)
  have e: "bruck_mem inplace n ds ms r 0 = (ms r)(Dst_buf := (\<lambda>a. if a < ds then contribution inplace ds ms r a else ms r Dst_buf a))"
  proof -
    have "min (2 ^ 0) n = 1" using assms by (simp add: bruck_ok_def)
    then have "(a div ds \<in> {..<min (2 ^ 0) n}) = (a div ds = 0)" for a by simp
    then show ?thesis using assms(2) unfolding bruck_mem_def with_blocks_def by (intro ext) (simp add: z)
  qed
  show ?thesis
  proof (intro ext)
    fix b a
    show "snd (snd (ucc_tl_ucp_allgather_bruck_start UCC_OK inplace r ds t (ms r))) b a = bruck_mem inplace n ds ms r 0 b a"
      unfolding e ucc_tl_ucp_allgather_bruck_start_def Let_def u by (cases inplace) (simp_all add: copy_mem_apply contribution_def)
  qed
qed

lemma read_mem_shift:
  "(\<And>i. i < len \<Longrightarrow> m1 b1 (o1 + i) = m2 b2 (o2 + i)) \<Longrightarrow> read_mem m1 (b1, o1, len) = read_mem m2 (b2, o2, len)"
  by (auto simp: list_eq_iff_nth_eq)

lemma bruck_matched:
  assumes ok: "bruck_ok n ds" "p < n" "q < n" and k: "2 ^ k < n"
  shows "map (read_mem (bruck_mem inplace n ds ms p k)) (sends_to q (bruck_ops n ds p k))
    = map (read_mem (bruck_mem inplace n ds ms q (Suc k))) (recvs_from p (bruck_ops n ds q k))"
proof -
  have iff: "ring_back n p (2 ^ k) = q \<longleftrightarrow> (q + 2 ^ k) mod n = p"
    using ok k by (auto simp: ring_back_cases mod_if split: if_splits)
  have "read_mem (bruck_mem inplace n ds ms p k) (Dst_buf, 0, bruck_count n k * ds)
    = read_mem (bruck_mem inplace n ds ms q (Suc k)) (Dst_buf, 2 ^ k * ds, bruck_count n k * ds)" if "(q + 2 ^ k) mod n = p"
  proof (rule read_mem_shift)
    fix i assume i: "i < bruck_count n k * ds"
    then have ds: "0 < ds" by (cases ds) auto
    have j: "i div ds < bruck_count n k" using i ds by (simp add: div_less_iff_less_mult)
    have "(2 ^ k * ds + i) div ds = 2 ^ k + i div ds" "(2 ^ k * ds + i) mod ds = i mod ds" using ds by simp_all
    moreover have "(q + (2 ^ k + i div ds)) mod n = (p + i div ds) mod n" using that by (metis add.assoc mod_add_left_eq)
    moreover have "i div ds < min (2 ^ k) n" "2 ^ k + i div ds < min (2 ^ Suc k) n" using j k by (auto simp: bruck_count_def)
    ultimately show "bruck_mem inplace n ds ms p k Dst_buf (0 + i) = bruck_mem inplace n ds ms q (Suc k) Dst_buf (2 ^ k * ds + i)"
      using ds by (simp add: bruck_mem_def with_blocks_def)
  qed
  then show ?thesis using iff by (simp add: bruck_ops_def del: read_mem.simps)
qed

text \<open>The rotation puts the block of every rank into its place.\<close>

lemma rotate_host:
  fixes A B :: nat and m :: "'a mem"
  defines "m1 \<equiv> copy_mem m Scratch_buf 0 Dst_buf 0 B"
  defines "m2 \<equiv> copy_mem m1 Dst_buf 0 Dst_buf B A"
  defines "m3 \<equiv> copy_mem m2 Dst_buf A Scratch_buf 0 B"
  shows "m3 Dst_buf a = (if a < A then m Dst_buf (B + a) else if a < A + B then m Dst_buf (a - A) else m Dst_buf a)" "m3 Src_buf a = m Src_buf a"
proof -
  have m1: "m1 Scratch_buf i = (if i < B then m Dst_buf i else m Scratch_buf i)" "m1 Dst_buf i = m Dst_buf i" "m1 Src_buf i = m Src_buf i" for i
    by (simp_all add: m1_def copy_mem_apply)
  have m2: "m2 Scratch_buf i = m1 Scratch_buf i" "m2 Dst_buf i = (if i < A then m1 Dst_buf (B + i) else m1 Dst_buf i)" "m2 Src_buf i = m1 Src_buf i" for i
    by (simp_all add: m2_def copy_mem_apply)
  have m3: "m3 Dst_buf i = (if A \<le> i \<and> i < A + B then m2 Scratch_buf (i - A) else m2 Dst_buf i)" "m3 Src_buf i = m2 Src_buf i" for i
    by (simp_all add: m3_def copy_mem_apply)
  show "m3 Src_buf a = m Src_buf a" by (simp add: m1 m2 m3)
  show "m3 Dst_buf a = (if a < A then m Dst_buf (B + a) else if a < A + B then m Dst_buf (a - A) else m Dst_buf a)"
    unfolding m3 m2 m1 by auto
qed

lemma rotate_device:
  fixes A B :: nat and m :: "'a mem"
  defines "m1 \<equiv> copy_mem m Scratch_buf A Dst_buf 0 B"
  defines "m2 \<equiv> copy_mem m1 Scratch_buf 0 Dst_buf B A"
  defines "m3 \<equiv> copy_mem m2 Dst_buf 0 Scratch_buf 0 (A + B)"
  shows "m3 Dst_buf a = (if a < A then m Dst_buf (B + a) else if a < A + B then m Dst_buf (a - A) else m Dst_buf a)" "m3 Src_buf a = m Src_buf a"
proof -
  have m1: "m1 Scratch_buf i = (if A \<le> i \<and> i < A + B then m Dst_buf (i - A) else m Scratch_buf i)" "m1 Dst_buf i = m Dst_buf i" "m1 Src_buf i = m Src_buf i" for i
    by (simp_all add: m1_def copy_mem_apply)
  have m2: "m2 Scratch_buf i = (if i < A then m1 Dst_buf (B + i) else m1 Scratch_buf i)" "m2 Dst_buf i = m1 Dst_buf i" "m2 Src_buf i = m1 Src_buf i" for i
    by (simp_all add: m2_def copy_mem_apply)
  have m3: "m3 Dst_buf i = (if i < A + B then m2 Scratch_buf i else m2 Dst_buf i)" "m3 Src_buf i = m2 Src_buf i" for i
    by (simp_all add: m3_def copy_mem_apply)
  show "m3 Src_buf a = m Src_buf a" by (simp add: m1 m2 m3)
  show "m3 Dst_buf a = (if a < A then m Dst_buf (B + a) else if a < A + B then m Dst_buf (a - A) else m Dst_buf a)"
    unfolding m3 m2 m1 by auto
qed

lemma bruck_rotate:
  assumes ok: "bruck_ok n ds" "r < n" "r \<noteq> 0" and cp: "\<And>i. cp i = UCC_OK"
    and rot: "allgather_bruck_rotate cp host r n ds (ucc_tl_ucp_allgather_bruck_scratch_size host r n ds) m = (st, m')"
  shows "st = UCC_OK" "m' Src_buf = m Src_buf"
    "m' Dst_buf a = (if a < r * ds then m Dst_buf ((n - r) * ds + a) else if a < n * ds then m Dst_buf (a - r * ds) else m Dst_buf a)"
proof -
  have n: "n * ds = r * ds + (n - r) * ds" using ok(2) by (simp add: add_mult_distrib [symmetric])
  have u: "u64 (r * ds) = r * ds" "u64 (n * ds) = r * ds + (n - r) * ds" "u64 ((n - r) * ds) = (n - r) * ds" "sub32 n r = n - r"
    using bruck_u64 [OF ok(1)] ok(1,2) n by (auto simp: sub32_id u64_id bruck_ok_def)
  note h = rotate_host [where m = m and A = "r * ds" and B = "(n - r) * ds"]
    and d = rotate_device [where m = m and A = "r * ds" and B = "(n - r) * ds"]
  note r = rot [unfolded allgather_bruck_rotate_def ucc_tl_ucp_allgather_bruck_scratch_size_def Let_def u cp]
  show "st = UCC_OK" using r ok(3) by (simp split: if_splits)
  show "m' Src_buf = m Src_buf" using r ok(3) h(2) d(2) by (cases host) auto
  show "m' Dst_buf a = (if a < r * ds then m Dst_buf ((n - r) * ds + a) else if a < n * ds then m Dst_buf (a - r * ds) else m Dst_buf a)"
    using r ok(3) h(1) [of a] d(1) [of a] unfolding n by (cases host) auto
qed

lemma bruck_rotate_blocks:
  fixes r n ds a :: nat
  assumes ok: "r < n"
    and m: "\<And>a. 0 < ds \<Longrightarrow> a div ds < n \<Longrightarrow> m a = c ((r + a div ds) mod n) (a mod ds)"
  shows "(if a < r * ds then m ((n - r) * ds + a) else if a < n * ds then m (a - r * ds) else m a)
    = (if 0 < ds \<and> a div ds < n then c (a div ds) (a mod ds) else m a)"
proof (cases "ds = 0")
  case False
  then have ds: "0 < ds" by simp
  have iff: "a < b * ds \<longleftrightarrow> a div ds < b" for b using ds by (simp add: div_less_iff_less_mult)
  show ?thesis
  proof (cases "a div ds < r")
    case True
    have "((n - r) * ds + a) div ds = n - r + a div ds" "((n - r) * ds + a) mod ds = a mod ds" using ds by simp_all
    moreover have "(r + (n - r + a div ds)) mod n = a div ds" using True ok by simp
    ultimately have "m ((n - r) * ds + a) = c (a div ds) (a mod ds)" using m [of "(n - r) * ds + a"] ds True ok by simp
    moreover have "a < r * ds" using iff True by blast
    ultimately show ?thesis using ds True ok by simp
  next
    case hi: False
    show ?thesis
    proof (cases "a div ds < n")
      case True
      have "r * ds \<le> a" using hi iff [of r] by simp
      then obtain d where a: "a = r * ds + d" using le_Suc_ex by blast
      then have e: "a div ds = r + d div ds" "a mod ds = d mod ds" "a - r * ds = d" using ds by simp_all
      have "m d = c (a div ds) (a mod ds)" using m [of d] ds True unfolding e by simp
      moreover have "\<not> a < r * ds" "a < n * ds" using iff hi True by blast+
      ultimately show ?thesis using e(3) ds True by simp
    next
      case False
      then have "\<not> a < r * ds" "\<not> a < n * ds" using iff hi by blast+
      then show ?thesis using False by simp
    qed
  qed
qed simp

definition bruck_final :: "bool \<Rightarrow> bool \<Rightarrow> nat \<Rightarrow> nat \<Rightarrow> (ucc_rank \<Rightarrow> 'a mem) \<Rightarrow> ucc_rank \<Rightarrow> 'a mem" where
  "bruck_final inplace host n ds ms r =
     (let m = bruck_mem inplace n ds ms r (bruck_rounds n)
      in if r = 0 then m
         else snd (allgather_bruck_rotate (\<lambda>_. UCC_OK) host r n ds (ucc_tl_ucp_allgather_bruck_scratch_size host r n ds) m))"

lemma bruck_finish:
  assumes ok: "bruck_ok n ds" "r < n" and t: "tt_recv_posted t = bruck_rounds n"
  shows "ucc_tl_ucp_allgather_bruck_progress (\<lambda>_. UCC_OK) host r n ds (ucc_tl_ucp_allgather_bruck_scratch_size host r n ds) t ()
    (bruck_mem inplace n ds ms r (bruck_rounds n)) = Finish UCC_OK (bruck_final inplace host n ds ms r)"
proof -
  have "\<not> 2 ^ bruck_rounds n < n" using bruck_rounds_iff [of "bruck_rounds n" n] by simp
  moreover obtain st m' where "allgather_bruck_rotate (\<lambda>_. UCC_OK) host r n ds (ucc_tl_ucp_allgather_bruck_scratch_size host r n ds)
    (bruck_mem inplace n ds ms r (bruck_rounds n)) = (st, m')" by fastforce
  moreover have "st = UCC_OK" if "r \<noteq> 0" using bruck_rotate(1) [OF ok that _ calculation(2)] by simp
  ultimately show ?thesis using t by (simp add: ucc_tl_ucp_allgather_bruck_progress_def bruck_final_def)
qed

lemma bruck_final_blocks:
  assumes ok: "bruck_ok n ds" "r < n"
  shows "bruck_final inplace host n ds ms r Dst_buf = with_blocks (contribution inplace ds ms) ds {..<n} (ms r) Dst_buf"
    and "bruck_final inplace host n ds ms r Src_buf = ms r Src_buf"
proof -
  let ?m = "bruck_mem inplace n ds ms r (bruck_rounds n)"
  have "n \<le> 2 ^ bruck_rounds n" using bruck_rounds_iff [of "bruck_rounds n" n] by simp
  then have m: "?m Dst_buf a = (if 0 < ds \<and> a div ds < n then contribution inplace ds ms ((r + a div ds) mod n) (a mod ds) else ms r Dst_buf a)"
    "?m Src_buf = ms r Src_buf" for a
    by (simp_all add: bruck_mem_def with_blocks_def)
  have "bruck_final inplace host n ds ms r Dst_buf a = with_blocks (contribution inplace ds ms) ds {..<n} (ms r) Dst_buf a
    \<and> bruck_final inplace host n ds ms r Src_buf = ms r Src_buf" for a
  proof (cases "r = 0")
    case True
    then show ?thesis using ok m by (simp add: bruck_final_def with_blocks_def)
  next
    case False
    obtain st m' where rot: "allgather_bruck_rotate (\<lambda>_. UCC_OK) host r n ds (ucc_tl_ucp_allgather_bruck_scratch_size host r n ds) ?m = (st, m')"
      by fastforce
    note b = bruck_rotate [OF ok False _ rot]
    have "bruck_final inplace host n ds ms r = m'" using False rot by (simp add: bruck_final_def)
    moreover have "m' Dst_buf a = (if 0 < ds \<and> a div ds < n then contribution inplace ds ms (a div ds) (a mod ds) else ?m Dst_buf a)"
      using b(3) [of a] bruck_rotate_blocks [OF ok(2), of ds "?m Dst_buf" "contribution inplace ds ms" a] m(1) by simp
    moreover have "?m Dst_buf a = ms r Dst_buf a" if "\<not> (0 < ds \<and> a div ds < n)" unfolding m(1) if_not_P [OF that] ..
    ultimately show ?thesis
      using b(2) m(2) by (auto simp: with_blocks_def)
  qed
  then show "bruck_final inplace host n ds ms r Dst_buf = with_blocks (contribution inplace ds ms) ds {..<n} (ms r) Dst_buf"
    "bruck_final inplace host n ds ms r Src_buf = ms r Src_buf" by blast+
qed

interpretation allgather_bruck: coll_rounds "bruck_ranks n ds"
  "\<lambda>r. ucc_tl_ucp_allgather_bruck_progress (\<lambda>_. UCC_OK) host r n ds (ucc_tl_ucp_allgather_bruck_scratch_size host r n ds)"
  "\<lambda>r. ((), snd (snd (ucc_tl_ucp_allgather_bruck_start UCC_OK inplace r ds t0 (ms r))))" "bruck_rounds n" "\<lambda>_ _. ()"
  "bruck_mem inplace n ds ms" "bruck_mem inplace n ds ms" "bruck_ops n ds" "\<lambda>_ k. if 2 ^ Suc k < n then Wait_recv else Wait_all"
  "bruck_final inplace host n ds ms" for n ds inplace host t0 ms
proof (unfold_locales, goal_cases)
  case 1
  show ?case by (simp add: bruck_ranks_def)
next
  case (2 r)
  then show ?case by (simp add: bruck_start_mem bruck_ranks_iff)
next
  case (3 r k t)
  then have "ucc_tl_ucp_allgather_bruck_progress cp host r n ds ss t () m =
    Block (bruck_ops n ds r k) (if 2 ^ Suc k < n then Wait_recv else Wait_all) () m" for cp ss and m :: "'a mem"
    using bruck_block [of n ds r k t cp host ss m] by (simp add: bruck_ranks_iff bruck_counts bruck_rounds_iff)
  then show ?case .
next
  case (4 r t)
  then show ?case using bruck_finish [of n ds r t] by (simp add: bruck_ranks_iff bruck_counts)
next
  case (5 r)
  then have "\<not> 2 ^ bruck_rounds n < n" using bruck_rounds_iff [of "bruck_rounds n" n] by simp
  then show ?case using 5(2) by simp
next
  case (6 r)
  have "bruck_rounds n < 2 ^ 32"
  proof (rule ccontr)
    assume "\<not> ?thesis"
    then have "2 ^ 31 < n" using bruck_rounds_iff [of 31 n] by simp
    then show False using 6 by (simp add: bruck_ranks_iff bruck_ok_def)
  qed
  then show ?case by (simp add: bruck_counts)
next
  case (7 r k q rg)
  then show ?case by (auto simp: bruck_ranks_iff bruck_ops_def)
next
  case (8 r k b a)
  then have "\<not> in_region (Dst_buf, 2 ^ k * ds, bruck_count n k * ds) b a" "2 ^ k < n" by (auto simp: bruck_ops_def bruck_rounds_iff simp del: in_region.simps)
  then show ?case unfolding in_region_blocks bruck_mem_def by (intro with_blocks_outside) (auto simp: bruck_count_def)
next
  case (9 p q k)
  then show ?case by (simp add: bruck_matched bruck_ranks_iff bruck_rounds_iff)
next
  case (10 r j k q rg p rg' b a)
  have le: "(2::nat) ^ j \<le> 2 ^ k" using 10(2) by simp
  have "in_region (Dst_buf, 0 * ds, bruck_count n j * ds) b a" using 10(5,7) by (auto simp: bruck_ops_def)
  then have "a div ds < 2 ^ j" unfolding in_region_blocks bruck_count_def by auto
  then have "a div ds < 2 ^ k" using le by (rule order.strict_trans2)
  moreover have "rg' = (Dst_buf, 2 ^ k * ds, bruck_count n k * ds)" using 10(6) by (simp add: bruck_ops_def)
  ultimately show ?case by (auto simp: in_region_blocks simp del: in_region.simps)
qed simp_all

text \<open>
  C5: Bruck's allgather. For every team, in host and in device memory, in every interleaving, a rank that completes has
  the contribution of every rank in its block and the rest of the destination and the source unchanged; the ranks never block
  each other, and all of them end. No buffer is changed while it is being sent, although the rounds wait for the receives only.
\<close>

theorem allgather_bruck_correct:
  assumes "0 < n" "n \<le> 2 ^ 30" "n * ds < 2 ^ 64"
  shows "coll_correct {..<n}
    (\<lambda>r. ucc_tl_ucp_allgather_bruck_progress (\<lambda>_. UCC_OK) host r n ds (ucc_tl_ucp_allgather_bruck_scratch_size host r n ds))
    (\<lambda>r. ((), snd (snd (ucc_tl_ucp_allgather_bruck_start UCC_OK inplace r ds t0 (ms r)))))
    (\<lambda>r m. m Dst_buf = with_blocks (contribution inplace ds ms) ds {..<n} (ms r) Dst_buf \<and> m Src_buf = ms r Src_buf)"
  using allgather_bruck.ideal.ideal_correct [of n ds host inplace t0 ms] bruck_final_blocks [of n ds _ inplace host ms] assms
  by (simp add: bruck_ranks_def bruck_ok_def coll_correct_def)

theorem allgather_bruck_correct_witness:
  "coll_correct {..<5} (\<lambda>r. ucc_tl_ucp_allgather_bruck_progress (\<lambda>_. UCC_OK) True r 5 4 (ucc_tl_ucp_allgather_bruck_scratch_size True r 5 4))
    (\<lambda>r. ((), snd (snd (ucc_tl_ucp_allgather_bruck_start UCC_OK False r 4 idle_task (\<lambda>b a. r + a)))))
    (\<lambda>r m. m Dst_buf = with_blocks (contribution False 4 (\<lambda>r b a. r + a)) 4 {..<5} (\<lambda>b a. r + a) Dst_buf \<and> m Src_buf = (\<lambda>a. r + a))"
  using allgather_bruck_correct [of 5 4 True False idle_task "\<lambda>r b a. r + a"] by simp

end
