(* ===== verification/Ec_Cpu.thy ===== *)
theory Ec_Cpu
  imports Ucc_Math Coll_Types "HOL-Library.Word"
begin

text \<open>
  Reductions of the CPU executor, \<open>src/components/ec/cpu/ec_cpu_reduce.c\<close> with the operation macros of
  \<open>src/utils/ucc_math.h\<close> and \<open>ucc_math_op.h\<close>, and the strided reduction the collectives post to it. Integers are words of
  their width: a macro computes in \<open>int\<close> and its result is cut to the width of the type when it is stored.
  Floating-point arithmetic is an argument.
\<close>

section \<open>Operations\<close>

datatype ucc_reduction_op =
    UCC_OP_SUM | UCC_OP_PROD | UCC_OP_MAX | UCC_OP_MIN | UCC_OP_LAND | UCC_OP_LOR | UCC_OP_LXOR
  | UCC_OP_BAND | UCC_OP_BOR | UCC_OP_BXOR | UCC_OP_MAXLOC | UCC_OP_MINLOC | UCC_OP_AVG | UCC_OP_LAST

unbundle bit_operations_syntax

definition DO_OP_SUM :: "'w::len word \<Rightarrow> 'w word \<Rightarrow> 'w word" where "DO_OP_SUM v1 v2 = v1 + v2"

definition DO_OP_PROD :: "'w::len word \<Rightarrow> 'w word \<Rightarrow> 'w word" where "DO_OP_PROD v1 v2 = v1 * v2"

text \<open>The order of an integer type; \<open>sg\<close> tells whether it is signed.\<close>

definition int_less :: "bool \<Rightarrow> 'w::len word \<Rightarrow> 'w word \<Rightarrow> bool" where
  "int_less sg a b \<longleftrightarrow> (if sg then sint a < sint b else a < b)"

definition DO_OP_MAX :: "bool \<Rightarrow> 'w::len word \<Rightarrow> 'w word \<Rightarrow> 'w word" where
  "DO_OP_MAX sg v1 v2 = (if int_less sg v2 v1 then v1 else v2)"

definition DO_OP_MIN :: "bool \<Rightarrow> 'w::len word \<Rightarrow> 'w word \<Rightarrow> 'w word" where
  "DO_OP_MIN sg v1 v2 = (if int_less sg v1 v2 then v1 else v2)"

definition DO_OP_LAND :: "'w::len word \<Rightarrow> 'w word \<Rightarrow> 'w word" where
  "DO_OP_LAND v1 v2 = (if v1 \<noteq> 0 \<and> v2 \<noteq> 0 then 1 else 0)"

definition DO_OP_BAND :: "'w::len word \<Rightarrow> 'w word \<Rightarrow> 'w word" where "DO_OP_BAND v1 v2 = v1 AND v2"

definition DO_OP_LOR :: "'w::len word \<Rightarrow> 'w word \<Rightarrow> 'w word" where
  "DO_OP_LOR v1 v2 = (if v1 \<noteq> 0 \<or> v2 \<noteq> 0 then 1 else 0)"

definition DO_OP_BOR :: "'w::len word \<Rightarrow> 'w word \<Rightarrow> 'w word" where "DO_OP_BOR v1 v2 = v1 OR v2"

definition DO_OP_LXOR :: "'w::len word \<Rightarrow> 'w word \<Rightarrow> 'w word" where
  "DO_OP_LXOR v1 v2 = (if (v1 = 0) \<noteq> (v2 = 0) then 1 else 0)"

definition DO_OP_BXOR :: "'w::len word \<Rightarrow> 'w word \<Rightarrow> 'w word" where "DO_OP_BXOR v1 v2 = v1 XOR v2"

text \<open>
  The unrolled macros of \<open>ucc_math_op.h\<close> for two to eight operands: \<open>DO_OP_n\<close> chains an infix operator,
  \<open>DO_OP__n\<close> calls a two-place macro as a tree.
\<close>

fun DO_OP_n :: "('a \<Rightarrow> 'a \<Rightarrow> 'a) \<Rightarrow> 'a list \<Rightarrow> 'a option" where
  "DO_OP_n f [a, b] = Some (f a b)"
| "DO_OP_n f [a, b, c] = Some (f (f a b) c)"
| "DO_OP_n f [a, b, c, d] = Some (f (f (f a b) c) d)"
| "DO_OP_n f [a, b, c, d, e] = Some (f (f (f (f a b) c) d) e)"
| "DO_OP_n f [a, b, c, d, e, g] = Some (f (f (f (f (f a b) c) d) e) g)"
| "DO_OP_n f [a, b, c, d, e, g, h] = Some (f (f (f (f (f (f a b) c) d) e) g) h)"
| "DO_OP_n f [a, b, c, d, e, g, h, i] = Some (f (f (f (f (f (f (f a b) c) d) e) g) h) i)"
| "DO_OP_n f _ = None"

fun DO_OP__n :: "('a \<Rightarrow> 'a \<Rightarrow> 'a) \<Rightarrow> 'a list \<Rightarrow> 'a option" where
  "DO_OP__n f [a, b] = Some (f a b)"
| "DO_OP__n f [a, b, c] = Some (f (f a b) c)"
| "DO_OP__n f [a, b, c, d] = Some (f (f a b) (f c d))"
| "DO_OP__n f [a, b, c, d, e] = Some (f (f a b) (f (f c d) e))"
| "DO_OP__n f [a, b, c, d, e, g] = Some (f (f (f a b) c) (f (f d e) g))"
| "DO_OP__n f [a, b, c, d, e, g, h] = Some (f (f (f a b) c) (f (f d e) (f g h)))"
| "DO_OP__n f [a, b, c, d, e, g, h, i] = Some (f (f (f a b) (f c d)) (f (f e g) (f h i)))"
| "DO_OP__n f _ = None"

text \<open>
  \<open>DO_DT_REDUCE_WITH_OP\<close> on one element: \<open>opn\<close> is the family of macros, \<open>op2\<close> its member for two operands. The default
  case reads eight sources, so that fewer than two have no result.
\<close>

definition DO_DT_REDUCE_WITH_OP :: "('a list \<Rightarrow> 'a option) \<Rightarrow> ('a \<Rightarrow> 'a \<Rightarrow> 'a) \<Rightarrow> 'a list \<Rightarrow> 'a option" where
  "DO_DT_REDUCE_WITH_OP opn op2 s =
     (if 2 \<le> length s \<and> length s \<le> 8 then opn s
      else if length s < 8 then None
      else map_option (\<lambda>tmp. foldl op2 tmp (drop 8 s)) (opn (take 8 s)))"

definition DO_DT_REDUCE_INT ::
    "bool \<Rightarrow> ucc_reduction_op \<Rightarrow> bool \<Rightarrow> ('w::len word \<Rightarrow> 'w word) \<Rightarrow> 'w word list \<Rightarrow> ucc_status + 'w word option" where
  "DO_DT_REDUCE_INT sg op with_alpha scale s =
     (let infix_op = (\<lambda>f. Inr (DO_DT_REDUCE_WITH_OP (DO_OP_n f) f s));
          macro_op = (\<lambda>f. Inr (DO_DT_REDUCE_WITH_OP (DO_OP__n f) f s));
          sum_op = DO_DT_REDUCE_WITH_OP (DO_OP_n DO_OP_SUM) DO_OP_SUM s
      in case op of
           UCC_OP_AVG \<Rightarrow> Inr (if with_alpha then map_option scale sum_op else sum_op)
         | UCC_OP_SUM \<Rightarrow> Inr (if with_alpha then map_option scale sum_op else sum_op)
         | UCC_OP_MIN \<Rightarrow> macro_op (DO_OP_MIN sg)
         | UCC_OP_MAX \<Rightarrow> macro_op (DO_OP_MAX sg)
         | UCC_OP_PROD \<Rightarrow> infix_op DO_OP_PROD
         | UCC_OP_LAND \<Rightarrow> infix_op DO_OP_LAND
         | UCC_OP_BAND \<Rightarrow> infix_op DO_OP_BAND
         | UCC_OP_LOR \<Rightarrow> infix_op DO_OP_LOR
         | UCC_OP_BOR \<Rightarrow> infix_op DO_OP_BOR
         | UCC_OP_LXOR \<Rightarrow> macro_op DO_OP_LXOR
         | UCC_OP_BXOR \<Rightarrow> infix_op DO_OP_BXOR
         | _ \<Rightarrow> Inl UCC_ERR_NOT_SUPPORTED)"

text \<open>The arithmetic of a floating-point type.\<close>

record 'a float_ops =
  f_add :: "'a \<Rightarrow> 'a \<Rightarrow> 'a"
  f_mul :: "'a \<Rightarrow> 'a \<Rightarrow> 'a"
  f_min :: "'a \<Rightarrow> 'a \<Rightarrow> 'a"
  f_max :: "'a \<Rightarrow> 'a \<Rightarrow> 'a"

definition DO_DT_REDUCE_FLOAT ::
    "'a float_ops \<Rightarrow> ucc_reduction_op \<Rightarrow> bool \<Rightarrow> ('a \<Rightarrow> 'a) \<Rightarrow> 'a list \<Rightarrow> ucc_status + 'a option" where
  "DO_DT_REDUCE_FLOAT fo op with_alpha scale s =
     (let fin = (\<lambda>x. Inr (if with_alpha then map_option scale x else x))
      in case op of
           UCC_OP_AVG \<Rightarrow> fin (DO_DT_REDUCE_WITH_OP (DO_OP_n (f_add fo)) (f_add fo) s)
         | UCC_OP_SUM \<Rightarrow> fin (DO_DT_REDUCE_WITH_OP (DO_OP_n (f_add fo)) (f_add fo) s)
         | UCC_OP_PROD \<Rightarrow> fin (DO_DT_REDUCE_WITH_OP (DO_OP_n (f_mul fo)) (f_mul fo) s)
         | UCC_OP_MIN \<Rightarrow> fin (DO_DT_REDUCE_WITH_OP (DO_OP__n (f_min fo)) (f_min fo) s)
         | UCC_OP_MAX \<Rightarrow> fin (DO_DT_REDUCE_WITH_OP (DO_OP__n (f_max fo)) (f_max fo) s)
         | _ \<Rightarrow> Inl UCC_ERR_NOT_SUPPORTED)"

definition DO_DT_REDUCE_FLOAT_COMPLEX ::
    "'a float_ops \<Rightarrow> ucc_reduction_op \<Rightarrow> bool \<Rightarrow> ('a \<Rightarrow> 'a) \<Rightarrow> 'a list \<Rightarrow> ucc_status + 'a option" where
  "DO_DT_REDUCE_FLOAT_COMPLEX fo op with_alpha scale s =
     (let fin = (\<lambda>x. Inr (if with_alpha then map_option scale x else x))
      in case op of
           UCC_OP_AVG \<Rightarrow> fin (DO_DT_REDUCE_WITH_OP (DO_OP_n (f_add fo)) (f_add fo) s)
         | UCC_OP_SUM \<Rightarrow> fin (DO_DT_REDUCE_WITH_OP (DO_OP_n (f_add fo)) (f_add fo) s)
         | UCC_OP_PROD \<Rightarrow> fin (DO_DT_REDUCE_WITH_OP (DO_OP_n (f_mul fo)) (f_mul fo) s)
         | _ \<Rightarrow> Inl UCC_ERR_NOT_SUPPORTED)"

text \<open>
  \<open>DO_DT_REDUCE_BFLOAT16\<close>: the elements are widened, reduced two at a time in single precision and narrowed once.
  \<open>widen\<close> and \<open>narrow\<close> are the conversions of \<open>ucc_math.h\<close> on the bits of a number.
\<close>

definition DO_DT_REDUCE_WITH_OP_BFLOAT16 ::
    "('b \<Rightarrow> 'a) \<Rightarrow> ('a \<Rightarrow> 'b) \<Rightarrow> ('a \<Rightarrow> 'a \<Rightarrow> 'a) \<Rightarrow> ('a \<Rightarrow> 'a) \<Rightarrow> 'b list \<Rightarrow> 'b option" where
  "DO_DT_REDUCE_WITH_OP_BFLOAT16 widen narrow f scale s =
     (case s of a # b # rest \<Rightarrow> Some (narrow (scale (foldl (\<lambda>tmp x. f tmp (widen x)) (f (widen a) (widen b)) rest))) | _ \<Rightarrow> None)"

definition DO_DT_REDUCE_BFLOAT16 ::
    "('b \<Rightarrow> 'a) \<Rightarrow> ('a \<Rightarrow> 'b) \<Rightarrow> 'a float_ops \<Rightarrow> ucc_reduction_op \<Rightarrow> bool \<Rightarrow> ('a \<Rightarrow> 'a) \<Rightarrow> 'b list \<Rightarrow> ucc_status + 'b option" where
  "DO_DT_REDUCE_BFLOAT16 widen narrow fo op with_alpha scale s =
     (let a = (if with_alpha then scale else (\<lambda>x. x))
      in case op of
           UCC_OP_AVG \<Rightarrow> Inr (DO_DT_REDUCE_WITH_OP_BFLOAT16 widen narrow (f_add fo) a s)
         | UCC_OP_SUM \<Rightarrow> Inr (DO_DT_REDUCE_WITH_OP_BFLOAT16 widen narrow (f_add fo) a s)
         | UCC_OP_PROD \<Rightarrow> Inr (DO_DT_REDUCE_WITH_OP_BFLOAT16 widen narrow (f_mul fo) a s)
         | UCC_OP_MIN \<Rightarrow> Inr (DO_DT_REDUCE_WITH_OP_BFLOAT16 widen narrow (f_min fo) a s)
         | UCC_OP_MAX \<Rightarrow> Inr (DO_DT_REDUCE_WITH_OP_BFLOAT16 widen narrow (f_max fo) a s)
         | _ \<Rightarrow> Inl UCC_ERR_NOT_SUPPORTED)"

text \<open>The floating-point arithmetic of an element type and, for 16-bit numbers, that of single precision with its scaling.\<close>

record 'a fp_arith =
  fp_ops :: "'a float_ops"
  fp_single :: "32 word float_ops"
  fp_single_scale :: "32 word \<Rightarrow> 32 word"

text \<open>
  The datatypes \<open>ucc_ec_cpu_reduce\<close> dispatches on; the widths of the C types are those the build checks for. 128-bit integers and
  16-bit IEEE floats are not supported.
\<close>

datatype ec_class = Ec_int nat bool | Ec_float nat | Ec_bfloat16 | Ec_complex nat

definition ec_cpu_class :: "ucc_datatype \<Rightarrow> ec_class option" where
  "ec_cpu_class dt =
     (case dt of
        DT_GENERIC _ _ _ _ \<Rightarrow> None
      | DT_PREDEFINED i \<Rightarrow>
          if i < 4 then Some (Ec_int (8 * 2 ^ i) True)
          else if 5 \<le> i \<and> i < 9 then Some (Ec_int (8 * 2 ^ (i - 5)) False)
          else if i = 11 then Some (Ec_float 32)
          else if i = 12 then Some (Ec_float 64)
          else if i = 14 then Some (Ec_float 128)
          else if i = 13 then Some Ec_bfloat16
          else if 15 \<le> i \<and> i < 18 then Some (Ec_complex (64 * 2 ^ (i - 15)))
          else None)"

text \<open>The loop over the elements: a status without a result, or the new content of the destination; no result when a source is missing.\<close>

definition ec_reduce_vec :: "('a list \<Rightarrow> ucc_status + 'a option) \<Rightarrow> nat \<Rightarrow> (nat \<Rightarrow> 'a) list \<Rightarrow> (nat \<Rightarrow> 'a) \<Rightarrow> (ucc_status \<times> (nat \<Rightarrow> 'a)) option" where
  "ec_reduce_vec el cnt srcs d =
     (case el (map (\<lambda>s. s 0) srcs) of
        Inl st \<Rightarrow> Some (st, d)
      | Inr _ \<Rightarrow>
          if \<forall>i\<in>{..<cnt}. el (map (\<lambda>s. s i) srcs) \<noteq> Inr None
          then Some (UCC_OK, \<lambda>i. if i < cnt then case el (map (\<lambda>s. s i) srcs) of Inr (Some x) \<Rightarrow> x | _ \<Rightarrow> d i else d i)
          else None)"

definition ucc_ec_cpu_reduce ::
    "'w::len word fp_arith \<Rightarrow> ucc_datatype \<Rightarrow> ucc_reduction_op \<Rightarrow> bool \<Rightarrow> ('w word \<Rightarrow> 'w word) \<Rightarrow> nat \<Rightarrow> (nat \<Rightarrow> 'w word) list \<Rightarrow> (nat \<Rightarrow> 'w word)
      \<Rightarrow> (ucc_status \<times> (nat \<Rightarrow> 'w word)) option" where
  "ucc_ec_cpu_reduce fp dt op with_alpha scale cnt srcs d =
     (case ec_cpu_class dt of
        Some (Ec_int w sg) \<Rightarrow>
          if w = LENGTH('w) then ec_reduce_vec (DO_DT_REDUCE_INT sg op with_alpha scale) cnt srcs d else None
      | Some (Ec_float w) \<Rightarrow>
          if w = LENGTH('w) then ec_reduce_vec (DO_DT_REDUCE_FLOAT (fp_ops fp) op with_alpha scale) cnt srcs d else None
      | Some Ec_bfloat16 \<Rightarrow>
          if LENGTH('w) = 16 then ec_reduce_vec (DO_DT_REDUCE_BFLOAT16 (\<lambda>x. bfloat16tofloat32 (ucast x)) (\<lambda>x. ucast (float32tobfloat16 x))
            (fp_single fp) op with_alpha (fp_single_scale fp)) cnt srcs d else None
      | Some (Ec_complex w) \<Rightarrow>
          if w = LENGTH('w) then ec_reduce_vec (DO_DT_REDUCE_FLOAT_COMPLEX (fp_ops fp) op with_alpha scale) cnt srcs d else None
      | None \<Rightarrow> Some (UCC_ERR_NOT_SUPPORTED, d))"

section \<open>The unrolled macros are folds\<close>

lemma list_upto_8:
  assumes "2 \<le> length s" "length s \<le> 8"
  shows "\<exists>a b t. s = a # b # t \<and> length t \<le> 6"
  using assms by (cases s; cases "tl s") auto

lemma short_list_cases:
  assumes "length s \<le> 6"
  obtains "s = []" | a where "s = [a]" | a b where "s = [a, b]" | a b c where "s = [a, b, c]" | a b c d where "s = [a, b, c, d]"
    | a b c d e where "s = [a, b, c, d, e]" | a b c d e g where "s = [a, b, c, d, e, g]"
proof -
  have "length s = 0 \<or> length s = 1 \<or> length s = 2 \<or> length s = 3 \<or> length s = 4 \<or> length s = 5 \<or> length s = 6" using assms by linarith
  then show thesis using that by (auto simp: length_Suc_conv numeral_eq_Suc)
qed

lemma DO_OP_n_foldl:
  assumes "2 \<le> length s" "length s \<le> 8"
  shows "DO_OP_n f s = Some (foldl f (hd s) (tl s))"
proof -
  obtain a b t where s: "s = a # b # t" "length t \<le> 6" using list_upto_8 [OF assms] by blast
  from s(2) show ?thesis unfolding s(1) by (cases rule: short_list_cases) simp_all
qed

lemma reduce_with_op_foldl:
  assumes "2 \<le> length s" and opn: "\<And>s. 2 \<le> length s \<Longrightarrow> length s \<le> 8 \<Longrightarrow> opn s = Some (foldl f (hd s) (tl s))"
  shows "DO_DT_REDUCE_WITH_OP opn f s = Some (foldl f (hd s) (tl s))"
proof (cases "length s \<le> 8")
  case False
  then have "opn (take 8 s) = Some (foldl f (hd s) (take 7 (tl s)))" using opn [of "take 8 s"] by (cases s) simp_all
  moreover have "foldl f (foldl f (hd s) (take 7 (tl s))) (drop 7 (tl s)) = foldl f (hd s) (tl s)" by (simp flip: foldl_append)
  moreover have "drop 8 s = drop 7 (tl s)" using False by (cases s) simp_all
  ultimately show ?thesis using False by (simp add: DO_DT_REDUCE_WITH_OP_def)
qed (use assms in \<open>simp add: DO_DT_REDUCE_WITH_OP_def\<close>)

text \<open>What the reductions of the collectives rely on.\<close>

locale reduction =
  fixes f :: "'a \<Rightarrow> 'a \<Rightarrow> 'a"
  assumes assoc: "f (f a b) c = f a (f b c)"
    and commute: "f a b = f b a"
begin

lemma DO_OP__n_foldl:
  assumes "2 \<le> length s" "length s \<le> 8"
  shows "DO_OP__n f s = Some (foldl f (hd s) (tl s))"
proof -
  obtain a b t where s: "s = a # b # t" "length t \<le> 6" using list_upto_8 [OF assms] by blast
  from s(2) show ?thesis unfolding s(1) by (cases rule: short_list_cases) (simp_all add: assoc)
qed

lemma foldl_shift: "f a (foldl f b xs) = foldl f (f a b) xs"
  by (induction xs arbitrary: b) (simp_all flip: assoc)

lemma left_commute: "f a (f b c) = f b (f a c)"
  by (metis assoc commute)

end

interpretation op_sum: reduction DO_OP_SUM
  by unfold_locales (simp_all add: DO_OP_SUM_def add.assoc add.commute)

interpretation op_prod: reduction DO_OP_PROD
  by unfold_locales (simp_all add: DO_OP_PROD_def mult.assoc mult.commute)

interpretation op_max: reduction "DO_OP_MAX sg" for sg
  by unfold_locales (auto simp: DO_OP_MAX_def int_less_def dest: signed_word_eqI)

interpretation op_min: reduction "DO_OP_MIN sg" for sg
  by unfold_locales (auto simp: DO_OP_MIN_def int_less_def dest: signed_word_eqI)

interpretation op_land: reduction DO_OP_LAND
  by unfold_locales (auto simp: DO_OP_LAND_def)

interpretation op_band: reduction DO_OP_BAND
  by unfold_locales (simp_all add: DO_OP_BAND_def ac_simps)

interpretation op_lor: reduction DO_OP_LOR
  by unfold_locales (auto simp: DO_OP_LOR_def)

interpretation op_bor: reduction DO_OP_BOR
  by unfold_locales (simp_all add: DO_OP_BOR_def ac_simps)

interpretation op_lxor: reduction DO_OP_LXOR
  by unfold_locales (auto simp: DO_OP_LXOR_def)

interpretation op_bxor: reduction DO_OP_BXOR
  by unfold_locales (simp_all add: DO_OP_BXOR_def ac_simps)

section \<open>Properties\<close>

text \<open>The reference: the two-place operation of an integer type.\<close>

definition int_op :: "bool \<Rightarrow> ucc_reduction_op \<Rightarrow> ('w::len word \<Rightarrow> 'w word \<Rightarrow> 'w word) option" where
  "int_op sg op =
     (case op of
        UCC_OP_SUM \<Rightarrow> Some (+) | UCC_OP_AVG \<Rightarrow> Some (+) | UCC_OP_PROD \<Rightarrow> Some (*)
      | UCC_OP_MAX \<Rightarrow> Some (DO_OP_MAX sg) | UCC_OP_MIN \<Rightarrow> Some (DO_OP_MIN sg)
      | UCC_OP_LAND \<Rightarrow> Some DO_OP_LAND | UCC_OP_LOR \<Rightarrow> Some DO_OP_LOR | UCC_OP_LXOR \<Rightarrow> Some DO_OP_LXOR
      | UCC_OP_BAND \<Rightarrow> Some (AND) | UCC_OP_BOR \<Rightarrow> Some (OR) | UCC_OP_BXOR \<Rightarrow> Some (XOR)
      | _ \<Rightarrow> None)"

lemma int_op_reduction: "int_op sg op = Some f \<Longrightarrow> reduction f"
  using op_sum.reduction_axioms op_prod.reduction_axioms op_max.reduction_axioms op_min.reduction_axioms op_land.reduction_axioms
    op_band.reduction_axioms op_lor.reduction_axioms op_bor.reduction_axioms op_lxor.reduction_axioms op_bxor.reduction_axioms
  unfolding DO_OP_SUM_def [abs_def] DO_OP_PROD_def [abs_def] DO_OP_BAND_def [abs_def] DO_OP_BOR_def [abs_def] DO_OP_BXOR_def [abs_def]
  by (cases op) (auto simp: int_op_def)

lemma reduce_int_fold:
  assumes "int_op sg op = Some f" "2 \<le> length s"
  shows "DO_DT_REDUCE_INT sg op with_alpha scale s =
    Inr (Some ((if with_alpha \<and> op \<in> {UCC_OP_SUM, UCC_OP_AVG} then scale else id) (foldl f (hd s) (tl s))))"
proof -
  note n = reduce_with_op_foldl [OF assms(2) DO_OP_n_foldl]
  note m = reduce_with_op_foldl [OF assms(2) op_max.DO_OP__n_foldl] reduce_with_op_foldl [OF assms(2) op_min.DO_OP__n_foldl]
    reduce_with_op_foldl [OF assms(2) op_lxor.DO_OP__n_foldl]
  show ?thesis
    using assms(1) by (cases op) (auto simp: n m DO_DT_REDUCE_INT_def int_op_def DO_OP_SUM_def [abs_def] DO_OP_PROD_def [abs_def]
      DO_OP_BAND_def [abs_def] DO_OP_BOR_def [abs_def] DO_OP_BXOR_def [abs_def])
qed

lemma reduce_int_unsupported: "int_op sg op = None \<Longrightarrow> DO_DT_REDUCE_INT sg op with_alpha scale s = Inl UCC_ERR_NOT_SUPPORTED"
  by (cases op) (simp_all add: DO_DT_REDUCE_INT_def int_op_def)

lemma ec_cpu_reduce_fold:
  fixes srcs :: "(nat \<Rightarrow> 'w::len word) list"
  assumes "ec_cpu_class dt = Some (Ec_int LENGTH('w) sg)" "2 \<le> length srcs"
  shows "ucc_ec_cpu_reduce fp dt op with_alpha scale cnt srcs d =
    (case int_op sg op of
       None \<Rightarrow> Some (UCC_ERR_NOT_SUPPORTED, d)
     | Some f \<Rightarrow> Some (UCC_OK, \<lambda>i. if i < cnt
         then (if with_alpha \<and> op \<in> {UCC_OP_SUM, UCC_OP_AVG} then scale else id) (foldl f (hd srcs i) (map (\<lambda>s. s i) (tl srcs))) else d i))"
proof (cases "int_op sg op :: ('w word \<Rightarrow> 'w word \<Rightarrow> 'w word) option")
  case None
  then show ?thesis using assms(1) by (simp add: ucc_ec_cpu_reduce_def ec_reduce_vec_def reduce_int_unsupported)
next
  case (Some f)
  have "hd (map (\<lambda>s. s i) srcs) = hd srcs i" for i using assms(2) by (cases srcs) simp_all
  then have "DO_DT_REDUCE_INT sg op with_alpha scale (map (\<lambda>s. s i) srcs) =
    Inr (Some ((if with_alpha \<and> op \<in> {UCC_OP_SUM, UCC_OP_AVG} then scale else id) (foldl f (hd srcs i) (map (\<lambda>s. s i) (tl srcs)))))" for i
    using reduce_int_fold [OF Some, of "map (\<lambda>s. s i) srcs" with_alpha scale] assms(2) by (simp add: map_tl)
  then show ?thesis using assms(1) Some by (simp add: ucc_ec_cpu_reduce_def ec_reduce_vec_def cong: if_cong)
qed

text \<open>
  C3: the CPU executor reduces any number of integer vectors, from two on, to the left fold of the operation at the width of the type,
  however the macros unroll it and whatever tree they build; an average is scaled when the flag is set, no other operation is; nothing past the
  count is written. An operation the type does not have is refused with the destination unchanged.
\<close>

theorem ec_cpu_reduce_is_fold:
  fixes srcs :: "(nat \<Rightarrow> 'w::len word) list"
  assumes "ec_cpu_class dt = Some (Ec_int LENGTH('w) sg)" "2 \<le> length srcs"
  shows "ucc_ec_cpu_reduce fp dt op with_alpha scale cnt srcs d =
    (case int_op sg op of
       None \<Rightarrow> Some (UCC_ERR_NOT_SUPPORTED, d)
     | Some f \<Rightarrow> Some (UCC_OK, \<lambda>i. if i < cnt
         then (if with_alpha \<and> op \<in> {UCC_OP_SUM, UCC_OP_AVG} then scale else id) (foldl f (hd srcs i) (map (\<lambda>s. s i) (tl srcs))) else d i))"
  by (rule ec_cpu_reduce_fold [OF assms])

definition fp0 :: "'w::len word fp_arith" where
  "fp0 = \<lparr>fp_ops = \<lparr>f_add = (\<lambda>x y. x), f_mul = (\<lambda>x y. x), f_min = (\<lambda>x y. x), f_max = (\<lambda>x y. x)\<rparr>,
     fp_single = \<lparr>f_add = (\<lambda>x y. x), f_mul = (\<lambda>x y. x), f_min = (\<lambda>x y. x), f_max = (\<lambda>x y. x)\<rparr>, fp_single_scale = id\<rparr>"

theorem ec_cpu_reduce_is_fold_witness:
  "ucc_ec_cpu_reduce fp0 (DT_PREDEFINED 0) UCC_OP_MAX False id 1 [\<lambda>_. 100, \<lambda>_. 200, \<lambda>_. 7 :: 8 word] (\<lambda>_. 0)
    = Some (UCC_OK, \<lambda>i. if i < 1 then 100 else 0)"
  using ec_cpu_reduce_is_fold [of "DT_PREDEFINED 0" True "[\<lambda>_. 100, \<lambda>_. 200, \<lambda>_. 7 :: 8 word]" fp0 UCC_OP_MAX False id 1 "\<lambda>_. 0"]
  by (simp add: ec_cpu_class_def int_op_def DO_OP_MAX_def int_less_def cong: if_cong)

end
