(* ===== verification/Dt_Reduce.thy ===== *)
theory Dt_Reduce
  imports Ec_Cpu Coll_Net "HOL-Library.Multiset"
begin

text \<open>
  Reduction of vectors in the memory of a rank, \<open>src/utils/ucc_dt_reduce.h\<close>. Addresses and sizes count elements of the datatype.
  The executor that runs the reduction is an argument, an \<open>exec\<close>; that of the CPU is \<open>cpu_exec\<close>.
\<close>

type_synonym ptr = "mbuf \<times> nat"

text \<open>Flag, first source, other sources, destination, number of other sources, count and stride; the status and the memory it leaves.\<close>

type_synonym 'a exec = "bool \<Rightarrow> ptr \<Rightarrow> ptr \<Rightarrow> ptr \<Rightarrow> nat \<Rightarrow> nat \<Rightarrow> nat \<Rightarrow> 'a mem \<Rightarrow> ucc_status \<times> 'a mem"

definition ucc_dt_reduce_strided ::
    "'a exec \<Rightarrow> bool \<Rightarrow> ptr \<Rightarrow> ptr \<Rightarrow> ptr \<Rightarrow> nat \<Rightarrow> nat \<Rightarrow> nat \<Rightarrow> 'a mem \<Rightarrow> ucc_status \<times> 'a mem" where
  "ucc_dt_reduce_strided exec with_alpha src1 src2 dst n_vectors cnt stride m =
     (if cnt = 0 \<or> n_vectors = 0 then (UCC_OK, m) else exec with_alpha src1 src2 dst n_vectors cnt stride m)"

definition ucc_dt_reduce :: "'a exec \<Rightarrow> bool \<Rightarrow> ptr \<Rightarrow> ptr \<Rightarrow> ptr \<Rightarrow> nat \<Rightarrow> 'a mem \<Rightarrow> ucc_status \<times> 'a mem" where
  "ucc_dt_reduce exec with_alpha src1 src2 dst cnt m = ucc_dt_reduce_strided exec with_alpha src1 src2 dst 1 cnt 0 m"

text \<open>The memory after the reduction of \<open>n\<close> vectors into a first one.\<close>

definition reduced_mem :: "('a \<Rightarrow> 'a \<Rightarrow> 'a) \<Rightarrow> ('a \<Rightarrow> 'a) \<Rightarrow> ptr \<Rightarrow> ptr \<Rightarrow> ptr \<Rightarrow> nat \<Rightarrow> nat \<Rightarrow> nat \<Rightarrow> 'a mem \<Rightarrow> 'a mem" where
  "reduced_mem f scale src1 src2 dst n cnt stride m =
     m(fst dst := \<lambda>a. if snd dst \<le> a \<and> a < snd dst + cnt
        then scale (foldl f (m (fst src1) (snd src1 + (a - snd dst)))
          (map (\<lambda>j. m (fst src2) (snd src2 + j * stride + (a - snd dst))) [0..<n]))
        else m (fst dst) a)"

text \<open>
  What a collective relies on: the executor computes the fold of \<open>f\<close>, scaled by \<open>scale\<close> when the flag is set.
\<close>

locale reduce_executor = reduction f for f :: "'a \<Rightarrow> 'a \<Rightarrow> 'a" +
  fixes exec :: "'a exec" and scale :: "'a \<Rightarrow> 'a"
  assumes exec_reduces: "0 < n \<Longrightarrow> n < 2 ^ 16 - 1 \<Longrightarrow>
    exec with_alpha src1 src2 dst n cnt stride m = (UCC_OK, reduced_mem f (if with_alpha then scale else id) src1 src2 dst n cnt stride m)"
begin

lemma reduce_strided:
  assumes "0 < n" "n < 2 ^ 16 - 1"
  shows "ucc_dt_reduce_strided exec with_alpha src1 src2 dst n cnt stride m =
    (UCC_OK, reduced_mem f (if with_alpha then scale else id) src1 src2 dst n cnt stride m)"
proof (cases "cnt = 0")
  case True
  then have "reduced_mem f (if with_alpha then scale else id) src1 src2 dst n cnt stride m = m" by (intro ext) (auto simp: reduced_mem_def)
  then show ?thesis using True by (simp add: ucc_dt_reduce_strided_def)
qed (use assms exec_reduces in \<open>simp add: ucc_dt_reduce_strided_def\<close>)

lemma reduce_one: "ucc_dt_reduce exec with_alpha src1 src2 dst cnt m =
    (UCC_OK, reduced_mem f (if with_alpha then scale else id) src1 src2 dst 1 cnt 0 m)"
  unfolding ucc_dt_reduce_def by (rule reduce_strided) simp_all

end

text \<open>
  \<open>ucc_cpu_executor_task_post\<close> of a strided reduction: the sources are laid out in an array and reduced. The number of sources
  is kept in 16 bits. A failed allocation of the task (\<open>alloc\<close>) posts nothing.
\<close>

definition ucc_cpu_executor_task_post_strided ::
    "bool \<Rightarrow> 'w::len word fp_arith \<Rightarrow> ucc_datatype \<Rightarrow> ucc_reduction_op \<Rightarrow> ('w word \<Rightarrow> 'w word) \<Rightarrow> bool \<Rightarrow> ptr \<Rightarrow> ptr \<Rightarrow> ptr \<Rightarrow> nat \<Rightarrow> nat \<Rightarrow> nat
      \<Rightarrow> 'w word mem \<Rightarrow> (ucc_status \<times> 'w word mem) option" where
  "ucc_cpu_executor_task_post_strided alloc fp dt op scale with_alpha src1 src2 dst n_src2 cnt stride m =
     (if \<not> alloc then Some (UCC_ERR_NO_MEMORY, m)
      else
        let n_srcs = u16 (n_src2 + 1);
            srcs = map (\<lambda>p a. m (fst p) (snd p + a)) (src1 # map (\<lambda>i. (fst src2, snd src2 + stride * i)) [0..<n_src2])
        in map_option (\<lambda>(st, d). (st, m(fst dst := \<lambda>a. if snd dst \<le> a then d (a - snd dst) else m (fst dst) a)))
             (ucc_ec_cpu_reduce fp dt op with_alpha scale cnt (take n_srcs srcs) (\<lambda>a. m (fst dst) (snd dst + a))))"

definition cpu_exec :: "'w::len word fp_arith \<Rightarrow> ucc_datatype \<Rightarrow> ucc_reduction_op \<Rightarrow> ('w word \<Rightarrow> 'w word) \<Rightarrow> 'w word exec" where
  "cpu_exec fp dt op scale with_alpha src1 src2 dst n_src2 cnt stride m =
     (case ucc_cpu_executor_task_post_strided True fp dt op scale with_alpha src1 src2 dst n_src2 cnt stride m of
        Some r \<Rightarrow> r | None \<Rightarrow> (UCC_ERR_LAST, m))"

lemma cpu_exec_reduces:
  fixes scale :: "'w::len word \<Rightarrow> 'w word"
  assumes "ec_cpu_class dt = Some (Ec_int LENGTH('w) sg)" "int_op sg op = Some f" "0 < n" "n < 2 ^ 16 - 1"
  shows "cpu_exec fp dt op scale with_alpha src1 src2 dst n cnt stride m =
    (UCC_OK, reduced_mem f (if with_alpha \<and> op \<in> {UCC_OP_SUM, UCC_OP_AVG} then scale else id) src1 src2 dst n cnt stride m)"
proof -
  let ?srcs = "map (\<lambda>p a. m (fst p) (snd p + a)) (src1 # map (\<lambda>i. (fst src2, snd src2 + stride * i)) [0..<n])"
  have u: "take (u16 (n + 1)) ?srcs = ?srcs" using assms(4) by (intro take_all) (simp add: u16_id)
  have "ucc_ec_cpu_reduce fp dt op with_alpha scale cnt ?srcs d = Some (UCC_OK, \<lambda>i. if i < cnt
      then (if with_alpha \<and> op \<in> {UCC_OP_SUM, UCC_OP_AVG} then scale else id) (foldl f (hd ?srcs i) (map (\<lambda>s. s i) (tl ?srcs))) else d i)" for d
    using ec_cpu_reduce_fold [OF assms(1), of ?srcs fp op with_alpha scale cnt d] assms(2,3) by simp
  then show ?thesis
    unfolding cpu_exec_def ucc_cpu_executor_task_post_strided_def Let_def u
    by (auto simp: reduced_mem_def fun_eq_iff o_def mult.commute)
qed

lemma cpu_reduce_executor:
  fixes scale :: "'w::len word \<Rightarrow> 'w word"
  assumes "ec_cpu_class dt = Some (Ec_int LENGTH('w) sg)" "int_op sg op = Some f"
  shows "reduce_executor f (cpu_exec fp dt op scale) (if op \<in> {UCC_OP_SUM, UCC_OP_AVG} then scale else id)"
proof (intro reduce_executor.intro reduce_executor_axioms.intro)
  show "reduction f" using assms(2) by (rule int_op_reduction)
next
  fix n :: nat and with_alpha src1 src2 dst cnt stride and m :: "'w word mem"
  assume "0 < n" "n < 2 ^ 16 - 1"
  from cpu_exec_reduces [OF assms this, of fp scale with_alpha src1 src2 dst cnt stride m]
  show "cpu_exec fp dt op scale with_alpha src1 src2 dst n cnt stride m = (UCC_OK,
      reduced_mem f (if with_alpha then if op \<in> {UCC_OP_SUM, UCC_OP_AVG} then scale else id else id) src1 src2 dst n cnt stride m)"
    by (cases with_alpha; cases "op \<in> {UCC_OP_SUM, UCC_OP_AVG}") simp_all
qed

text \<open>Sums and averages of 32-bit integers.\<close>

interpretation cpu_sum32: reduce_executor "(+) :: 32 word \<Rightarrow> 32 word \<Rightarrow> 32 word" "cpu_exec fp (DT_PREDEFINED 2) UCC_OP_AVG scale" scale for fp scale
  using cpu_reduce_executor [of "DT_PREDEFINED 2" True UCC_OP_AVG "(+)" fp scale] by (simp add: ec_cpu_class_def int_op_def)

section \<open>The reduction of many contributions\<close>

text \<open>The reduction of the contributions \<open>c v\<close> to \<open>c (u - 1)\<close> in their order, and that of a multiset of values.\<close>

definition reduce_range :: "('a \<Rightarrow> 'a \<Rightarrow> 'a) \<Rightarrow> (nat \<Rightarrow> 'a) \<Rightarrow> nat \<Rightarrow> nat \<Rightarrow> 'a" where
  "reduce_range f c v u = foldl f (c v) (map c [Suc v..<u])"

definition reduce_mset :: "('a \<Rightarrow> 'a \<Rightarrow> 'a) \<Rightarrow> 'a multiset \<Rightarrow> 'a" where
  "reduce_mset f M = the (fold_mset (\<lambda>x acc. Some (case acc of None \<Rightarrow> x | Some y \<Rightarrow> f x y)) None M)"

lemma gain_fold:
  assumes "\<And>x y. g (f x y) = f (g x) (g y)"
  shows "foldl f (g x) (map (\<lambda>j. g (h j)) js) = g (foldl f x (map h js))"
  using assms by (induction js arbitrary: x) (simp_all, metis)

context reduction
begin

lemma fold_mset_some:
  "fold_mset (\<lambda>x acc. Some (case acc of None \<Rightarrow> x | Some y \<Rightarrow> f x y)) None M = (if M = {#} then None else Some (reduce_mset f M))"
  "fold_mset (\<lambda>x acc. Some (case acc of None \<Rightarrow> x | Some y \<Rightarrow> f x y)) None (add_mset x M) =
    Some (case fold_mset (\<lambda>x acc. Some (case acc of None \<Rightarrow> x | Some y \<Rightarrow> f x y)) None M of None \<Rightarrow> x | Some y \<Rightarrow> f x y)" for M x
proof -
  have "comp_fun_commute (\<lambda>x acc. Some (case acc of None \<Rightarrow> x | Some y \<Rightarrow> f x y))"
    by standard (auto simp: fun_eq_iff commute left_commute split: option.splits)
  note add = comp_fun_commute.fold_mset_add_mset [OF this]
  show "fold_mset (\<lambda>x acc. Some (case acc of None \<Rightarrow> x | Some y \<Rightarrow> f x y)) None (add_mset x M) =
    Some (case fold_mset (\<lambda>x acc. Some (case acc of None \<Rightarrow> x | Some y \<Rightarrow> f x y)) None M of None \<Rightarrow> x | Some y \<Rightarrow> f x y)" for M x by (rule add)
  show "fold_mset (\<lambda>x acc. Some (case acc of None \<Rightarrow> x | Some y \<Rightarrow> f x y)) None M = (if M = {#} then None else Some (reduce_mset f M))"
    by (cases M) (simp_all add: reduce_mset_def add)
qed

lemma reduce_mset_add: "reduce_mset f (add_mset x M) = (if M = {#} then x else f x (reduce_mset f M))"
  unfolding reduce_mset_def [of f "add_mset x M"] fold_mset_some(2) by (simp add: fold_mset_some(1))

lemma reduce_mset_union: "A \<noteq> {#} \<Longrightarrow> B \<noteq> {#} \<Longrightarrow> reduce_mset f (A + B) = f (reduce_mset f A) (reduce_mset f B)"
  by (induction A) (auto simp: reduce_mset_add assoc)

lemma foldl_reduce_mset: "foldl f x xs = reduce_mset f (mset (x # xs))"
proof (induction xs arbitrary: x)
  case (Cons y xs)
  have "foldl f x (y # xs) = reduce_mset f (mset (f x y # xs))" using Cons by simp
  also have "\<dots> = reduce_mset f (mset (x # y # xs))" by (simp add: reduce_mset_add assoc)
  finally show ?case .
qed (simp add: reduce_mset_add)

lemma foldl_parts:
  assumes "A \<noteq> {#}" "\<And>x. x \<in> set xs \<Longrightarrow> B x \<noteq> {#}"
  shows "foldl f (reduce_mset f A) (map (\<lambda>x. reduce_mset f (B x)) xs) = reduce_mset f (A + (\<Sum>x\<leftarrow>xs. B x))"
  using assms
proof (induction xs arbitrary: A)
  case (Cons x xs)
  have "foldl f (reduce_mset f A) (map (\<lambda>x. reduce_mset f (B x)) (x # xs)) = foldl f (reduce_mset f (A + B x)) (map (\<lambda>x. reduce_mset f (B x)) xs)"
    using Cons.prems by (simp add: reduce_mset_union)
  also have "\<dots> = reduce_mset f (A + (\<Sum>x\<leftarrow>x # xs. B x))" using Cons.IH [of "A + B x"] Cons.prems by (simp add: add.assoc)
  finally show ?case .
qed simp

lemma reduce_range_mset: "0 < n \<Longrightarrow> reduce_range f c 0 n = reduce_mset f (image_mset c (mset [0..<n]))"
proof -
  assume "0 < n"
  then have "c 0 # map c [Suc 0..<n] = map c [0..<n]" by (simp add: upt_conv_Cons)
  then show ?thesis unfolding reduce_range_def foldl_reduce_mset by simp
qed

end

end
