(* ===== verification/Reduce_Knomial.thy ===== *)
theory Reduce_Knomial
  imports Kn_Tree Dt_Reduce
begin

text \<open>
  Reduction over a knomial tree, \<open>src/components/tl/ucp/reduce/reduce.c\<close> and \<open>reduce_knomial.c\<close>: level by level, from distance 1 up, a rank
  receives the partial results of its children into its scratch buffer and reduces them into its own, or sends its own to its parent.
  Addresses and sizes count elements; a reduction is complete when the executor returns, no operation is outstanding meanwhile.
\<close>

section \<open>Definitions\<close>

datatype reduce_kn_phase = UCC_REDUCE_KN_PHASE_INIT | UCC_REDUCE_KN_PHASE_PROGRESS | UCC_REDUCE_KN_PHASE_MULTI

text \<open>The fields \<open>reduce_kn\<close> of the task that change, and what the call and the configuration fix.\<close>

record reduce_kn =
  rk_dist :: ucc_rank
  rk_children :: nat
  rk_phase :: reduce_kn_phase

record reduce_args =
  ra_root :: ucc_rank
  ra_inplace :: bool
  ra_avg :: bool
  ra_avg_pre_op :: bool
  ra_count :: nat
  ra_radix :: nat
  ra_max_dist :: ucc_rank










section \<open>Reductions of ranges\<close>



section \<open>The ideal execution\<close>

text \<open>
  \<open>rd_val\<close> is the value of position \<open>v\<close> after the levels below \<open>k\<close>: the reduction of the contributions of its subtree, in the
  order of the positions, scaled once the average has been taken.
\<close>

definition reduce_ok :: "reduce_args \<Rightarrow> nat \<Rightarrow> bool" where
  "reduce_ok a n \<longleftrightarrow> tree_ok (ra_radix a) n \<and> 2 \<le> n \<and> ra_radix a < 2 ^ 16 \<and> ra_root a < n
     \<and> ra_max_dist a = ra_radix a ^ kn_depth (ra_radix a) n"

definition rd_pos :: "reduce_args \<Rightarrow> nat \<Rightarrow> ucc_rank \<Rightarrow> nat" where
  "rd_pos a n r = ring_back n r (ra_root a)"




definition rd_parent :: "reduce_args \<Rightarrow> nat \<Rightarrow> ucc_rank \<Rightarrow> nat \<Rightarrow> bool" where
  "rd_parent a n r k \<longleftrightarrow> rd_pos a n r mod ra_radix a ^ Suc k = 0"

definition rd_peers :: "reduce_args \<Rightarrow> nat \<Rightarrow> ucc_rank \<Rightarrow> nat \<Rightarrow> nat list" where
  "rd_peers a n r k = takeWhile (\<lambda>i. rd_pos a n r + i * ra_radix a ^ k < n) [1..<ra_radix a]"








primrec rd_x :: "reduce_args \<Rightarrow> nat \<Rightarrow> ucc_rank \<Rightarrow> nat \<Rightarrow> reduce_kn" where
  "rd_x a n r 0 = \<lparr>rk_dist = 1, rk_children = 0, rk_phase = UCC_REDUCE_KN_PHASE_INIT\<rparr>"
| "rd_x a n r (Suc k) =
     (if rd_parent a n r k then \<lparr>rk_dist = ra_radix a ^ k, rk_children = length (rd_peers a n r k), rk_phase = UCC_REDUCE_KN_PHASE_MULTI\<rparr>
      else (rd_x a n r k)\<lparr>rk_dist := ra_radix a ^ Suc k, rk_phase := UCC_REDUCE_KN_PHASE_INIT\<rparr>)"









lemma rd_x_at:
  assumes "reduce_ok a n"
  shows "rd_x a n r k = (if k \<noteq> 0 \<and> rd_parent a n r (k - 1)
    then \<lparr>rk_dist = ra_radix a ^ (k - 1), rk_children = length (rd_peers a n r (k - 1)), rk_phase = UCC_REDUCE_KN_PHASE_MULTI\<rparr>
    else \<lparr>rk_dist = ra_radix a ^ k, rk_children = rk_children (rd_x a n r k), rk_phase = UCC_REDUCE_KN_PHASE_INIT\<rparr>)"
  by (cases k) simp_all




section \<open>The values\<close>












section \<open>The system of ranks\<close>













section \<open>Correctness\<close>





end
