(* ===== verification/Allreduce_Knomial.thy ===== *)
theory Allreduce_Knomial
  imports Knomial Dt_Reduce Team_Ranks
begin

text \<open>
  Allreduce over the recursive knomial pattern, \<open>src/components/tl/ucp/allreduce/allreduce_knomial.c\<close>: an extra rank sends its vector
  to its proxy and waits for the result; the other ranks exchange partial results with the peers of each iteration
  and reduce them. Addresses and sizes count elements; a reduction is complete when the executor returns.
\<close>

section \<open>Definitions\<close>


record allreduce_args =
  aa_inplace :: bool
  aa_avg :: bool
  aa_avg_pre_op :: bool
  aa_count :: nat

definition allreduce_kn_sbuf :: "allreduce_args \<Rightarrow> mbuf" where
  "allreduce_kn_sbuf a = (if aa_inplace a then Dst_buf else Src_buf)"






text \<open>The size of the scratch buffer \<open>ucc_tl_ucp_allreduce_knomial_init_common\<close> allocates.\<close>

definition ucc_tl_ucp_allreduce_knomial_scratch :: "nat \<Rightarrow> ucc_ep_map \<Rightarrow> allreduce_args \<Rightarrow> nat" where
  "ucc_tl_ucp_allreduce_knomial_scratch cfg_radix emap a = (min cfg_radix (u32 (ep_num emap)) - 1) * aa_count a"

section \<open>Peers\<close>


definition ar_proxy :: "ucc_knomial_pattern \<Rightarrow> ucc_rank \<Rightarrow> bool" where
  "ar_proxy p q \<longleftrightarrow> q < 2 * kp_n_extra p \<and> even q"

definition ar_peers :: "ucc_knomial_pattern \<Rightarrow> nat \<Rightarrow> ucc_rank \<Rightarrow> ucc_rank list" where
  "ar_peers p i q = filter (\<lambda>peer. peer \<noteq> UCC_KN_PEER_NULL) (map (ucc_knomial_pattern_get_loop_peer (kn_at p i) q) (rev [1..<kp_radix p]))"



















section \<open>Values and memory\<close>




definition ar_buf :: "allreduce_args \<Rightarrow> ucc_knomial_pattern \<Rightarrow> nat \<Rightarrow> ucc_rank \<Rightarrow> mbuf" where
  "ar_buf a p i q = (if i = 0 \<and> \<not> ar_proxy p q then allreduce_kn_sbuf a else Dst_buf)"








section \<open>Blocks\<close>


definition ar_loop_ops :: "allreduce_args \<Rightarrow> ucc_ep_map \<Rightarrow> ucc_knomial_pattern \<Rightarrow> nat \<Rightarrow> ucc_rank \<Rightarrow> xfer list" where
  "ar_loop_ops a emap p i q =
     map (\<lambda>x. Xsend (ep_eval emap x) (ar_buf a p i q, 0, aa_count a)) (rev (ar_peers p i q))
     @ map (\<lambda>(j, x). Xrecv (ep_eval emap x) (Scratch_buf, j * aa_count a, aa_count a)) (enumerate 0 (ar_peers p i q))"

lemma kn_at_node [simp]: "kp_node_type (kn_at p i) = kp_node_type p"
  by (induction i) (simp_all add: kn_at_def ucc_knomial_pattern_next_iteration_def)











section \<open>The ideal execution\<close>









lemma count_loop_ops [simp]:
  "count_sends (ar_loop_ops a emap p i q) = length (ar_peers p i q)" "count_recvs (ar_loop_ops a emap p i q) = length (ar_peers p i q)"
proof -
  have "count_sends (map (\<lambda>x. Xsend (F x) (G x)) xs) = length xs" "count_recvs (map (\<lambda>x. Xsend (F x) (G x)) xs) = 0"
    "count_sends (map (\<lambda>(j, x). Xrecv (F x) (H j)) ys) = 0" "count_recvs (map (\<lambda>(j, x). Xrecv (F x) (H j)) ys) = length ys"
    for F G H and xs :: "nat list" and ys :: "(nat \<times> nat) list"
    by (induction xs; simp)+ (induction ys; auto)+
  then show "count_sends (ar_loop_ops a emap p i q) = length (ar_peers p i q)" "count_recvs (ar_loop_ops a emap p i q) = length (ar_peers p i q)"
    by (simp_all add: ar_loop_ops_def)
qed








section \<open>Messages\<close>



























section \<open>The system of ranks\<close>








section \<open>Correctness\<close>





end
