(* ===== verification/Tl_Self.thy ===== *)
theory Tl_Self
  imports Coll_Types
begin

text \<open>
  The transport layer for teams of one rank, \<open>src/components/tl/self/tl_self_coll.c\<close>: every collective is a copy from the source
  to the destination or nothing at all. The executor that runs the copy is an argument; its state \<open>'x\<close> holds the memory.
  Memory is addressed in bytes. A null displacement array is the empty list.
\<close>

section \<open>Definitions\<close>

datatype self_post = Ucc_dummy_post | Ucc_tl_self_coll_start | Ucc_tl_self_copy_start

datatype self_progress = Ucc_dummy_progress | Ucc_tl_self_noop_progress | Ucc_tl_self_copy_progress

record 'e ucc_tl_self_task =
  ts_args :: ucc_coll_args
  ts_rank :: ucc_rank
  ts_status :: ucc_status
  ts_post :: self_post
  ts_progress :: self_progress
  ts_executor :: bool
  ts_src :: nat
  ts_dst :: nat
  ts_size :: nat
  ts_src_memtype :: ucc_memory_type
  ts_dst_memtype :: ucc_memory_type
  ts_etask :: "'e option"

text \<open>
  The pool of task objects is the number of objects handed out; \<open>avail\<close> tells whether \<open>ucc_mpool_get\<close> finds one. Fields the pool
  hands out undefined are set by the init functions before they are read; the model gives them the value of the arguments.
  \<open>ucc_coll_task_init\<close> installs dummy functions. Every init function that succeeds replaces them (\<open>self_select_installs\<close>),
  so that the dummy progress function, an assertion, is never called.
\<close>

definition ucc_tl_self_coll_init_task ::
    "bool \<Rightarrow> ucc_coll_args \<Rightarrow> ucc_rank \<Rightarrow> nat \<Rightarrow> 'e ucc_tl_self_task option \<times> nat" where
  "ucc_tl_self_coll_init_task avail args rank used =
     (if avail
      then (Some \<lparr>ts_args = args, ts_rank = rank, ts_status = UCC_OPERATION_INITIALIZED, ts_post = Ucc_dummy_post,
                  ts_progress = Ucc_dummy_progress, ts_executor = False, ts_src = 0, ts_dst = 0, ts_size = 0,
                  ts_src_memtype = mem_type (info (args_src args)), ts_dst_memtype = mem_type (info (args_dst args)),
                  ts_etask = None\<rparr>, Suc used)
      else (None, used))"

definition ucc_tl_self_put_task :: "nat \<Rightarrow> nat" where
  "ucc_tl_self_put_task used = used - 1"

definition ucc_tl_self_coll_finalize :: "nat \<Rightarrow> ucc_status \<times> nat" where
  "ucc_tl_self_coll_finalize used = (UCC_OK, ucc_tl_self_put_task used)"

definition ucc_tl_self_coll_noop_init :: "'e ucc_tl_self_task \<Rightarrow> ucc_status \<times> 'e ucc_tl_self_task" where
  "ucc_tl_self_coll_noop_init task =
     (UCC_OK, task\<lparr>ts_post := Ucc_tl_self_coll_start, ts_progress := Ucc_tl_self_noop_progress\<rparr>)"

definition self_in_place :: "'e ucc_tl_self_task \<Rightarrow> 'e ucc_tl_self_task" where
  "self_in_place task = task\<lparr>ts_post := Ucc_tl_self_coll_start, ts_progress := Ucc_tl_self_noop_progress\<rparr>"

text \<open>The assignments of the copy branch, after source, destination and size have been computed.\<close>

definition self_copy ::
    "nat \<Rightarrow> nat \<Rightarrow> nat \<Rightarrow> ucc_memory_type \<Rightarrow> ucc_memory_type \<Rightarrow> 'e ucc_tl_self_task \<Rightarrow> 'e ucc_tl_self_task" where
  "self_copy dst src len dmt smt task =
     task\<lparr>ts_dst := dst, ts_src := src, ts_size := len, ts_dst_memtype := dmt, ts_src_memtype := smt,
          ts_post := Ucc_tl_self_copy_start, ts_progress := Ucc_tl_self_copy_progress, ts_executor := True\<rparr>"

text \<open>
  The guard all init functions open with. \<open>ucc_coll_args_is_predefined_dt\<close> is \<open>-1\<close>, hence true, for an unknown type.
  \<open>None\<close> is a read outside the arrays of the caller.
\<close>

definition self_init ::
    "('e ucc_tl_self_task \<Rightarrow> 'e ucc_tl_self_task option) \<Rightarrow> 'e ucc_tl_self_task \<Rightarrow> (ucc_status \<times> 'e ucc_tl_self_task) option" where
  "self_init copy task =
     (if ucc_coll_args_is_predefined_dt (ts_args task) (ts_rank task) = Some False then Some (UCC_ERR_NOT_SUPPORTED, task)
      else if UCC_IS_INPLACE (ts_args task) then Some (UCC_OK, self_in_place task)
      else map_option (\<lambda>t. (UCC_OK, t)) (copy task))"

definition ucc_tl_self_coll_copy_init :: "'e ucc_tl_self_task \<Rightarrow> (ucc_status \<times> 'e ucc_tl_self_task) option" where
  "ucc_tl_self_coll_copy_init =
     self_init (\<lambda>task.
       let s = info (args_src (ts_args task)); d = info (args_dst (ts_args task))
       in Some (self_copy (buffer_addr d) (buffer_addr s) (u64 (buf_count s * ucc_dt_size (datatype_of s)))
                  (mem_type d) (mem_type s) task))"

definition ucc_tl_self_alltoallv_init :: "'e ucc_tl_self_task \<Rightarrow> (ucc_status \<times> 'e ucc_tl_self_task) option" where
  "ucc_tl_self_alltoallv_init =
     self_init (\<lambda>task.
       let args = ts_args task; s = info_v (args_src args); d = info_v (args_dst args)
       in case (ucc_coll_args_get_displacement args (displacements_v d) 0,
                ucc_coll_args_get_displacement args (displacements_v s) 0,
                ucc_coll_args_get_count args (counts_v s) 0) of
            (Some dd, Some sd, Some c) \<Rightarrow>
              Some (self_copy (buffer_v d + dd) (buffer_v s + sd) (u64 (c * ucc_dt_size (datatype_v s)))
                      (mem_type_v d) (mem_type_v s) task)
          | _ \<Rightarrow> None)"

definition ucc_tl_self_coll_copyv_init :: "'e ucc_tl_self_task \<Rightarrow> (ucc_status \<times> 'e ucc_tl_self_task) option" where
  "ucc_tl_self_coll_copyv_init =
     self_init (\<lambda>task.
       let args = ts_args task; s = info (args_src args); d = info_v (args_dst args)
       in case (if displacements_v d = [] then Some 0 else ucc_coll_args_get_displacement args (displacements_v d) 0) of
            Some displ \<Rightarrow>
              Some (self_copy (buffer_v d + displ) (buffer_addr s) (u64 (buf_count s * ucc_dt_size (datatype_of s)))
                      (mem_type_v d) (mem_type s) task)
          | None \<Rightarrow> None)"

definition ucc_tl_self_scatterv_init :: "'e ucc_tl_self_task \<Rightarrow> (ucc_status \<times> 'e ucc_tl_self_task) option" where
  "ucc_tl_self_scatterv_init =
     self_init (\<lambda>task.
       let args = ts_args task; s = info_v (args_src args); d = info (args_dst args)
       in case ucc_coll_args_get_displacement args (displacements_v s) 0 of
            Some displ \<Rightarrow>
              Some (self_copy (buffer_addr d) (buffer_v s + displ) (u64 (buf_count d * ucc_dt_size (datatype_of d)))
                      (mem_type d) (mem_type_v s) task)
          | None \<Rightarrow> None)"

definition self_select :: "'e ucc_tl_self_task \<Rightarrow> (ucc_status \<times> 'e ucc_tl_self_task) option" where
  "self_select task =
     (let ct = coll_type (ts_args task)
      in if ct \<in> {UCC_COLL_TYPE_BARRIER, UCC_COLL_TYPE_BCAST, UCC_COLL_TYPE_FANIN, UCC_COLL_TYPE_FANOUT}
         then Some (ucc_tl_self_coll_noop_init task)
         else if ct \<in> {UCC_COLL_TYPE_REDUCE, UCC_COLL_TYPE_GATHER, UCC_COLL_TYPE_ALLTOALL, UCC_COLL_TYPE_ALLREDUCE,
                       UCC_COLL_TYPE_ALLGATHER, UCC_COLL_TYPE_REDUCE_SCATTER}
         then ucc_tl_self_coll_copy_init task
         else if ct \<in> {UCC_COLL_TYPE_GATHERV, UCC_COLL_TYPE_ALLGATHERV, UCC_COLL_TYPE_REDUCE_SCATTERV}
         then ucc_tl_self_coll_copyv_init task
         else if ct = UCC_COLL_TYPE_ALLTOALLV then ucc_tl_self_alltoallv_init task
         else if ct = UCC_COLL_TYPE_SCATTERV then ucc_tl_self_scatterv_init task
         else Some (UCC_ERR_NOT_SUPPORTED, task))"

definition ucc_tl_self_coll_init ::
    "bool \<Rightarrow> ucc_coll_args \<Rightarrow> ucc_rank \<Rightarrow> nat \<Rightarrow> (ucc_status \<times> 'e ucc_tl_self_task option \<times> nat) option" where
  "ucc_tl_self_coll_init avail args rank used =
     (case ucc_tl_self_coll_init_task avail args rank used of
        (None, used1) \<Rightarrow> Some (UCC_ERR_NO_MEMORY, None, used1)
      | (Some task, used1) \<Rightarrow>
          map_option (\<lambda>(status, t). if status \<noteq> UCC_OK then (status, None, ucc_tl_self_put_task used1)
                                    else (status, Some t, used1))
            (self_select task))"

text \<open>The executor's interface: posting a copy and testing a posted one.\<close>

record ('e, 'x) copy_ops =
  xo_post :: "nat \<Rightarrow> nat \<Rightarrow> nat \<Rightarrow> 'x \<Rightarrow> ucc_status \<times> 'e option \<times> 'x"
  xo_test :: "'e \<Rightarrow> 'x \<Rightarrow> ucc_status \<times> 'x"
  xo_finalize :: "'e \<Rightarrow> 'x \<Rightarrow> 'x"

definition ucc_tl_self_noop_progress :: "'e ucc_tl_self_task \<Rightarrow> 'e ucc_tl_self_task" where
  "ucc_tl_self_noop_progress task = task\<lparr>ts_status := UCC_OK\<rparr>"

definition ucc_tl_self_copy_progress ::
    "('e, 'x) copy_ops \<Rightarrow> 'e ucc_tl_self_task \<Rightarrow> 'x \<Rightarrow> 'e ucc_tl_self_task \<times> 'x" where
  "ucc_tl_self_copy_progress ops task x =
     (case ts_etask task of
        None \<Rightarrow> (task, x)
      | Some e \<Rightarrow>
          (case xo_test ops e x of
             (status, x1) \<Rightarrow>
               if status = UCC_OPERATION_INITIALIZED \<or> status = UCC_INPROGRESS
               then (task\<lparr>ts_status := UCC_INPROGRESS\<rparr>, x1)
               else (task\<lparr>ts_etask := None, ts_status := status\<rparr>, xo_finalize ops e x1)))"

text \<open>The indirect call \<open>task->progress(task)\<close>, and that of \<open>ucc_progress_queue_enqueue\<close>, whose first act it is.\<close>

definition self_progress_call ::
    "('e, 'x) copy_ops \<Rightarrow> 'e ucc_tl_self_task \<Rightarrow> 'x \<Rightarrow> 'e ucc_tl_self_task \<times> 'x" where
  "self_progress_call ops task x =
     (case ts_progress task of
        Ucc_dummy_progress \<Rightarrow> (task, x)
      | Ucc_tl_self_noop_progress \<Rightarrow> (ucc_tl_self_noop_progress task, x)
      | Ucc_tl_self_copy_progress \<Rightarrow> ucc_tl_self_copy_progress ops task x)"

definition ucc_tl_self_copy_start ::
    "('e, 'x) copy_ops \<Rightarrow> ucc_status \<Rightarrow> 'e ucc_tl_self_task \<Rightarrow> 'x \<Rightarrow> ucc_status \<times> 'e ucc_tl_self_task \<times> 'x" where
  "ucc_tl_self_copy_start ops got task x =
     (if got \<noteq> UCC_OK then (got, task, x)
      else case xo_post ops (ts_dst task) (ts_src task) (ts_size task) x of
             (status, e, x1) \<Rightarrow>
               if status \<noteq> UCC_OK then (status, task\<lparr>ts_etask := e, ts_status := status\<rparr>, x1)
               else (UCC_OK, self_progress_call ops (task\<lparr>ts_etask := e\<rparr>) x1))"

definition ucc_tl_self_coll_start ::
    "('e, 'x) copy_ops \<Rightarrow> 'e ucc_tl_self_task \<Rightarrow> 'x \<Rightarrow> ucc_status \<times> 'e ucc_tl_self_task \<times> 'x" where
  "ucc_tl_self_coll_start ops task x = (UCC_OK, self_progress_call ops task x)"

definition self_post_call ::
    "('e, 'x) copy_ops \<Rightarrow> ucc_status \<Rightarrow> 'e ucc_tl_self_task \<Rightarrow> 'x \<Rightarrow> ucc_status \<times> 'e ucc_tl_self_task \<times> 'x" where
  "self_post_call ops got task x =
     (case ts_post task of
        Ucc_dummy_post \<Rightarrow> (UCC_OK, task\<lparr>ts_status := UCC_OK\<rparr>, x)
      | Ucc_tl_self_coll_start \<Rightarrow> ucc_tl_self_coll_start ops task x
      | Ucc_tl_self_copy_start \<Rightarrow> ucc_tl_self_copy_start ops got task x)"

text \<open>The polls of the progress engine: a task is polled as long as it is in progress. \<open>None\<close> is \<open>n\<close> polls that are not enough.\<close>

fun self_polls :: "('e, 'x) copy_ops \<Rightarrow> nat \<Rightarrow> 'e ucc_tl_self_task \<Rightarrow> 'x \<Rightarrow> (ucc_status \<times> 'e ucc_tl_self_task \<times> 'x) option" where
  "self_polls ops n task x =
     (if ts_status task \<noteq> UCC_INPROGRESS then Some (ts_status task, task, x)
      else case n of
             0 \<Rightarrow> None
           | Suc m \<Rightarrow> (case self_progress_call ops task x of (t, x1) \<Rightarrow> self_polls ops m t x1))"

declare self_polls.simps [simp del] ucc_coll_args_is_predefined_dt.simps [simp del]

section \<open>The executor of the CPU\<close>

text \<open>\<open>memcpy\<close> on ranges that do not overlap.\<close>

definition memcpy :: "(nat \<Rightarrow> nat) \<Rightarrow> nat \<Rightarrow> nat \<Rightarrow> nat \<Rightarrow> nat \<Rightarrow> nat" where
  "memcpy m dst src len = (\<lambda>a. if dst \<le> a \<and> a < dst + len then m (src + (a - dst)) else m a)"

definition ranges_apart :: "nat \<Rightarrow> nat \<Rightarrow> nat \<Rightarrow> bool" where
  "ranges_apart dst src len \<longleftrightarrow> dst + len \<le> src \<or> src + len \<le> dst"

text \<open>
  \<open>ucc_cpu_executor_task_post\<close> of a copy, \<open>ucc_cpu_executor_task_test\<close> and \<open>ucc_cpu_executor_task_finalize\<close>. A task of the executor
  is its status; the state is the memory and the number of tasks taken from the pool, which has \<open>cap\<close> of them.
\<close>

definition ucc_cpu_executor_task_post_copy ::
    "nat \<Rightarrow> nat \<Rightarrow> nat \<Rightarrow> nat \<Rightarrow> (nat \<Rightarrow> nat) \<times> nat \<Rightarrow> ucc_status \<times> ucc_status option \<times> (nat \<Rightarrow> nat) \<times> nat" where
  "ucc_cpu_executor_task_post_copy cap dst src len x =
     (if snd x < cap then (UCC_OK, Some UCC_OK, memcpy (fst x) dst src len, Suc (snd x))
      else (UCC_ERR_NO_MEMORY, None, x))"

definition cpu_copy_ops :: "nat \<Rightarrow> (ucc_status, (nat \<Rightarrow> nat) \<times> nat) copy_ops" where
  "cpu_copy_ops cap =
     \<lparr>xo_post = ucc_cpu_executor_task_post_copy cap, xo_test = (\<lambda>e x. (e, x)), xo_finalize = (\<lambda>e x. (fst x, snd x - 1))\<rparr>"

text \<open>After \<open>k\<close> tests that answer in progress, the next answers success and the memory is \<open>m\<close>.\<close>

fun settles :: "('e, 'x) copy_ops \<Rightarrow> ('x \<Rightarrow> nat \<Rightarrow> nat) \<Rightarrow> 'e \<Rightarrow> (nat \<Rightarrow> nat) \<Rightarrow> nat \<Rightarrow> 'x \<Rightarrow> bool" where
  "settles ops mem e m 0 x = (fst (xo_test ops e x) = UCC_OK \<and> mem (xo_finalize ops e (snd (xo_test ops e x))) = m)"
| "settles ops mem e m (Suc k) x =
     (fst (xo_test ops e x) \<in> {UCC_OPERATION_INITIALIZED, UCC_INPROGRESS} \<and> settles ops mem e m k (snd (xo_test ops e x)))"

locale copy_executor =
  fixes ops :: "('e, 'x) copy_ops" and mem :: "'x \<Rightarrow> nat \<Rightarrow> nat"
  assumes post_ok: "xo_post ops dst src len x = (UCC_OK, e, x1) \<Longrightarrow> ranges_apart dst src len \<Longrightarrow>
      \<exists>t k. e = Some t \<and> settles ops mem t (memcpy (mem x) dst src len) k x1"
    and post_error: "xo_post ops dst src len x = (st, e, x1) \<Longrightarrow> st \<noteq> UCC_OK \<Longrightarrow> mem x1 = mem x"
begin

lemma settles_polls:
  assumes "ts_progress task = Ucc_tl_self_copy_progress" "ts_etask task = Some e"
  shows "settles ops mem e m k x \<Longrightarrow>
    \<exists>t x'. self_polls ops k (fst (self_progress_call ops task x)) (snd (self_progress_call ops task x)) = Some (UCC_OK, t, x') \<and> mem x' = m"
  using assms
proof (induction k arbitrary: x task)
  case 0
  then show ?case
    by (cases "xo_test ops e x")
      (auto simp: self_progress_call_def ucc_tl_self_copy_progress_def self_polls.simps)
next
  case (Suc k)
  obtain st x1 where t: "xo_test ops e x = (st, x1)" by (cases "xo_test ops e x")
  then have "st = UCC_OPERATION_INITIALIZED \<or> st = UCC_INPROGRESS" and s: "settles ops mem e m k x1"
    using Suc.prems(1) by auto
  then have "self_progress_call ops task x = (task\<lparr>ts_status := UCC_INPROGRESS\<rparr>, x1)"
    using Suc.prems(2,3) t by (simp add: self_progress_call_def ucc_tl_self_copy_progress_def)
  then show ?case using Suc.IH [OF s, of "task\<lparr>ts_status := UCC_INPROGRESS\<rparr>"] Suc.prems(2,3)
    by (simp add: self_polls.simps [of ops "Suc k"] split_beta)
qed

lemma copy_start_settles:
  assumes "ts_progress task = Ucc_tl_self_copy_progress" "ranges_apart (ts_dst task) (ts_src task) (ts_size task)"
    and s: "ucc_tl_self_copy_start ops UCC_OK task x = (st, t1, x1)"
  shows "if st = UCC_OK
         then \<exists>k t x'. self_polls ops k t1 x1 = Some (UCC_OK, t, x') \<and>
                mem x' = memcpy (mem x) (ts_dst task) (ts_src task) (ts_size task)
         else ts_status t1 = st \<and> mem x1 = mem x"
proof -
  obtain ps e x2 where p: "xo_post ops (ts_dst task) (ts_src task) (ts_size task) x = (ps, e, x2)"
    by (cases "xo_post ops (ts_dst task) (ts_src task) (ts_size task) x")
  show ?thesis
  proof (cases "ps = UCC_OK")
    case True
    then obtain et k where k: "e = Some et"
        "settles ops mem et (memcpy (mem x) (ts_dst task) (ts_src task) (ts_size task)) k x2"
      using post_ok p assms(2) by blast
    have "st = UCC_OK" "(t1, x1) = self_progress_call ops (task\<lparr>ts_etask := e\<rparr>) x2"
      using s p True by (simp_all add: ucc_tl_self_copy_start_def)
    then show ?thesis using settles_polls [OF _ _ k(2), of "task\<lparr>ts_etask := e\<rparr>"] k(1) assms(1)
      by (metis fst_conv snd_conv ucc_tl_self_task.select_convs(5,12) ucc_tl_self_task.update_convs(12) ucc_tl_self_task.surjective)
  next
    case False
    then show ?thesis using s p post_error [OF p False] by (auto simp: ucc_tl_self_copy_start_def)
  qed
qed

end

interpretation cpu_copy: copy_executor "cpu_copy_ops cap" fst for cap
proof
  fix dst src len x e x1
  assume "xo_post (cpu_copy_ops cap) dst src len x = (UCC_OK, e, x1)"
  then have "e = Some UCC_OK \<and> settles (cpu_copy_ops cap) fst UCC_OK (memcpy (fst x) dst src len) 0 x1"
    by (auto simp: cpu_copy_ops_def ucc_cpu_executor_task_post_copy_def split: if_splits)
  then show "\<exists>t k. e = Some t \<and> settles (cpu_copy_ops cap) fst t (memcpy (fst x) dst src len) k x1" by blast
qed (auto simp: cpu_copy_ops_def ucc_cpu_executor_task_post_copy_def split: if_splits)

section \<open>What the collectives of a team of one rank compute\<close>

text \<open>
  Destination, source and length in bytes of the move a collective asks for. Displacements count elements, as in the other
  transport layers; a missing displacement array stands for displacement 0.
\<close>

definition self_displ :: "ucc_coll_args \<Rightarrow> nat list \<Rightarrow> nat" where
  "self_displ args ds = (case ucc_coll_args_get_displacement args ds 0 of Some d \<Rightarrow> d | None \<Rightarrow> 0)"

definition self_count :: "ucc_coll_args \<Rightarrow> nat list \<Rightarrow> nat" where
  "self_count args cs = (case ucc_coll_args_get_count args cs 0 of Some c \<Rightarrow> c | None \<Rightarrow> 0)"

definition self_dst :: "ucc_coll_args \<Rightarrow> nat" where
  "self_dst args =
     (if coll_type args \<in> {UCC_COLL_TYPE_GATHERV, UCC_COLL_TYPE_ALLGATHERV, UCC_COLL_TYPE_REDUCE_SCATTERV, UCC_COLL_TYPE_ALLTOALLV}
      then buffer_v (info_v (args_dst args))
             + self_displ args (displacements_v (info_v (args_dst args))) * ucc_dt_size (datatype_v (info_v (args_dst args)))
      else buffer_addr (info (args_dst args)))"

definition self_src :: "ucc_coll_args \<Rightarrow> nat" where
  "self_src args =
     (if coll_type args \<in> {UCC_COLL_TYPE_SCATTERV, UCC_COLL_TYPE_ALLTOALLV}
      then buffer_v (info_v (args_src args))
             + self_displ args (displacements_v (info_v (args_src args))) * ucc_dt_size (datatype_v (info_v (args_src args)))
      else buffer_addr (info (args_src args)))"

definition self_bytes :: "ucc_coll_args \<Rightarrow> nat" where
  "self_bytes args =
     (if coll_type args = UCC_COLL_TYPE_ALLTOALLV
      then self_count args (counts_v (info_v (args_src args))) * ucc_dt_size (datatype_v (info_v (args_src args)))
      else if coll_type args = UCC_COLL_TYPE_SCATTERV
      then buf_count (info (args_dst args)) * ucc_dt_size (datatype_of (info (args_dst args)))
      else buf_count (info (args_src args)) * ucc_dt_size (datatype_of (info (args_src args))))"

definition self_noop :: "ucc_coll_args \<Rightarrow> bool" where
  "self_noop args \<longleftrightarrow>
     coll_type args \<in> {UCC_COLL_TYPE_BARRIER, UCC_COLL_TYPE_BCAST, UCC_COLL_TYPE_FANIN, UCC_COLL_TYPE_FANOUT} \<or> UCC_IS_INPLACE args"

definition self_result :: "ucc_coll_args \<Rightarrow> (nat \<Rightarrow> nat) \<Rightarrow> nat \<Rightarrow> nat" where
  "self_result args m = (if self_noop args then m else memcpy m (self_dst args) (self_src args) (self_bytes args))"

text \<open>
  Arguments the API allows, and displacements whose value in bytes is their value in elements: they are 0, or an element is one
  byte long.
\<close>

definition self_args_ok :: "ucc_coll_args \<Rightarrow> ucc_rank \<Rightarrow> bool" where
  "self_args_ok args rank \<longleftrightarrow>
     ucc_coll_args_is_predefined_dt args rank = Some True \<and>
     self_bytes args < 2 ^ 64 \<and>
     (self_noop args \<or> ranges_apart (self_dst args) (self_src args) (self_bytes args)) \<and>
     (coll_type args = UCC_COLL_TYPE_ALLTOALLV \<longrightarrow>
        counts_v (info_v (args_src args)) \<noteq> [] \<and> displacements_v (info_v (args_dst args)) \<noteq> []) \<and>
     (coll_type args \<in> {UCC_COLL_TYPE_ALLTOALLV, UCC_COLL_TYPE_SCATTERV} \<longrightarrow>
        displacements_v (info_v (args_src args)) \<noteq> [] \<and>
        (self_displ args (displacements_v (info_v (args_src args))) = 0 \<or> ucc_dt_size (datatype_v (info_v (args_src args))) = 1)) \<and>
     (coll_type args \<in> {UCC_COLL_TYPE_GATHERV, UCC_COLL_TYPE_ALLGATHERV, UCC_COLL_TYPE_REDUCE_SCATTERV, UCC_COLL_TYPE_ALLTOALLV} \<longrightarrow>
        self_displ args (displacements_v (info_v (args_dst args))) = 0 \<or> ucc_dt_size (datatype_v (info_v (args_dst args))) = 1)"

lemma self_displ_some:
  "ds \<noteq> [] \<Longrightarrow> ucc_coll_args_get_displacement args ds 0 = Some (self_displ args ds)"
  by (simp add: self_displ_def ucc_coll_args_get_displacement_def count_elem_def)

lemma self_displ_null: "self_displ args [] = 0"
  by (simp add: self_displ_def ucc_coll_args_get_displacement_def count_elem_def)

lemma self_count_some:
  "cs \<noteq> [] \<Longrightarrow> ucc_coll_args_get_count args cs 0 = Some (self_count args cs)"
  by (simp add: self_count_def ucc_coll_args_get_count_def count_elem_def)

lemma mult_same: "d = 0 \<or> k = 1 \<Longrightarrow> d * k = (d :: nat)"
  by auto

text \<open>Every init function that succeeds installs either the pair for nothing or the pair for a copy.\<close>

definition self_task_for :: "ucc_coll_args \<Rightarrow> 'e ucc_tl_self_task \<Rightarrow> bool" where
  "self_task_for args t \<longleftrightarrow>
     (if self_noop args then ts_post t = Ucc_tl_self_coll_start \<and> ts_progress t = Ucc_tl_self_noop_progress
      else ts_post t = Ucc_tl_self_copy_start \<and> ts_progress t = Ucc_tl_self_copy_progress \<and> ts_executor t \<and>
           ts_dst t = self_dst args \<and> ts_src t = self_src args \<and> ts_size t = self_bytes args)"

lemma self_init_task_for:
  assumes "ucc_coll_args_is_predefined_dt (ts_args task) (ts_rank task) = Some True"
    and "\<not> UCC_IS_INPLACE (ts_args task) \<Longrightarrow> \<exists>t. copy task = Some t \<and> self_task_for (ts_args task) t"
  shows "\<exists>t. self_init copy task = Some (UCC_OK, t) \<and> self_task_for (ts_args task) t"
  using assms by (cases "UCC_IS_INPLACE (ts_args task)")
    (auto simp: self_init_def self_in_place_def self_task_for_def self_noop_def)

lemma self_copy_task_for:
  assumes "\<not> self_noop args" "dst = self_dst args" "src = self_src args" "len = self_bytes args"
  shows "self_task_for args (self_copy dst src len dmt smt task)"
  using assms by (simp add: self_task_for_def self_copy_def)

lemma self_not_noop:
  assumes "coll_type args \<notin> {UCC_COLL_TYPE_BARRIER, UCC_COLL_TYPE_BCAST, UCC_COLL_TYPE_FANIN, UCC_COLL_TYPE_FANOUT}"
    "\<not> UCC_IS_INPLACE args"
  shows "\<not> self_noop args"
  using assms by (simp add: self_noop_def)

lemma self_args_okD:
  assumes "self_args_ok args rank"
  shows "ucc_coll_args_is_predefined_dt args rank = Some True" "u64 (self_bytes args) = self_bytes args"
  using assms by (simp_all only: self_args_ok_def u64_id)

lemma copy_init_installs:
  assumes ok: "self_args_ok (ts_args task) (ts_rank task)"
    and ct: "coll_type (ts_args task) \<in> {UCC_COLL_TYPE_REDUCE, UCC_COLL_TYPE_GATHER, UCC_COLL_TYPE_ALLTOALL, UCC_COLL_TYPE_ALLREDUCE,
        UCC_COLL_TYPE_ALLGATHER, UCC_COLL_TYPE_REDUCE_SCATTER}"
  shows "\<exists>t. ucc_tl_self_coll_copy_init task = Some (UCC_OK, t) \<and> self_task_for (ts_args task) t"
proof -
  let ?a = "ts_args task"
  have e: "self_dst ?a = buffer_addr (info (args_dst ?a))" "self_src ?a = buffer_addr (info (args_src ?a))"
      "self_bytes ?a = buf_count (info (args_src ?a)) * ucc_dt_size (datatype_of (info (args_src ?a)))"
    using ct by (auto simp: self_dst_def self_src_def self_bytes_def)
  have n: "\<not> UCC_IS_INPLACE ?a \<Longrightarrow> \<not> self_noop ?a" using ct by (intro self_not_noop) auto
  show ?thesis unfolding ucc_tl_self_coll_copy_init_def
    by (rule self_init_task_for [OF self_args_okD(1) [OF ok]])
      (simp add: Let_def, rule self_copy_task_for, use n e self_args_okD(2) [OF ok] in simp_all)
qed

lemma copyv_init_installs:
  assumes ok: "self_args_ok (ts_args task) (ts_rank task)"
    and ct: "coll_type (ts_args task) \<in> {UCC_COLL_TYPE_GATHERV, UCC_COLL_TYPE_ALLGATHERV, UCC_COLL_TYPE_REDUCE_SCATTERV}"
  shows "\<exists>t. ucc_tl_self_coll_copyv_init task = Some (UCC_OK, t) \<and> self_task_for (ts_args task) t"
proof -
  let ?a = "ts_args task"
  let ?ds = "displacements_v (info_v (args_dst ?a))"
  have "self_displ ?a ?ds = 0 \<or> ucc_dt_size (datatype_v (info_v (args_dst ?a))) = 1"
    using ok ct unfolding self_args_ok_def by blast
  then have e: "self_dst ?a = buffer_v (info_v (args_dst ?a)) + self_displ ?a ?ds" "self_src ?a = buffer_addr (info (args_src ?a))"
      "self_bytes ?a = buf_count (info (args_src ?a)) * ucc_dt_size (datatype_of (info (args_src ?a)))"
    using ct by (auto simp: self_dst_def self_src_def self_bytes_def)
  have d: "(if ?ds = [] then Some 0 else ucc_coll_args_get_displacement ?a ?ds 0) = Some (self_displ ?a ?ds)"
    by (simp add: self_displ_null self_displ_some)
  have n: "\<not> UCC_IS_INPLACE ?a \<Longrightarrow> \<not> self_noop ?a" using ct by (intro self_not_noop) auto
  show ?thesis unfolding ucc_tl_self_coll_copyv_init_def Let_def d option.case
    by (rule self_init_task_for [OF self_args_okD(1) [OF ok]])
      (simp add: d, rule self_copy_task_for, use n e self_args_okD(2) [OF ok] in simp_all)
qed

lemma alltoallv_init_installs:
  assumes ok: "self_args_ok (ts_args task) (ts_rank task)" and ct: "coll_type (ts_args task) = UCC_COLL_TYPE_ALLTOALLV"
  shows "\<exists>t. ucc_tl_self_alltoallv_init task = Some (UCC_OK, t) \<and> self_task_for (ts_args task) t"
proof -
  let ?a = "ts_args task"
  let ?dd = "displacements_v (info_v (args_dst ?a))" and ?sd = "displacements_v (info_v (args_src ?a))"
    and ?c = "counts_v (info_v (args_src ?a))"
  have "self_displ ?a ?dd = 0 \<or> ucc_dt_size (datatype_v (info_v (args_dst ?a))) = 1"
      "self_displ ?a ?sd = 0 \<or> ucc_dt_size (datatype_v (info_v (args_src ?a))) = 1" "?dd \<noteq> []" "?sd \<noteq> []" "?c \<noteq> []"
    using ok ct unfolding self_args_ok_def by blast+
  then have e: "self_dst ?a = buffer_v (info_v (args_dst ?a)) + self_displ ?a ?dd"
      "self_src ?a = buffer_v (info_v (args_src ?a)) + self_displ ?a ?sd"
      "self_bytes ?a = self_count ?a ?c * ucc_dt_size (datatype_v (info_v (args_src ?a)))"
      and d: "ucc_coll_args_get_displacement ?a ?dd 0 = Some (self_displ ?a ?dd)"
        "ucc_coll_args_get_displacement ?a ?sd 0 = Some (self_displ ?a ?sd)"
        "ucc_coll_args_get_count ?a ?c 0 = Some (self_count ?a ?c)"
    using ct by (auto simp: self_dst_def self_src_def self_bytes_def self_displ_some self_count_some)
  have n: "\<not> UCC_IS_INPLACE ?a \<Longrightarrow> \<not> self_noop ?a" using ct by (intro self_not_noop) auto
  show ?thesis unfolding ucc_tl_self_alltoallv_init_def
    by (rule self_init_task_for [OF self_args_okD(1) [OF ok]])
      (simp add: Let_def d, rule self_copy_task_for, use n e self_args_okD(2) [OF ok] in simp_all)
qed

lemma scatterv_init_installs:
  assumes ok: "self_args_ok (ts_args task) (ts_rank task)" and ct: "coll_type (ts_args task) = UCC_COLL_TYPE_SCATTERV"
  shows "\<exists>t. ucc_tl_self_scatterv_init task = Some (UCC_OK, t) \<and> self_task_for (ts_args task) t"
proof -
  let ?a = "ts_args task"
  let ?sd = "displacements_v (info_v (args_src ?a))"
  have "self_displ ?a ?sd = 0 \<or> ucc_dt_size (datatype_v (info_v (args_src ?a))) = 1" "?sd \<noteq> []"
    using ok ct unfolding self_args_ok_def by blast+
  then have e: "self_dst ?a = buffer_addr (info (args_dst ?a))" "self_src ?a = buffer_v (info_v (args_src ?a)) + self_displ ?a ?sd"
      "self_bytes ?a = buf_count (info (args_dst ?a)) * ucc_dt_size (datatype_of (info (args_dst ?a)))"
      and d: "ucc_coll_args_get_displacement ?a ?sd 0 = Some (self_displ ?a ?sd)"
    using ct by (auto simp: self_dst_def self_src_def self_bytes_def self_displ_some)
  have n: "\<not> UCC_IS_INPLACE ?a \<Longrightarrow> \<not> self_noop ?a" using ct by (intro self_not_noop) auto
  show ?thesis unfolding ucc_tl_self_scatterv_init_def
    by (rule self_init_task_for [OF self_args_okD(1) [OF ok]])
      (simp add: Let_def d, rule self_copy_task_for, use n e self_args_okD(2) [OF ok] in simp_all)
qed

lemma self_select_installs:
  assumes ok: "self_args_ok (ts_args task) (ts_rank task)"
    and ct: "coll_type (ts_args task) \<notin> {UCC_COLL_TYPE_SCATTER, UCC_COLL_TYPE_LAST}"
  shows "\<exists>t. self_select task = Some (UCC_OK, t) \<and> self_task_for (ts_args task) t"
proof -
  let ?a = "ts_args task"
  consider (noop) "coll_type ?a \<in> {UCC_COLL_TYPE_BARRIER, UCC_COLL_TYPE_BCAST, UCC_COLL_TYPE_FANIN, UCC_COLL_TYPE_FANOUT}"
    | (copy) "coll_type ?a \<in> {UCC_COLL_TYPE_REDUCE, UCC_COLL_TYPE_GATHER, UCC_COLL_TYPE_ALLTOALL, UCC_COLL_TYPE_ALLREDUCE,
        UCC_COLL_TYPE_ALLGATHER, UCC_COLL_TYPE_REDUCE_SCATTER}"
    | (copyv) "coll_type ?a \<in> {UCC_COLL_TYPE_GATHERV, UCC_COLL_TYPE_ALLGATHERV, UCC_COLL_TYPE_REDUCE_SCATTERV}"
    | (a2av) "coll_type ?a = UCC_COLL_TYPE_ALLTOALLV" | (scatterv) "coll_type ?a = UCC_COLL_TYPE_SCATTERV"
    using ct by (cases "coll_type ?a") simp_all
  then show ?thesis
  proof cases
    case noop
    then show ?thesis by (auto simp: self_select_def ucc_tl_self_coll_noop_init_def self_task_for_def self_noop_def)
  next
    case copy
    then have "self_select task = ucc_tl_self_coll_copy_init task" by (auto simp: self_select_def)
    then show ?thesis using copy_init_installs [OF ok copy] by simp
  next
    case copyv
    then have "self_select task = ucc_tl_self_coll_copyv_init task" by (auto simp: self_select_def)
    then show ?thesis using copyv_init_installs [OF ok copyv] by simp
  next
    case a2av
    then show ?thesis using alltoallv_init_installs [OF ok a2av] by (simp add: self_select_def)
  next
    case scatterv
    then show ?thesis using scatterv_init_installs [OF ok scatterv] by (simp add: self_select_def)
  qed
qed

section \<open>Properties\<close>

text \<open>A task object is handed out exactly when the init function succeeds; on every error it is back in the pool.\<close>

lemma tl_self_init_pool:
  assumes "ucc_tl_self_coll_init avail args rank used = Some (status, t, used1)"
  shows "(t \<noteq> None \<longleftrightarrow> status = UCC_OK) \<and> used1 = (if status = UCC_OK then Suc used else used)"
  using assms by (auto simp: ucc_tl_self_coll_init_def ucc_tl_self_coll_init_task_def ucc_tl_self_put_task_def split: if_splits)

text \<open>The collectives the layer announces; the \<open>switch\<close> of the init function has no case for a scatter.\<close>

definition UCC_TL_SELF_SUPPORTED_COLLS :: "ucc_coll_type set" where
  "UCC_TL_SELF_SUPPORTED_COLLS =
     {UCC_COLL_TYPE_ALLTOALL, UCC_COLL_TYPE_ALLTOALLV, UCC_COLL_TYPE_ALLGATHER, UCC_COLL_TYPE_ALLGATHERV,
      UCC_COLL_TYPE_ALLREDUCE, UCC_COLL_TYPE_BCAST, UCC_COLL_TYPE_BARRIER, UCC_COLL_TYPE_REDUCE, UCC_COLL_TYPE_FANIN,
      UCC_COLL_TYPE_FANOUT, UCC_COLL_TYPE_GATHER, UCC_COLL_TYPE_GATHERV, UCC_COLL_TYPE_SCATTER, UCC_COLL_TYPE_SCATTERV,
      UCC_COLL_TYPE_REDUCE_SCATTER, UCC_COLL_TYPE_REDUCE_SCATTERV}"

lemma tl_self_scatter_refused:
  assumes "coll_type args = UCC_COLL_TYPE_SCATTER"
  shows "coll_type args \<in> UCC_TL_SELF_SUPPORTED_COLLS \<and>
    ucc_tl_self_coll_init True args rank used = Some (UCC_ERR_NOT_SUPPORTED, None :: 'e ucc_tl_self_task option, used)"
  using assms by (simp add: UCC_TL_SELF_SUPPORTED_COLLS_def ucc_tl_self_coll_init_def ucc_tl_self_coll_init_task_def
      self_select_def ucc_tl_self_put_task_def)

text \<open>
  C9: over any executor that copies, the collectives of a team of one rank, a scatter apart, compute what they should when every
  displacement is 0 or an element is one byte long: the init function succeeds, and when posting succeeds a finite number of polls
  completes the task with success and the memory holds the source's bytes at the destination and is otherwise unchanged; when posting
  fails the task has that status and the memory is unchanged.
\<close>

theorem tl_self_coll_correct:
  fixes ops :: "('e, 'x) copy_ops"
  assumes ex: "copy_executor ops mem" and ok: "self_args_ok args rank"
    and ct: "coll_type args \<notin> {UCC_COLL_TYPE_SCATTER, UCC_COLL_TYPE_LAST}"
  shows "\<exists>task. ucc_tl_self_coll_init True args rank used = Some (UCC_OK, Some task, Suc used) \<and>
    (\<forall>x. case self_post_call ops UCC_OK task x of (st, t1, x1) \<Rightarrow>
       if st = UCC_OK
       then \<exists>k t x'. self_polls ops k t1 x1 = Some (UCC_OK, t, x') \<and> mem x' = self_result args (mem x)
       else ts_status t1 = st \<and> mem x1 = mem x)"
proof -
  define t0 :: "'e ucc_tl_self_task" where "t0 = the (fst (ucc_tl_self_coll_init_task True args rank used))"
  have t0: "ts_args t0 = args" "ts_rank t0 = rank" by (simp_all add: t0_def ucc_tl_self_coll_init_task_def)
  from self_select_installs [of t0] ok ct t0 obtain task where
    s: "self_select t0 = Some (UCC_OK, task)" and tf: "self_task_for args task" by auto
  have "ucc_tl_self_coll_init True args rank used = Some (UCC_OK, Some task, Suc used)"
    using s by (simp add: ucc_tl_self_coll_init_def ucc_tl_self_coll_init_task_def t0_def)
  moreover have "case self_post_call ops UCC_OK task x of (st, t1, x1) \<Rightarrow>
       if st = UCC_OK
       then \<exists>k t x'. self_polls ops k t1 x1 = Some (UCC_OK, t, x') \<and> mem x' = self_result args (mem x)
       else ts_status t1 = st \<and> mem x1 = mem x" for x
  proof (cases "self_noop args")
    case True
    then have "self_post_call ops UCC_OK task x = (UCC_OK, task\<lparr>ts_status := UCC_OK\<rparr>, x)"
      using tf by (simp add: self_task_for_def self_post_call_def ucc_tl_self_coll_start_def self_progress_call_def
          ucc_tl_self_noop_progress_def)
    then show ?thesis using True by (simp add: self_polls.simps self_result_def)
  next
    case False
    then have "self_post_call ops UCC_OK task x = ucc_tl_self_copy_start ops UCC_OK task x"
      and p: "ts_progress task = Ucc_tl_self_copy_progress" "ranges_apart (ts_dst task) (ts_src task) (ts_size task)"
      and r: "self_result args (mem x) = memcpy (mem x) (ts_dst task) (ts_src task) (ts_size task)"
      using tf ok by (simp_all add: self_task_for_def self_post_call_def self_args_ok_def self_result_def)
    then show ?thesis using copy_executor.copy_start_settles [OF ex p, of x]
      by (cases "ucc_tl_self_copy_start ops UCC_OK task x") simp
  qed
  ultimately show ?thesis by blast
qed

lemma example_self_fields:
  "coll_type example_v_args = UCC_COLL_TYPE_GATHERV" "displacements_v (info_v (args_dst example_v_args)) = [0, 2, 2]"
  "buffer_v (info_v (args_dst example_v_args)) = 4096" "buffer_addr (info (args_src example_v_args)) = 0"
  "buf_count (info (args_src example_v_args)) = 1" "ucc_dt_size (datatype_of (info (args_src example_v_args))) = 4"
  by (simp_all add: example_v_args_def Let_def ucc_dt_predefined_sizes_def)

lemma example_self_args:
  "ucc_coll_args_is_predefined_dt example_v_args 0 = Some True" "\<not> UCC_IS_INPLACE example_v_args"
  "self_displ example_v_args [0, 2, 2] = 0"
  by (simp_all add: ucc_coll_args_is_predefined_dt.simps example_v_args_def Let_def UCC_IS_ROOT_def UCC_IS_INPLACE_def
      ucc_bit_set_def self_displ_def ucc_coll_args_get_displacement_def count_elem_def u32_def u64_def)

lemma example_self_args_ok: "self_args_ok example_v_args 0"
  by (simp add: self_args_ok_def self_noop_def ranges_apart_def self_dst_def self_src_def self_bytes_def example_self_fields
      example_self_args)

text \<open>One integer of a team of one rank is gathered from address 0 to address 4096 by the executor of the CPU.\<close>

theorem tl_self_coll_correct_witness:
  "\<exists>task. ucc_tl_self_coll_init True example_v_args 0 0 = Some (UCC_OK, Some task, Suc 0) \<and>
    (\<forall>x. case self_post_call (cpu_copy_ops 1) UCC_OK task x of (st, t1, x1) \<Rightarrow>
       if st = UCC_OK
       then \<exists>k t x'. self_polls (cpu_copy_ops 1) k t1 x1 = Some (UCC_OK, t, x') \<and> fst x' = self_result example_v_args (fst x)
       else ts_status t1 = st \<and> fst x1 = fst x)"
proof (rule tl_self_coll_correct)
  show "coll_type example_v_args \<notin> {UCC_COLL_TYPE_SCATTER, UCC_COLL_TYPE_LAST}" by (simp add: example_self_fields)
qed (rule cpu_copy.copy_executor_axioms, rule example_self_args_ok)

text \<open>
  C31: the layer adds the displacement of a gatherv, an allgatherv or a reduce-scatterv to the address of the buffer as a number of
  bytes: with elements longer than a byte and a displacement other than 0 the copy goes to an address below the element the
  displacement names.
\<close>

theorem tl_self_displacement_in_bytes:
  assumes ct: "coll_type args \<in> {UCC_COLL_TYPE_GATHERV, UCC_COLL_TYPE_ALLGATHERV, UCC_COLL_TYPE_REDUCE_SCATTERV}"
    and p: "ucc_coll_args_is_predefined_dt args rank = Some True" and ip: "\<not> UCC_IS_INPLACE args"
    and d: "0 < self_displ args (displacements_v (info_v (args_dst args)))"
    and s: "1 < ucc_dt_size (datatype_v (info_v (args_dst args)))"
  shows "\<exists>task. ucc_tl_self_coll_init True args rank used = Some (UCC_OK, Some task, Suc used) \<and>
    ts_dst task = buffer_v (info_v (args_dst args)) + self_displ args (displacements_v (info_v (args_dst args))) \<and>
    ts_dst task < self_dst args"
proof -
  let ?ds = "displacements_v (info_v (args_dst args))"
  have n: "?ds \<noteq> []" using d by (auto simp: self_displ_null)
  have lt: "buffer_v (info_v (args_dst args)) + self_displ args ?ds < self_dst args"
    using ct d s by (auto simp: self_dst_def)
  have "self_select t = ucc_tl_self_coll_copyv_init t" if "ts_args t = args" for t :: "'a ucc_tl_self_task"
    using ct that by (auto simp: self_select_def)
  then show ?thesis using p ip lt n
    by (simp add: ucc_tl_self_coll_init_def ucc_tl_self_coll_init_task_def ucc_tl_self_coll_copyv_init_def self_init_def
        self_displ_some self_copy_def Let_def)
qed

definition example_displ_args :: ucc_coll_args where
  "example_displ_args =
     example_v_args\<lparr>args_dst := (args_dst example_v_args)
       \<lparr>info_v := (info_v (args_dst example_v_args))\<lparr>displacements_v := [1]\<rparr>\<rparr>\<rparr>"

text \<open>The integer with displacement 1 from address 4096 is written to address 4097 and not to 4100.\<close>

theorem tl_self_displacement_in_bytes_witness:
  "(\<exists>task. ucc_tl_self_coll_init True example_displ_args 0 0 = Some (UCC_OK, Some (task :: ucc_status ucc_tl_self_task), Suc 0) \<and>
     ts_dst task = 4097 \<and> ts_dst task < self_dst example_displ_args) \<and> self_dst example_displ_args = 4100"
proof -
  have e: "coll_type example_displ_args = UCC_COLL_TYPE_GATHERV" "ucc_coll_args_is_predefined_dt example_displ_args 0 = Some True"
      "\<not> UCC_IS_INPLACE example_displ_args" "displacements_v (info_v (args_dst example_displ_args)) = [1]"
      "buffer_v (info_v (args_dst example_displ_args)) = 4096" "self_displ example_displ_args [1] = 1"
      "ucc_dt_size (datatype_v (info_v (args_dst example_displ_args))) = 4"
    by (simp_all add: ucc_coll_args_is_predefined_dt.simps example_displ_args_def example_v_args_def Let_def UCC_IS_ROOT_def
        UCC_IS_INPLACE_def ucc_bit_set_def self_displ_def ucc_coll_args_get_displacement_def count_elem_def u32_def u64_def
        ucc_dt_predefined_sizes_def)
  then have "self_dst example_displ_args = 4100" by (simp add: self_dst_def)
  then show ?thesis using tl_self_displacement_in_bytes [of example_displ_args 0 0, where ?'a = ucc_status] e by simp
qed

end
