(* ===== verification/Spec2Isabelle.thy ===== *)
theory Spec2Isabelle
  imports Ucc_Prelude Ucc_Math Buffer_Blocks Coll_Types Ep_Map Coll_Score
    Score_Merge Score_Update Score_Map Knomial Sra_Knomial Lf_Queue Lf_Queue_Conc
    Schedule Schedule_Props Hier_Chain Progress_Queue Tl_Ucp
    Tl_Ucp_Barrier Barrier_Inv Barrier_Props
    Coll_Net Coll_Exec Team_Ranks Kn_Tree Bcast_Knomial Allgather Allgather_Neighbor Allgather_Bruck
    Ec_Cpu Dt_Reduce Reduce_Knomial Allreduce_Knomial Tl_Self
begin

text \<open>
  A verification development for UCC, the library for unified collective communication. Paths below are those of the repository.

  \<^bold>\<open>The program.\<close> An application asks the core for a collective on a team. The core computes the message size and memory type from
  the arguments, looks up the init function with the best score for them (\<open>src/coll_score\<close>) and walks its fallbacks. The init function
  of a transport layer (\<open>src/components/tl\<close>) fills a task; posting it starts an algorithm whose progress function the progress
  queues (\<open>src/core\<close>) poll. A collective layer (\<open>src/components/cl\<close>) composes tasks into schedules (\<open>src/schedule\<close>). The algorithms of the
  UCP layer take their peers from communication patterns (\<open>src/coll_patterns\<close>), their blocks from the partitions of \<open>src/utils\<close>, and
  reduce with an executor (\<open>src/components/ec\<close>).

  \<^bold>\<open>Conventions.\<close> A C structure is a record, an enumeration a datatype. A value of an unsigned type of \<open>N\<close> bits is a natural number and
  every operation that can wrap is followed by \<open>uN\<close> (\<^term>\<open>u32\<close>, \<^term>\<open>sub32\<close> and so on); bitwise routines and the data of reductions are words. An
  error is a value of \<^typ>\<open>ucc_status\<close>. \<open>None\<close> is a read outside an array, an assertion that fails or a loop that does not end. A loop the source does
  not bound is a \<open>partial_function (option)\<close>, and the theorems show that it returns. Code outside the sources (the UCP transport, allocators,
  executors of devices, floating-point arithmetic, functions of the user) is an argument.

  \<^bold>\<open>Theories.\<close>
  \<^item> \<open>Ucc_Prelude\<close>: fixed-width arithmetic, status codes of \<open>ucc_status.h\<close>, shared lemmas. \<open>Ucc_Math\<close>: \<open>ucc_math.h\<close> and \<open>ucc_math.c\<close>, with the
    correctness of valuation, logarithms, alignment, \<open>ucc_sort_uniq\<close> and the bfloat16 conversions.
  \<^item> \<open>Buffer_Blocks\<close>: the even, vector and aligned partitions of \<open>ucc_coll_utils.h\<close>, three interpretations of the locale \<open>block_partition\<close>; the even
    blocks tile the buffer, the aligned ones exactly under a condition that can fail.
  \<^item> \<open>Coll_Types\<close>: datatypes, arguments, counts, message size, memory types and asymmetric buffers of \<open>ucc_coll_utils\<close>; all ranks compute the same
    message size.
  \<^item> \<open>Ep_Map\<close>: endpoint maps; the locale \<open>rank_map\<close> is the contract of a map and its lookup, which the inverse map and the loop ranks of the
    knomial pattern satisfy as well.
  \<^item> \<open>Coll_Score\<close> (definitions), \<open>Score_Merge\<close>, \<open>Score_Update\<close>, \<open>Score_Map\<close>: score tables; merge and update refine a pointwise specification over message
    sizes (locales \<open>range_combine\<close> and \<open>range_max\<close>), the lookup finds a best range, and \<open>ucc_coll_init\<close> stops at the first init function that
    supports the call.
  \<^item> \<open>Knomial\<close>, \<open>Sra_Knomial\<close>: \<open>recursive_knomial.h\<close> and \<open>sra_knomial.h\<close>; every rank combines every contribution once, fields stay in their types, peers are
    mutual, and the routines that compute a segment agree.
  \<^item> \<open>Lf_Queue\<close>, \<open>Lf_Queue_Conc\<close>: the lock-free queue, sequentially as an instance of the locale \<open>task_queue\<close>, and in every interleaving of threads at
    the granularity of its atomic accesses.
  \<^item> \<open>Schedule\<close>, \<open>Schedule_Props\<close>, \<open>Hier_Chain\<close>, \<open>Progress_Queue\<close>: tasks in a store, events, completion, schedules and pipelines; the chain of tasks of the
    hierarchical barrier completes; a pass of the progress engines polls or keeps every task.
  \<^item> \<open>Tl_Ucp\<close>, \<open>Tl_Ucp_Barrier\<close>, \<open>Barrier_Inv\<close>, \<open>Barrier_Props\<close>: tags, task counters, posts and callbacks of the UCP layer, and the knomial barrier, safe, free
    of deadlock and terminating in every interleaving.
  \<^item> \<open>Coll_Net\<close>, \<open>Coll_Exec\<close>: memory of a rank, blocks of a progress function between two tests, the system of all ranks and the network. The locale
    \<open>coll_ideal\<close> states what an algorithm has to guarantee about one ideal execution; from it follows that in every interleaving a rank that completes
    has the ideal memory, no state is stuck and no run is infinite. \<open>coll_rounds\<close> is the case of ranks that run in step.
  \<^item> \<open>Team_Ranks\<close>, \<open>Kn_Tree\<close>: positions in a subset of a team, knomial trees of \<open>tl_ucp_coll.h\<close>.
  \<^item> \<open>Allgather\<close> (ring), \<open>Allgather_Neighbor\<close>, \<open>Allgather_Bruck\<close>, \<open>Bcast_Knomial\<close>, \<open>Reduce_Knomial\<close>, \<open>Allreduce_Knomial\<close>: start and progress functions of the
    algorithms in \<open>src/components/tl/ucp\<close>, each an interpretation of these locales on its own progress function, and the result of the collective.
  \<^item> \<open>Ec_Cpu\<close>, \<open>Dt_Reduce\<close>: reductions of \<open>ec_cpu_reduce.c\<close>, equal to a fold of the operation whatever the macros unroll, and \<open>ucc_dt_reduce.h\<close>; the
    locale \<open>reduce_executor\<close> is what the reducing collectives rely on, and the executor of the CPU satisfies it.
  \<^item> \<open>Tl_Self\<close>: \<open>tl_self_coll.c\<close> over a \<open>copy_executor\<close>, with the executor of the CPU as an instance.

  \<^bold>\<open>Bounds and fuel.\<close> \<open>kn_args_ok\<close> asks that team size times radix be below \<open>2 ^ 32\<close>, so that no power of the radix wraps; outside it the loop of the source can
  run forever. Handlers of tasks call each other through \<open>run_handler\<close> with fuel; \<open>Hier_Chain\<close> gives a bound in the number of tasks that is enough.
  \<open>self_polls\<close> counts polls, and the theorem gives a number that suffices. Progress functions of collectives are modelled without the bound
  on polls per call: the pauses it adds are among the interleavings. Sizes of messages are below \<open>2 ^ 64\<close> where stated.

  \<^bold>\<open>What is assumed.\<close> Messages between two ranks with the same tag arrive in order and unchanged, as UCP documents. Reductions of the collectives are over
  an associative and commutative operation, as the API asks; all integer operations satisfy this, floating-point sums do so only up to rounding. A posted
  reduction is complete when the executor returns, as with the CPU. Allocation succeeds where a theory says so.

  \<^bold>\<open>Not modelled.\<close> Transport layers over CUDA, NCCL, RCCL, SHARP and mlx5, device executors and the offload to DOCA: what they do is in vendor libraries and
  kernels. Creation of libraries, contexts, endpoints and teams: calls into UCX and tables of functions. Memory components: their allocator and copy are
  arguments. Topology and subgroups, double binary trees, and the algorithms of \<open>tl/ucp\<close> other than those above: they have not been translated.
  Configuration, strings, logging, tools and tests.
\<close>

end
